(* ===== verification/Mvcc_Prelude.thy ===== *)
theory Mvcc_Prelude
  imports Main "HOL-Library.Word" "HOL-Library.AList"
begin

text \<open>
  Shared ground of the development: the 64-bit integers of the code (\<open>uint64_t\<close>,
  \<open>size_t\<close>), nullable out-parameters, the interface of \<open>std::unordered_map\<close> and its
  realisation by association lists with distinct keys (the list order stands for the
  iteration order, which C++ leaves open; no statement of the library depends on it beyond
  what it says explicitly), \<open>std::partition_point\<close> as the bisection it is, and
  \<open>std::to_string\<close>.
\<close>

section \<open>Types and automation collections\<close>

type_synonym u64 = "64 word"
type_synonym key = string
type_synonym val = string

text \<open>\<open>mvcc_defs\<close>: operations to unfold; \<open>mvcc_inv\<close>: invariant preservation;
  \<open>mvcc_view\<close>: what a reader sees after an operation.\<close>

named_theorems mvcc_defs
named_theorems mvcc_inv
named_theorems mvcc_view

text \<open>\<open>std::numeric_limits<uint64_t>::max()\<close>.\<close>

definition u64_max :: u64 where
  "u64_max = - 1"

section \<open>64-bit counters\<close>

lemma u64_less_succ: "(n::u64) + 1 \<noteq> 0 \<Longrightarrow> n < n + 1"
  by unat_arith

lemma u64_less_succ_iff: "(n::u64) + 1 \<noteq> 0 \<Longrightarrow> v < n + 1 \<longleftrightarrow> v \<le> n"
  by unat_arith

lemma u64_le_pred_iff: "(n::u64) \<noteq> 0 \<Longrightarrow> v \<le> n - 1 \<longleftrightarrow> v < n"
  by unat_arith

lemma u64_pred_less_iff: "(n::u64) \<noteq> 0 \<Longrightarrow> n - 1 < v \<longleftrightarrow> n \<le> v"
  by unat_arith

lemma unat_succ: "(n::u64) + 1 \<noteq> 0 \<Longrightarrow> unat (n + 1) = Suc (unat n)"
  by unat_arith

lemma u64_succ_neq_0:
  assumes "Suc (unat (n::u64)) < 2 ^ 64"
  shows "n + 1 \<noteq> 0"
proof
  assume "n + 1 = 0"
  then have "n = - 1"
    by (simp add: add_eq_0_iff2)
  with assms show False by (simp add: unsigned_minus_1_eq_mask mask_eq_exp_minus_1)
qed

lemma u64_succ_pos: "(n::u64) + 1 \<noteq> 0 \<Longrightarrow> 0 < n + 1"
  by unat_arith

lemma u64_le_max [simp]: "(n::u64) \<le> u64_max"
  by (simp add: u64_max_def)

lemma u64_min_max [simp]: "min u64_max (n::u64) = n" "min (n::u64) u64_max = n"
  by (simp_all add: min_absorb1 min_absorb2)

section \<open>Sorted lists\<close>

lemma sorted_map_le_last:
  "sorted (map f xs) \<Longrightarrow> x \<in> set xs \<Longrightarrow> f x \<le> f (last xs)"
  by (induction xs rule: rev_induct) (auto simp: sorted_append)

section \<open>Nullable out-parameters\<close>

text \<open>
  A pointer parameter that may be \<open>nullptr\<close> is an option: \<open>None\<close> for \<open>nullptr\<close>,
  \<open>Some old\<close> for a pointer to a location that holds \<open>old\<close>. Writing through it after
  the null check yields the new contents of the location.
\<close>

definition write_out :: "'a option \<Rightarrow> 'a \<Rightarrow> 'a option" where
  "write_out p v = (case p of None \<Rightarrow> None | Some _ \<Rightarrow> Some v)"

lemma write_out_simps [simp]:
  "write_out None v = None" "write_out (Some old) v = Some v"
  by (simp_all add: write_out_def)

section \<open>The interface of std::unordered_map\<close>

text \<open>
  What the code relies on: \<open>find\<close>, assignment through \<open>operator[]\<close>, \<open>erase\<close> by key and
  \<open>size\<close>.
\<close>

locale unordered_map =
  fixes empty :: 'm
    and find :: "'m \<Rightarrow> 'k \<Rightarrow> 'v option"
    and assign :: "'m \<Rightarrow> 'k \<Rightarrow> 'v \<Rightarrow> 'm"
    and erase :: "'m \<Rightarrow> 'k \<Rightarrow> 'm"
    and size_of :: "'m \<Rightarrow> nat"
    and wf :: "'m \<Rightarrow> bool"
  assumes wf_empty: "wf empty"
    and wf_assign: "wf m \<Longrightarrow> wf (assign m k v)"
    and wf_erase: "wf m \<Longrightarrow> wf (erase m k)"
    and find_empty: "find empty = Map.empty"
    and find_assign: "wf m \<Longrightarrow> find (assign m k v) = (find m)(k \<mapsto> v)"
    and find_erase: "wf m \<Longrightarrow> find (erase m k) = (find m)(k := None)"
    and finite_dom: "wf m \<Longrightarrow> finite (dom (find m))"
    and size_dom: "wf m \<Longrightarrow> size_of m = card (dom (find m))"
begin

lemma size_assign:
  "wf m \<Longrightarrow> size_of (assign m k v) = (if find m k = None then Suc (size_of m) else size_of m)"
  by (auto simp: size_dom wf_assign find_assign finite_dom insert_absorb domIff)

lemma size_erase:
  assumes "wf m"
  shows "size_of (erase m k) = (if find m k = None then size_of m else size_of m - 1)"
proof -
  have "dom (find (erase m k)) = dom (find m) - {k}"
    using assms by (auto simp: find_erase)
  with assms show ?thesis
    by (auto simp: size_dom wf_erase finite_dom domIff)
qed

lemma size_empty: "size_of empty = 0"
  by (simp add: size_dom wf_empty find_empty)

lemma assign_erase_find:
  "wf m \<Longrightarrow> find m k = None \<Longrightarrow> find (erase (assign m k v) k) = find m"
  by (auto simp: find_erase wf_assign find_assign)

end

text \<open>The realisation used by the model.\<close>

definition um_find :: "('k \<times> 'v) list \<Rightarrow> 'k \<Rightarrow> 'v option" where
  "um_find m k = map_of m k"

definition um_assign :: "('k \<times> 'v) list \<Rightarrow> 'k \<Rightarrow> 'v \<Rightarrow> ('k \<times> 'v) list" where
  "um_assign m k v = AList.update k v m"

definition um_erase :: "('k \<times> 'v) list \<Rightarrow> 'k \<Rightarrow> ('k \<times> 'v) list" where
  "um_erase m k = AList.delete k m"

definition um_size :: "('k \<times> 'v) list \<Rightarrow> nat" where
  "um_size m = length m"

definition um_wf :: "('k \<times> 'v) list \<Rightarrow> bool" where
  "um_wf m \<longleftrightarrow> distinct (map fst m)"

interpretation um: unordered_map
  "[] :: ('k \<times> 'v) list" um_find um_assign um_erase um_size um_wf
proof unfold_locales
  fix m :: "('k \<times> 'v) list"
  assume "um_wf m"
  then show "um_size m = card (dom (um_find m))"
    using distinct_card [of "map fst m"]
    by (simp add: um_find_def [abs_def] um_size_def um_wf_def dom_map_of_conv_image_fst)
qed (auto simp: um_wf_def um_find_def [abs_def] um_assign_def um_erase_def distinct_update
      distinct_delete update_conv' delete_conv' finite_dom_map_of)

text \<open>\<open>m[k].push_back(e)\<close> for a map into vectors: \<open>operator[]\<close> creates an empty vector
  for a missing key.\<close>

definition um_push :: "('k \<times> 'e list) list \<Rightarrow> 'k \<Rightarrow> 'e \<Rightarrow> ('k \<times> 'e list) list" where
  "um_push m k e =
     um_assign m k ((case um_find m k of None \<Rightarrow> [] | Some h \<Rightarrow> h) @ [e])"

lemma um_find_assign [simp]: "um_find (um_assign m k v) = (um_find m)(k \<mapsto> v)"
  by (simp add: um_find_def um_assign_def update_conv' ext)

lemma um_find_erase [simp]: "um_find (um_erase m k) = (um_find m)(k := None)"
  by (simp add: um_find_def um_erase_def delete_conv' ext)

lemma um_find_Nil [simp]: "um_find [] k = None"
  by (simp add: um_find_def)

lemma um_find_Cons [simp]: "um_find ((k, v) # m) k' = (if k' = k then Some v else um_find m k')"
  by (simp add: um_find_def)

lemma um_wf_Nil [simp]: "um_wf []"
  by (simp add: um_wf_def)

lemma um_wf_Cons: "um_wf ((k, v) # m) \<longleftrightarrow> um_find m k = None \<and> um_wf m"
  by (auto simp: um_wf_def um_find_def map_of_eq_None_iff)

lemma um_find_push [simp]:
  "um_find (um_push m k e) =
     (um_find m)(k \<mapsto> (case um_find m k of None \<Rightarrow> [] | Some h \<Rightarrow> h) @ [e])"
  by (simp add: um_push_def)

lemmas um_wf_ops [simp, intro] = um.wf_assign um.wf_erase

lemma um_wf_push [simp, intro]: "um_wf m \<Longrightarrow> um_wf (um_push m k e)"
  by (simp add: um_push_def)

lemma um_find_eq_Some_iff: "um_wf m \<Longrightarrow> um_find m k = Some v \<longleftrightarrow> (k, v) \<in> set m"
  by (simp add: um_wf_def um_find_def)

lemma um_find_SomeD: "um_find m k = Some v \<Longrightarrow> (k, v) \<in> set m"
  by (simp add: um_find_def map_of_SomeD)

lemma um_find_Some_ex: "(k, v) \<in> set m \<Longrightarrow> \<exists>v'. um_find m k = Some v'"
  unfolding um_find_def by (metis weak_map_of_SomeI)

lemma um_find_permute:
  assumes "um_wf m" "um_wf m'" "set m' = set m"
  shows "um_find m' = um_find m"
proof
  fix k
  have "um_find m' k = Some v \<longleftrightarrow> um_find m k = Some v" for v
    using assms by (simp add: um_find_eq_Some_iff)
  then show "um_find m' k = um_find m k"
    by (metis option.exhaust)
qed

section \<open>std::partition_point\<close>

text \<open>
  The standard library's bisection: \<open>first\<close> and \<open>len\<close> delimit the range that still
  contains the partition point.
\<close>

function pp_loop :: "('a \<Rightarrow> bool) \<Rightarrow> 'a list \<Rightarrow> nat \<Rightarrow> nat \<Rightarrow> nat" where
  "pp_loop p xs first len =
     (if len = 0 then first
      else let half = len div 2; middle = first + half in
        if p (xs ! middle) then pp_loop p xs (middle + 1) (len - half - 1)
        else pp_loop p xs first half)"
  by pat_completeness auto
termination
  by (relation "measure (\<lambda>(p, xs, first, len). len)") auto

declare pp_loop.simps [simp del]

definition partition_point :: "('a \<Rightarrow> bool) \<Rightarrow> 'a list \<Rightarrow> nat" where
  "partition_point p xs = pp_loop p xs 0 (length xs)"

lemma pp_loop_finds:
  assumes "\<And>i. i < n \<Longrightarrow> p (xs ! i)"
    and "\<And>i. n \<le> i \<Longrightarrow> i < length xs \<Longrightarrow> \<not> p (xs ! i)"
    and "first \<le> n" "n \<le> first + len" "first + len \<le> length xs"
  shows "pp_loop p xs first len = n"
  using assms
proof (induction p xs first len rule: pp_loop.induct)
  case (1 p xs first len)
  let ?mid = "first + len div 2"
  show ?case
  proof (cases "len = 0")
    case True
    with "1.prems" show ?thesis by (simp add: pp_loop.simps)
  next
    case False
    then have mid: "?mid < length xs" "?mid < first + len"
      using "1.prems"(5) by simp_all
    have "p (xs ! ?mid) \<longleftrightarrow> ?mid < n"
      using "1.prems"(1,2) [of ?mid] mid(1) by (meson not_le)
    with "1.IH" "1.prems" False mid show ?thesis
      by (subst pp_loop.simps) (auto simp: Let_def)
  qed
qed

text \<open>On a range partitioned by \<open>p\<close> the result counts the elements that satisfy \<open>p\<close>,
  and the elements before it are exactly those.\<close>

lemma partitioned_filter:
  "sorted_wrt (\<lambda>x y. p y \<longrightarrow> p x) xs \<Longrightarrow> filter p xs = takeWhile p xs"
  by (induction xs) auto

lemma partition_point_filter:
  assumes "sorted_wrt (\<lambda>x y. p y \<longrightarrow> p x) xs"
  shows "partition_point p xs = length (filter p xs)"
proof -
  let ?n = "length (takeWhile p xs)"
  have "\<not> p (xs ! i)" if "?n \<le> i" "i < length xs" for i
  proof -
    have "\<not> p (xs ! ?n)"
      using that by (intro nth_length_takeWhile) simp
    with that assms show ?thesis
      by (metis le_neq_implies_less sorted_wrt_nth_less)
  qed
  moreover have "p (xs ! i)" if "i < ?n" for i
    using that by (metis nth_mem set_takeWhileD takeWhile_nth)
  ultimately have "partition_point p xs = ?n"
    unfolding partition_point_def
    by (intro pp_loop_finds) (auto simp: length_takeWhile_le)
  with assms show ?thesis
    by (simp add: partitioned_filter)
qed

lemma partition_point_take:
  "sorted_wrt (\<lambda>x y. p y \<longrightarrow> p x) xs \<Longrightarrow> take (partition_point p xs) xs = filter p xs"
  by (simp add: partition_point_filter partitioned_filter takeWhile_eq_take [symmetric])

section \<open>std::to_string\<close>

definition digit_char :: "nat \<Rightarrow> char" where
  "digit_char d = char_of (48 + d)"

fun to_string :: "nat \<Rightarrow> string" where
  "to_string n =
     (if n < 10 then [digit_char n] else to_string (n div 10) @ [digit_char (n mod 10)])"

declare to_string.simps [simp del]

definition parse_dec :: "string \<Rightarrow> nat" where
  "parse_dec s = foldl (\<lambda>acc c. 10 * acc + (of_char c - 48)) 0 s"

lemma of_char_digit: "d < 10 \<Longrightarrow> of_char (digit_char d) = (48 + d :: nat)"
  by (simp add: digit_char_def of_char_of)

lemma parse_dec_to_string: "parse_dec (to_string n) = n"
proof (induction n rule: to_string.induct)
  case (1 n)
  show ?case
  proof (cases "n < 10")
    case True
    then show ?thesis
      by (subst to_string.simps) (simp add: parse_dec_def of_char_digit)
  next
    case False
    with "1.IH" have "parse_dec (to_string (n div 10)) = n div 10" by simp
    with False show ?thesis
      by (subst to_string.simps) (simp add: parse_dec_def of_char_digit)
  qed
qed

lemma to_string_inject: "to_string m = to_string n \<longleftrightarrow> m = n"
  by (metis parse_dec_to_string)

end
