(* ===== verification/Mvcc_Status.thy ===== *)
theory Mvcc_Status
  imports Mvcc_Prelude
begin

text \<open>
  \<open>include/mvcc/status.h\<close>: the result type every operation returns. The constructor of
  \<open>Status\<close> is private, so the values that exist are those of the four factory functions;
  \<open>status_wf\<close> describes them.
\<close>

section \<open>Codes and statuses\<close>

datatype Code = kOk | kNotFound | kInvalidArgument | kConflict

record Status =
  st_code :: Code
  st_message :: string

definition OK :: Status where
  "OK = \<lparr>st_code = kOk, st_message = ''''\<rparr>"

definition NotFound :: "string \<Rightarrow> Status" where
  "NotFound msg = \<lparr>st_code = kNotFound, st_message = msg\<rparr>"

definition InvalidArgument :: "string \<Rightarrow> Status" where
  "InvalidArgument msg = \<lparr>st_code = kInvalidArgument, st_message = msg\<rparr>"

definition Conflict :: "string \<Rightarrow> Status" where
  "Conflict msg = \<lparr>st_code = kConflict, st_message = msg\<rparr>"

definition st_ok :: "Status \<Rightarrow> bool" where
  "st_ok s \<longleftrightarrow> st_code s = kOk"

definition is_not_found :: "Status \<Rightarrow> bool" where
  "is_not_found s \<longleftrightarrow> st_code s = kNotFound"

definition is_invalid_argument :: "Status \<Rightarrow> bool" where
  "is_invalid_argument s \<longleftrightarrow> st_code s = kInvalidArgument"

definition is_conflict :: "Status \<Rightarrow> bool" where
  "is_conflict s \<longleftrightarrow> st_code s = kConflict"

definition ToString :: "Status \<Rightarrow> string" where
  "ToString s =
     (case st_code s of
        kOk \<Rightarrow> ''OK''
      | kNotFound \<Rightarrow> ''NotFound: '' @ st_message s
      | kInvalidArgument \<Rightarrow> ''InvalidArgument: '' @ st_message s
      | kConflict \<Rightarrow> ''Conflict: '' @ st_message s)"

text \<open>The statuses the factories can build.\<close>

definition status_wf :: "Status \<Rightarrow> bool" where
  "status_wf s \<longleftrightarrow> s = OK \<or> st_code s \<noteq> kOk"

text \<open>The type of a result: a factory status with one of the given codes.\<close>

definition status_in :: "Code set \<Rightarrow> Status \<Rightarrow> bool" where
  "status_in codes s \<longleftrightarrow> status_wf s \<and> st_code s \<in> codes"

section \<open>Lemmas\<close>

lemmas status_defs =
  OK_def NotFound_def InvalidArgument_def Conflict_def st_ok_def is_not_found_def
  is_invalid_argument_def is_conflict_def

lemma st_code_simps [simp]:
  "st_code OK = kOk"
  "st_code (NotFound m) = kNotFound"
  "st_code (InvalidArgument m) = kInvalidArgument"
  "st_code (Conflict m) = kConflict"
  by (simp_all add: status_defs)

lemma st_message_simps [simp]:
  "st_message OK = ''''"
  "st_message (NotFound m) = m"
  "st_message (InvalidArgument m) = m"
  "st_message (Conflict m) = m"
  by (simp_all add: status_defs)

lemma st_ok_simps [simp]:
  "st_ok OK" "\<not> st_ok (NotFound m)" "\<not> st_ok (InvalidArgument m)" "\<not> st_ok (Conflict m)"
  by (simp_all add: status_defs)

lemma is_conflict_simps [simp]:
  "\<not> is_conflict OK" "\<not> is_conflict (NotFound m)" "\<not> is_conflict (InvalidArgument m)"
  "is_conflict (Conflict m)"
  by (simp_all add: status_defs)

lemma status_neq [simp]:
  "OK \<noteq> NotFound m" "NotFound m \<noteq> OK" "OK \<noteq> InvalidArgument m" "InvalidArgument m \<noteq> OK"
  "OK \<noteq> Conflict m" "Conflict m \<noteq> OK" "NotFound m \<noteq> InvalidArgument m'"
  "InvalidArgument m \<noteq> NotFound m'" "NotFound m \<noteq> Conflict m'" "Conflict m \<noteq> NotFound m'"
  "InvalidArgument m \<noteq> Conflict m'" "Conflict m \<noteq> InvalidArgument m'"
  by (simp_all add: status_defs)

lemma status_inject [simp]:
  "NotFound m = NotFound m' \<longleftrightarrow> m = m'" "InvalidArgument m = InvalidArgument m' \<longleftrightarrow> m = m'"
  "Conflict m = Conflict m' \<longleftrightarrow> m = m'"
  by (simp_all add: status_defs)

lemma status_wf_factories [simp]:
  "status_wf OK" "status_wf (NotFound m)" "status_wf (InvalidArgument m)" "status_wf (Conflict m)"
  by (simp_all add: status_wf_def)

lemma status_in_factories [simp]:
  "status_in codes OK \<longleftrightarrow> kOk \<in> codes" "status_in codes (NotFound m) \<longleftrightarrow> kNotFound \<in> codes"
  "status_in codes (InvalidArgument m) \<longleftrightarrow> kInvalidArgument \<in> codes"
  "status_in codes (Conflict m) \<longleftrightarrow> kConflict \<in> codes"
  by (simp_all add: status_in_def)

lemma status_in_mono: "status_in codes s \<Longrightarrow> codes \<subseteq> codes' \<Longrightarrow> status_in codes' s"
  by (auto simp: status_in_def)

lemma status_wf_cases:
  assumes "status_wf s"
  obtains "s = OK" | m where "s = NotFound m" | m where "s = InvalidArgument m"
    | m where "s = Conflict m"
  using assms by (cases s, cases "st_code s") (auto simp: status_wf_def status_defs)

lemma ToString_factories:
  "ToString OK = ''OK''"
  "ToString (NotFound m) = ''NotFound: '' @ m"
  "ToString (InvalidArgument m) = ''InvalidArgument: '' @ m"
  "ToString (Conflict m) = ''Conflict: '' @ m"
  by (simp_all add: ToString_def)

end
