(* ===== verification/Kv_Interface.thy ===== *)
theory Kv_Interface
  imports Mvcc_Status
begin

text \<open>
  The contract that \<open>KVStore\<close> and \<open>VersionStore\<close> (read at its latest version) share: a
  finite map with \<open>Put\<close>, \<open>Get\<close> and \<open>Delete\<close>, where an empty key is refused, deleting
  an absent key is \<open>NotFound\<close>, and \<open>Get\<close> leaves its out-parameter alone unless it
  succeeds. \<open>ready n s\<close> says that the store is well formed and can take \<open>n\<close> more
  writes before its 64-bit version counter wraps. The client lemma is that any sequence of
  calls answers as a plain map would; it is used for both stores.
\<close>

datatype kv_op = Op_Put key val | Op_Get key val | Op_Delete key

text \<open>The observation of one call: the code, and the final contents of the out-parameter
  of a \<open>Get\<close>.\<close>

type_synonym kv_obs = "Code \<times> val option"

fun kv_run ::
  "('s \<Rightarrow> key \<Rightarrow> val \<Rightarrow> Status \<times> 's) \<Rightarrow> ('s \<Rightarrow> key \<Rightarrow> val \<Rightarrow> Status \<times> val) \<Rightarrow>
   ('s \<Rightarrow> key \<Rightarrow> Status \<times> 's) \<Rightarrow> 's \<Rightarrow> kv_op list \<Rightarrow> kv_obs list" where
  "kv_run put get del s [] = []"
| "kv_run put get del s (Op_Put k v # ops) =
     (let (st, s') = put s k v in (st_code st, None) # kv_run put get del s' ops)"
| "kv_run put get del s (Op_Get k out # ops) =
     (let (st, out') = get s k out in (st_code st, Some out') # kv_run put get del s ops)"
| "kv_run put get del s (Op_Delete k # ops) =
     (let (st, s') = del s k in (st_code st, None) # kv_run put get del s' ops)"

fun map_run :: "(key \<rightharpoonup> val) \<Rightarrow> kv_op list \<Rightarrow> kv_obs list" where
  "map_run m [] = []"
| "map_run m (Op_Put k v # ops) =
     (if k = [] then (kInvalidArgument, None) # map_run m ops
      else (kOk, None) # map_run (m(k \<mapsto> v)) ops)"
| "map_run m (Op_Get k out # ops) =
     (if k = [] then (kInvalidArgument, Some out)
      else case m k of None \<Rightarrow> (kNotFound, Some out) | Some v \<Rightarrow> (kOk, Some v)) # map_run m ops"
| "map_run m (Op_Delete k # ops) =
     (if k = [] then (kInvalidArgument, None) # map_run m ops
      else if m k = None then (kNotFound, None) # map_run m ops
      else (kOk, None) # map_run (m(k := None)) ops)"

locale kv_api =
  fixes put :: "'s \<Rightarrow> key \<Rightarrow> val \<Rightarrow> Status \<times> 's"
    and get :: "'s \<Rightarrow> key \<Rightarrow> val \<Rightarrow> Status \<times> val"
    and del :: "'s \<Rightarrow> key \<Rightarrow> Status \<times> 's"
    and contents :: "'s \<Rightarrow> key \<rightharpoonup> val"
    and ready :: "nat \<Rightarrow> 's \<Rightarrow> bool"
  assumes ready_Suc: "ready (Suc n) s \<Longrightarrow> ready n s"
    and empty_key: "ready n s \<Longrightarrow> \<exists>m. put s [] v = (InvalidArgument m, s)"
      "ready n s \<Longrightarrow> \<exists>m. get s [] out = (InvalidArgument m, out)"
      "ready n s \<Longrightarrow> \<exists>m. del s [] = (InvalidArgument m, s)"
    and put_ok: "ready (Suc n) s \<Longrightarrow> k \<noteq> [] \<Longrightarrow>
      \<exists>s'. put s k v = (OK, s') \<and> contents s' = (contents s)(k \<mapsto> v) \<and> ready n s'"
    and get_hit: "ready n s \<Longrightarrow> k \<noteq> [] \<Longrightarrow> contents s k = Some v \<Longrightarrow> get s k out = (OK, v)"
    and get_miss: "ready n s \<Longrightarrow> k \<noteq> [] \<Longrightarrow> contents s k = None \<Longrightarrow>
      \<exists>m. get s k out = (NotFound m, out)"
    and del_hit: "ready (Suc n) s \<Longrightarrow> k \<noteq> [] \<Longrightarrow> contents s k = Some v \<Longrightarrow>
      \<exists>s'. del s k = (OK, s') \<and> contents s' = (contents s)(k := None) \<and> ready n s'"
    and del_miss: "ready n s \<Longrightarrow> k \<noteq> [] \<Longrightarrow> contents s k = None \<Longrightarrow>
      \<exists>m. del s k = (NotFound m, s)"
begin

lemma run_put:
  assumes "ready (Suc n) s"
  shows "\<exists>s' c. kv_run put get del s (Op_Put k v # ops) = (c, None) # kv_run put get del s' ops
    \<and> ready n s'
    \<and> map_run (contents s) (Op_Put k v # ops) = (c, None) # map_run (contents s') ops"
proof (cases "k = []")
  case True
  with assms show ?thesis
    using empty_key(1) [OF assms, of v] by (auto intro: ready_Suc)
next
  case False
  with assms put_ok [of n s k v] show ?thesis by auto
qed

lemma run_delete:
  assumes "ready (Suc n) s"
  shows "\<exists>s' c. kv_run put get del s (Op_Delete k # ops) = (c, None) # kv_run put get del s' ops
    \<and> ready n s'
    \<and> map_run (contents s) (Op_Delete k # ops) = (c, None) # map_run (contents s') ops"
proof (cases "k = []")
  case True
  with assms show ?thesis
    using empty_key(3) [OF assms] by (auto intro: ready_Suc)
next
  case False
  then show ?thesis
    using assms ready_Suc [OF assms] del_hit [of n s k] del_miss [of n s k]
    by (cases "contents s k") auto
qed

lemma run_get:
  assumes "ready n s"
  shows "\<exists>c out'. kv_run put get del s (Op_Get k out # ops) = (c, out') # kv_run put get del s ops
    \<and> map_run (contents s) (Op_Get k out # ops) = (c, out') # map_run (contents s) ops"
proof (cases "k = []")
  case True
  then show ?thesis using empty_key(2) [OF assms, of out] by auto
next
  case False
  with assms show ?thesis
    using get_hit [of n s k] get_miss [of n s k out]
    by (cases "contents s k") auto
qed

text \<open>Any sequence of calls is answered as the plain map answers it.\<close>

lemma run_is_map_run:
  "ready (length ops) s \<Longrightarrow> kv_run put get del s ops = map_run (contents s) ops"
proof (induction ops arbitrary: s)
  case Nil
  show ?case by simp
next
  case (Cons opn ops)
  note ready = Cons.prems [simplified]
  show ?case
  proof (cases opn)
    case (Op_Put k v)
    then show ?thesis
      using run_put [OF ready, of k v ops] Cons.IH by metis
  next
    case (Op_Get k out)
    then show ?thesis
      using run_get [OF ready_Suc [OF ready], of k out ops] Cons.IH [OF ready_Suc [OF ready]]
      by metis
  next
    case (Op_Delete k)
    then show ?thesis
      using run_delete [OF ready, of k ops] Cons.IH by metis
  qed
qed

end

end
