(* ===== verification/Snapshot_Interface.thy ===== *)
theory Snapshot_Interface
  imports Mvcc_Prelude
begin

text \<open>
  What transactions and the garbage collector rely on in a versioned store, whatever its
  representation: writes never change the view at versions that already exist, a collection
  with boundary \<open>b\<close> never changes the view (nor the conflict test) from \<open>b\<close> on. The client
  lemmas are about arbitrary interleavings of writes and collections: a snapshot is stable,
  and collections are unobservable from every version at or above their boundaries.
\<close>

datatype ('b, 'v) store_event = Write 'b | Collect 'v

fun store_run :: "('s \<Rightarrow> 'b \<Rightarrow> 's) \<Rightarrow> ('s \<Rightarrow> 'v \<Rightarrow> 's) \<Rightarrow> 's \<Rightarrow> ('b, 'v) store_event list \<Rightarrow> 's" where
  "store_run commit collect s [] = s"
| "store_run commit collect s (Write b # evs) = store_run commit collect (commit s b) evs"
| "store_run commit collect s (Collect v # evs) = store_run commit collect (collect s v) evs"

fun writes_of :: "('b, 'v) store_event list \<Rightarrow> 'b list" where
  "writes_of [] = []"
| "writes_of (Write b # evs) = b # writes_of evs"
| "writes_of (Collect v # evs) = writes_of evs"

fun boundaries_of :: "('b, 'v) store_event list \<Rightarrow> 'v list" where
  "boundaries_of [] = []"
| "boundaries_of (Write b # evs) = boundaries_of evs"
| "boundaries_of (Collect v # evs) = v # boundaries_of evs"

locale snapshot_store =
  fixes view :: "'s \<Rightarrow> 'k \<Rightarrow> 'v::linorder \<Rightarrow> 'x option"
    and changed_since :: "'s \<Rightarrow> 'v \<Rightarrow> 'k \<Rightarrow> bool"
    and current :: "'s \<Rightarrow> 'v"
    and ok :: "nat \<Rightarrow> 's \<Rightarrow> bool"
    and valid :: "'b \<Rightarrow> bool"
    and effect :: "'b \<Rightarrow> 'k \<Rightarrow> 'x option option"
    and commit :: "'s \<Rightarrow> 'b \<Rightarrow> 's"
    and collect :: "'s \<Rightarrow> 'v \<Rightarrow> 's"
  assumes ok_Suc: "ok (Suc n) s \<Longrightarrow> ok n s"
    and ok_commit: "ok (Suc n) s \<Longrightarrow> valid c \<Longrightarrow> ok n (commit s c)"
    and ok_collect: "ok n s \<Longrightarrow> ok n (collect s v)"
    and current_commit: "ok (Suc n) s \<Longrightarrow> current s < current (commit s c)"
    and current_collect: "current (collect s v) = current s"
    and view_commit_old: "ok (Suc n) s \<Longrightarrow> v \<le> current s \<Longrightarrow> view (commit s c) k v = view s k v"
    and view_commit_new: "ok (Suc n) s \<Longrightarrow> current s < v \<Longrightarrow>
      view (commit s c) k v = (case effect c k of None \<Rightarrow> view s k v | Some x \<Rightarrow> x)"
    and changed_commit: "ok (Suc n) s \<Longrightarrow> v \<le> current s \<Longrightarrow>
      changed_since (commit s c) v k \<longleftrightarrow> changed_since s v k \<or> effect c k \<noteq> None"
    and view_collect: "ok n s \<Longrightarrow> b \<le> v \<Longrightarrow> view (collect s b) k v = view s k v"
    and changed_collect: "ok n s \<Longrightarrow> b \<le> v \<Longrightarrow>
      changed_since (collect s b) v k \<longleftrightarrow> changed_since s v k"
    and unchanged_view: "ok n s \<Longrightarrow> v \<le> current s \<Longrightarrow> \<not> changed_since s v k \<Longrightarrow>
      view s k v = view s k (current s)"
begin

lemma run_ok:
  "ok (length (writes_of evs) + n) s \<Longrightarrow> list_all valid (writes_of evs) \<Longrightarrow>
   ok n (store_run commit collect s evs)"
  by (induction evs arbitrary: s rule: writes_of.induct) (auto intro: ok_commit ok_collect)

lemma ok_le: "ok n s \<Longrightarrow> m \<le> n \<Longrightarrow> ok m s"
  by (induction n) (auto simp: le_Suc_eq intro: ok_Suc)

text \<open>A snapshot at or below the current version never changes, as long as no collection
  goes past it.\<close>

lemma run_view_stable:
  assumes "ok (length (writes_of evs)) s" "list_all valid (writes_of evs)"
    and "list_all (\<lambda>b. b \<le> v) (boundaries_of evs)" "v \<le> current s"
  shows "view (store_run commit collect s evs) k v = view s k v"
  using assms
proof (induction evs arbitrary: s rule: writes_of.induct)
  case (2 b evs)
  then show ?case
    using ok_commit [of "length (writes_of evs)" s b] current_commit [of "length (writes_of evs)" s b]
    by (auto simp: view_commit_old)
next
  case (3 b evs)
  then show ?case
    by (auto simp: ok_collect current_collect view_collect)
qed simp

text \<open>A key has changed since a version exactly if it had before the run or a write of the
  run touched it.\<close>

lemma run_changed:
  assumes "ok (length (writes_of evs)) s" "list_all valid (writes_of evs)"
    and "list_all (\<lambda>b. b \<le> v) (boundaries_of evs)" "v \<le> current s"
  shows "changed_since (store_run commit collect s evs) v k \<longleftrightarrow>
    changed_since s v k \<or> list_ex (\<lambda>c. effect c k \<noteq> None) (writes_of evs)"
  using assms
proof (induction evs arbitrary: s rule: writes_of.induct)
  case (2 b evs)
  then show ?case
    using ok_commit [of "length (writes_of evs)" s b] current_commit [of "length (writes_of evs)" s b]
    by (auto simp: changed_commit)
next
  case (3 b evs)
  then show ?case
    by (auto simp: ok_collect current_collect changed_collect)
qed simp

text \<open>Two stores that agree from version \<open>v\<close> on still do after the same write.\<close>

definition agree :: "'v \<Rightarrow> 's \<Rightarrow> 's \<Rightarrow> bool" where
  "agree v s s' \<longleftrightarrow>
     current s = current s' \<and>
     (\<forall>k w. v \<le> w \<longrightarrow> view s k w = view s' k w) \<and>
     (\<forall>k w. v \<le> w \<longrightarrow> w \<le> current s \<longrightarrow> changed_since s w k = changed_since s' w k)"

lemma agree_refl [simp]: "agree v s s"
  by (simp add: agree_def)

lemma agree_mono: "agree v s s' \<Longrightarrow> v \<le> w \<Longrightarrow> agree w s s'"
  by (auto simp: agree_def)

lemma agree_view: "agree v s s' \<Longrightarrow> v \<le> w \<Longrightarrow> view s k w = view s' k w"
  by (simp add: agree_def)

lemma agree_collect: "ok n s \<Longrightarrow> b \<le> v \<Longrightarrow> agree v s s' \<Longrightarrow> agree v (collect s b) s'"
  by (auto simp: agree_def current_collect view_collect changed_collect)

end

text \<open>Collections commute with writes from the boundary on, when the counter moves
  by the same amount on both sides.\<close>

locale counting_snapshot_store = snapshot_store +
  fixes bump
  assumes current_commit_eq: "current (commit s c) = bump (current s)"
    and changed_new: "ok (Suc n) s \<Longrightarrow> current s < v \<Longrightarrow> v \<le> current (commit s c) \<Longrightarrow>
      \<not> changed_since (commit s c) v k"
begin

lemma agree_commit:
  assumes "ok (Suc n) s" "ok (Suc n) s'" "agree v s s'"
  shows "agree v (commit s b) (commit s' b)"
proof -
  have cur: "current s' = current s"
    using assms(3) by (simp add: agree_def)
  have "view (commit s b) k w = view (commit s' b) k w" if "v \<le> w" for k w
  proof (cases "w \<le> current s")
    case True
    with that show ?thesis
      using assms by (simp add: view_commit_old agree_def)
  next
    case False
    then have less: "current s < w" by simp
    show ?thesis
      using view_commit_new [OF assms(1) less, of b k] view_commit_new [OF assms(2), of w b k]
        assms(3) that less cur
      by (simp add: agree_def split: option.split)
  qed
  moreover have "changed_since (commit s b) w k = changed_since (commit s' b) w k"
    if "v \<le> w" "w \<le> current (commit s b)" for k w
  proof (cases "w \<le> current s")
    case True
    with that show ?thesis
      using assms by (simp add: changed_commit agree_def)
  next
    case False
    with that show ?thesis
      using changed_new [OF assms(1), of w b k] changed_new [OF assms(2), of w b k] cur
      by (simp add: current_commit_eq)
  qed
  ultimately show ?thesis
    using cur by (simp add: agree_def current_commit_eq)
qed

text \<open>Garbage collection is unobservable: dropping every collection from a run gives a store
  that agrees with it from the largest boundary on.\<close>

lemma run_agree:
  assumes "ok (length (writes_of evs)) s" "ok (length (writes_of evs)) s'"
    and "list_all valid (writes_of evs)" "list_all (\<lambda>b. b \<le> v) (boundaries_of evs)"
    and "agree v s s'"
  shows "agree v (store_run commit collect s evs)
           (store_run commit collect s' (map Write (writes_of evs)))"
  using assms
proof (induction evs arbitrary: s s' rule: writes_of.induct)
  case (2 b evs)
  then show ?case
    by (auto intro!: "2.IH" intro: ok_commit agree_commit)
next
  case (3 b evs)
  then show ?case
    by (auto intro!: "3.IH" intro: ok_collect agree_collect)
qed simp

end

end
