(* ===== verification/Version_Store.thy ===== *)
theory Version_Store
  imports Kv_Interface Snapshot_Interface
begin

text \<open>
  \<open>include/mvcc/version_store.h\<close> and \<open>src/version_store.cpp\<close>: the versioned table.
  Every method takes the store's \<open>shared_mutex\<close> once, shared for reads and exclusive for
  writes, for all of its access to the table and the counter, so each is one atomic function
  on the record. The section order is: data and operations as in the source; the
  invariant; the abstract view \<open>visible\<close> (what key \<open>k\<close> holds as of version \<open>v\<close>) and how
  every operation changes it.
\<close>

section \<open>Data\<close>

record VersionedValue =
  vv_version :: u64
  vv_value :: "val option"

record WriteOp =
  op_key :: key
  op_value :: "val option"

datatype GCStats = GCStats (versions_reclaimed: u64) (keys_removed: u64)

text \<open>The two counters are added field by field, modulo \<open>2 ^ 64\<close> as \<open>size_t\<close> is.\<close>

instantiation GCStats :: comm_monoid_add
begin

definition zero_GCStats :: GCStats where
  "0 = GCStats 0 0"

definition plus_GCStats :: "GCStats \<Rightarrow> GCStats \<Rightarrow> GCStats" where
  "a + b = GCStats (versions_reclaimed a + versions_reclaimed b) (keys_removed a + keys_removed b)"

instance
  by standard (auto simp: zero_GCStats_def plus_GCStats_def algebra_simps)

end

lemma GCStats_sel_simps [simp]:
  "versions_reclaimed (0 :: GCStats) = 0"
  "keys_removed (0 :: GCStats) = 0"
  "versions_reclaimed (a + b) = versions_reclaimed a + versions_reclaimed b"
  "keys_removed (a + b) = keys_removed a + keys_removed b"
  by (simp_all add: zero_GCStats_def plus_GCStats_def)

type_synonym history = "VersionedValue list"
type_synonym table = "(key \<times> history) list"

record VersionStore =
  vs_table :: table
  next_version :: u64

definition VS_init :: VersionStore where
  "VS_init = \<lparr>vs_table = [], next_version = 1\<rparr>"

section \<open>Operations\<close>

definition VS_Put :: "VersionStore \<Rightarrow> key \<Rightarrow> val \<Rightarrow> u64 option \<Rightarrow>
    Status \<times> VersionStore \<times> u64 option" where
  "VS_Put s key value out_version =
     (if key = [] then (InvalidArgument ''key must not be empty'', s, out_version)
      else let version = next_version s in
        (OK,
         s\<lparr>vs_table := um_push (vs_table s) key \<lparr>vv_version = version, vv_value = Some value\<rparr>,
           next_version := version + 1\<rparr>,
         write_out out_version version))"

definition currently_visible :: "table \<Rightarrow> key \<Rightarrow> bool" where
  "currently_visible t key \<longleftrightarrow>
     (case um_find t key of
        None \<Rightarrow> False
      | Some h \<Rightarrow> h \<noteq> [] \<and> vv_value (last h) \<noteq> None)"

definition VS_Delete :: "VersionStore \<Rightarrow> key \<Rightarrow> u64 option \<Rightarrow>
    Status \<times> VersionStore \<times> u64 option" where
  "VS_Delete s key out_version =
     (if key = [] then (InvalidArgument ''key must not be empty'', s, out_version)
      else if \<not> currently_visible (vs_table s) key
        then (NotFound (''key not present: '' @ key), s, out_version)
      else let version = next_version s in
        (OK,
         s\<lparr>vs_table := um_push (vs_table s) key \<lparr>vv_version = version, vv_value = None\<rparr>,
           next_version := version + 1\<rparr>,
         write_out out_version version))"

definition VS_Get :: "VersionStore \<Rightarrow> key \<Rightarrow> val \<Rightarrow> u64 option \<Rightarrow>
    Status \<times> val \<times> u64 option" where
  "VS_Get s key out_value out_version =
     (if key = [] then (InvalidArgument ''key must not be empty'', out_value, out_version)
      else case um_find (vs_table s) key of
        None \<Rightarrow> (NotFound (''key not present: '' @ key), out_value, out_version)
      | Some h \<Rightarrow>
          if h = [] then (NotFound (''key not present: '' @ key), out_value, out_version)
          else let latest = last h in
            (case vv_value latest of
               None \<Rightarrow> (NotFound (''key not present (deleted): '' @ key), out_value, out_version)
             | Some v \<Rightarrow> (OK, v, write_out out_version (vv_version latest))))"

definition VS_GetAsOf :: "VersionStore \<Rightarrow> key \<Rightarrow> u64 \<Rightarrow> val \<Rightarrow> Status \<times> val" where
  "VS_GetAsOf s key as_of out_value =
     (if key = [] then (InvalidArgument ''key must not be empty'', out_value)
      else case um_find (vs_table s) key of
        None \<Rightarrow> (NotFound (''key not present: '' @ key), out_value)
      | Some history \<Rightarrow>
          let boundary = partition_point (\<lambda>v. vv_version v \<le> as_of) history in
          if boundary = 0
          then (NotFound (''key did not exist as of version '' @ to_string (unat as_of)), out_value)
          else
            (case vv_value (history ! (boundary - 1)) of
               None \<Rightarrow>
                 (NotFound (''key was deleted as of version '' @ to_string (unat as_of)), out_value)
             | Some v \<Rightarrow> (OK, v)))"

definition VS_KeyCount :: "VersionStore \<Rightarrow> nat" where
  "VS_KeyCount s = um_size (vs_table s)"

definition VS_VersionCount :: "VersionStore \<Rightarrow> key \<Rightarrow> nat" where
  "VS_VersionCount s key =
     (case um_find (vs_table s) key of None \<Rightarrow> 0 | Some h \<Rightarrow> length h)"

definition VS_CurrentVersion :: "VersionStore \<Rightarrow> u64" where
  "VS_CurrentVersion s = next_version s - 1"

text \<open>The loop that appends every operation of a batch at one version.\<close>

primrec push_ops :: "u64 \<Rightarrow> WriteOp list \<Rightarrow> table \<Rightarrow> table" where
  "push_ops version [] t = t"
| "push_ops version (op # ops) t =
     push_ops version ops
       (um_push t (op_key op) \<lparr>vv_version = version, vv_value = op_value op\<rparr>)"

definition has_empty_key :: "WriteOp list \<Rightarrow> bool" where
  "has_empty_key ops \<longleftrightarrow> list_ex (\<lambda>op. op_key op = []) ops"

definition VS_ApplyBatch :: "VersionStore \<Rightarrow> WriteOp list \<Rightarrow> u64 option \<Rightarrow>
    Status \<times> VersionStore \<times> u64 option" where
  "VS_ApplyBatch s ops out_version =
     (if ops = [] then (InvalidArgument ''ops must not be empty'', s, out_version)
      else if has_empty_key ops then (InvalidArgument ''key must not be empty'', s, out_version)
      else let version = next_version s in
        (OK,
         s\<lparr>vs_table := push_ops version ops (vs_table s), next_version := version + 1\<rparr>,
         write_out out_version version))"

text \<open>One iteration of the sweep of \<open>CollectGarbage\<close>: what becomes of one key's history
  (\<open>None\<close>: the entry is erased from the table) and what it adds to the statistics.\<close>

definition gc_history :: "u64 \<Rightarrow> history \<Rightarrow> history option \<times> GCStats" where
  "gc_history safe_boundary history =
     (let boundary_it = partition_point (\<lambda>v. vv_version v \<le> safe_boundary) history in
      if boundary_it = 0 then (Some history, 0)
      else
        let keep_it = boundary_it - 1;
            num_reclaimable = keep_it;
            history' = (if num_reclaimable > 0 then drop keep_it history else history);
            stats = (if num_reclaimable > 0 then GCStats (of_nat num_reclaimable) 0 else 0)
        in if length history' = 1 \<and> vv_value (hd history') = None
           then (None, stats + GCStats 1 1)
           else (Some history', stats))"

fun gc_loop :: "u64 \<Rightarrow> table \<Rightarrow> GCStats \<Rightarrow> table \<times> GCStats" where
  "gc_loop safe_boundary [] stats = ([], stats)"
| "gc_loop safe_boundary ((k, history) # rest) stats =
     (case gc_history safe_boundary history of
        (None, d) \<Rightarrow> gc_loop safe_boundary rest (stats + d)
      | (Some history', d) \<Rightarrow>
          (let (rest', stats') = gc_loop safe_boundary rest (stats + d)
           in ((k, history') # rest', stats')))"

definition VS_CollectGarbage :: "VersionStore \<Rightarrow> u64 \<Rightarrow> GCStats \<times> VersionStore" where
  "VS_CollectGarbage s safe_boundary =
     (let (t', stats) = gc_loop safe_boundary (vs_table s) 0 in (stats, s\<lparr>vs_table := t'\<rparr>))"

text \<open>The validation pass: the keys, in batch order, whose latest version is newer than the
  snapshot.\<close>

definition newer_than :: "table \<Rightarrow> u64 \<Rightarrow> key \<Rightarrow> bool" where
  "newer_than t snapshot_version key \<longleftrightarrow>
     (case um_find t key of
        None \<Rightarrow> False
      | Some h \<Rightarrow> h \<noteq> [] \<and> snapshot_version < vv_version (last h))"

primrec find_conflicts :: "table \<Rightarrow> u64 \<Rightarrow> WriteOp list \<Rightarrow> key list" where
  "find_conflicts t snapshot_version [] = []"
| "find_conflicts t snapshot_version (op # ops) =
     (if newer_than t snapshot_version (op_key op)
      then op_key op # find_conflicts t snapshot_version ops
      else find_conflicts t snapshot_version ops)"

text \<open>
  The message of the conflict counts \<open>conflicts.size()\<close> after \<open>conflicts\<close> was moved into
  the caller's vector, if there is one; a moved-from \<open>std::vector\<close> with the default
  allocator is empty.
\<close>

definition VS_ApplyBatchIfNoConflict ::
  "VersionStore \<Rightarrow> WriteOp list \<Rightarrow> u64 \<Rightarrow> u64 option \<Rightarrow> key list option \<Rightarrow>
   Status \<times> VersionStore \<times> u64 option \<times> key list option" where
  "VS_ApplyBatchIfNoConflict s ops snapshot_version out_version out_conflicting_keys =
     (if ops = []
      then (InvalidArgument ''ops must not be empty'', s, out_version, out_conflicting_keys)
      else if has_empty_key ops
      then (InvalidArgument ''key must not be empty'', s, out_version, out_conflicting_keys)
      else
        let conflicts = find_conflicts (vs_table s) snapshot_version ops in
        if conflicts \<noteq> [] then
          let remaining = (if out_conflicting_keys \<noteq> None then [] else conflicts) in
          (Conflict (''write-write conflict on '' @ to_string (length remaining) @ '' key(s)''),
           s, out_version, write_out out_conflicting_keys conflicts)
        else
          let version = next_version s in
          (OK,
           s\<lparr>vs_table := push_ops version ops (vs_table s), next_version := version + 1\<rparr>,
           write_out out_version version, out_conflicting_keys))"

lemmas vs_op_defs [mvcc_defs] =
  VS_Put_def VS_Delete_def VS_Get_def VS_ApplyBatch_def VS_ApplyBatchIfNoConflict_def

section \<open>The view of a history\<close>

text \<open>\<open>latest_at h v\<close>: the newest entry of the history with a version at most \<open>v\<close>;
  \<open>hist_view h v\<close>: its value, where neither absence nor a tombstone is a value.\<close>

definition latest_at :: "history \<Rightarrow> u64 \<Rightarrow> VersionedValue option" where
  "latest_at h v =
     (let xs = filter (\<lambda>e. vv_version e \<le> v) h in if xs = [] then None else Some (last xs))"

definition hist_view :: "history \<Rightarrow> u64 \<Rightarrow> val option" where
  "hist_view h v = (case latest_at h v of None \<Rightarrow> None | Some e \<Rightarrow> vv_value e)"

definition hist_of :: "table \<Rightarrow> key \<Rightarrow> history" where
  "hist_of t k = (case um_find t k of None \<Rightarrow> [] | Some h \<Rightarrow> h)"

text \<open>The abstract state of the store: key \<open>k\<close> as of version \<open>v\<close>.\<close>

definition visible :: "VersionStore \<Rightarrow> key \<Rightarrow> u64 \<Rightarrow> val option" where
  "visible s k v = hist_view (hist_of (vs_table s) k) v"

lemma latest_at_Nil [simp]: "latest_at [] v = None"
  by (simp add: latest_at_def)

lemma hist_view_Nil [simp]: "hist_view [] v = None"
  by (simp add: hist_view_def)

lemma hist_view_append_old:
  "(\<And>e. e \<in> set h' \<Longrightarrow> v < vv_version e) \<Longrightarrow> hist_view (h @ h') v = hist_view h v"
  by (auto simp: hist_view_def latest_at_def filter_empty_conv not_le)

lemma hist_view_append_new:
  "h' \<noteq> [] \<Longrightarrow> (\<And>e. e \<in> set h' \<Longrightarrow> vv_version e \<le> v) \<Longrightarrow>
   hist_view (h @ h') v = vv_value (last h')"
  by (simp add: hist_view_def latest_at_def)

lemma hist_view_snoc:
  "hist_view (h @ [e]) v = (if vv_version e \<le> v then vv_value e else hist_view h v)"
  by (simp add: hist_view_def latest_at_def)

text \<open>Two views agree when the newest entry up to \<open>v\<close> is the same.\<close>

lemma hist_view_drop:
  assumes "Suc n \<le> length (filter (\<lambda>e. vv_version e \<le> v) h)"
    and "take (Suc n) h = take (Suc n) (filter (\<lambda>e. vv_version e \<le> v) h)"
  shows "hist_view (drop n h) v = hist_view h v"
proof -
  let ?p = "\<lambda>e. vv_version e \<le> v"
  have "Suc n \<le> length h"
    using assms(1) length_filter_le le_trans by blast
  then have h: "h = take n h @ h ! n # drop (Suc n) h" and d: "drop n h = h ! n # drop (Suc n) h"
    by (simp_all add: id_take_nth_drop Cons_nth_drop_Suc)
  have "h ! n \<in> set (take (Suc n) h)"
    using \<open>Suc n \<le> length h\<close> by (simp add: take_Suc_conv_app_nth)
  then have "?p (h ! n)"
    using assms(2) in_set_takeD by fastforce
  then have "last (filter ?p h) = last (filter ?p (drop n h))" "filter ?p (drop n h) \<noteq> []"
    by (subst h, simp_all add: d)
  moreover have "filter ?p h \<noteq> []"
    using assms(1) by auto
  ultimately show ?thesis
    by (simp add: hist_view_def latest_at_def)
qed

section \<open>Well-formed stores\<close>

definition hist_inv :: "u64 \<Rightarrow> history \<Rightarrow> bool" where
  "hist_inv n h \<longleftrightarrow>
     h \<noteq> [] \<and> sorted (map vv_version h) \<and> list_all (\<lambda>e. 0 < vv_version e \<and> vv_version e < n) h"

definition vs_inv :: "VersionStore \<Rightarrow> bool" where
  "vs_inv s \<longleftrightarrow>
     um_wf (vs_table s) \<and> 0 < next_version s \<and>
     list_all (\<lambda>(k, h). k \<noteq> [] \<and> hist_inv (next_version s) h) (vs_table s)"

text \<open>At least \<open>n\<close> more versions can be assigned before the counter wraps.\<close>

definition vs_room :: "nat \<Rightarrow> VersionStore \<Rightarrow> bool" where
  "vs_room n s \<longleftrightarrow> unat (next_version s) + n < 2 ^ 64"

lemma list_all_um_find:
  "um_wf t \<Longrightarrow> list_all (\<lambda>(k, h). P k h) t \<longleftrightarrow> (\<forall>k h. um_find t k = Some h \<longrightarrow> P k h)"
  by (auto simp: list_all_iff um_find_eq_Some_iff)

lemma vs_inv_iff:
  "vs_inv s \<longleftrightarrow>
     um_wf (vs_table s) \<and> 0 < next_version s \<and>
     (\<forall>k h. um_find (vs_table s) k = Some h \<longrightarrow> k \<noteq> [] \<and> hist_inv (next_version s) h)"
  by (simp add: vs_inv_def list_all_um_find cong: conj_cong)

lemma vs_inv_init [simp]: "vs_inv VS_init"
  by (simp add: vs_inv_def VS_init_def)

lemma vs_inv_find:
  "vs_inv s \<Longrightarrow> um_find (vs_table s) k = Some h \<Longrightarrow> k \<noteq> [] \<and> hist_inv (next_version s) h"
  by (simp add: vs_inv_iff)

lemma vs_inv_wf [simp]: "vs_inv s \<Longrightarrow> um_wf (vs_table s)"
  by (simp add: vs_inv_def)

lemma vs_inv_next_pos: "vs_inv s \<Longrightarrow> next_version s \<noteq> 0"
  by (auto simp: vs_inv_def)

lemma vs_inv_empty_key: "vs_inv s \<Longrightarrow> um_find (vs_table s) [] = None"
  by (metis not_None_eq vs_inv_find)

lemma hist_inv_partitioned:
  "hist_inv n h \<Longrightarrow> sorted_wrt (\<lambda>x y. vv_version y \<le> v \<longrightarrow> vv_version x \<le> v) h"
  by (auto simp: hist_inv_def sorted_map elim!: sorted_wrt_mono_rel [rotated])

lemma hist_inv_snoc:
  "(h = [] \<or> hist_inv n h) \<Longrightarrow> 0 < n \<Longrightarrow> n + 1 \<noteq> 0 \<Longrightarrow> vv_version e = n \<Longrightarrow>
   hist_inv (n + 1) (h @ [e])"
  by (fastforce simp: hist_inv_def sorted_append list_all_iff u64_less_succ_iff intro: less_imp_le)

text \<open>Versions in the table never exceed the current version.\<close>

lemma CurrentVersion_le_iff:
  "vs_inv s \<Longrightarrow> v \<le> VS_CurrentVersion s \<longleftrightarrow> v < next_version s"
  by (simp add: VS_CurrentVersion_def u64_le_pred_iff vs_inv_next_pos)

lemma hist_of_version_bounds:
  "vs_inv s \<Longrightarrow> e \<in> set (hist_of (vs_table s) k) \<Longrightarrow>
   0 < vv_version e \<and> vv_version e < next_version s"
  using vs_inv_find [of s k]
  by (cases "um_find (vs_table s) k") (auto simp: hist_of_def hist_inv_def list_all_iff)

lemma hist_of_sorted: "vs_inv s \<Longrightarrow> sorted (map vv_version (hist_of (vs_table s) k))"
  using vs_inv_find [of s k]
  by (cases "um_find (vs_table s) k") (auto simp: hist_of_def hist_inv_def)

lemma hist_of_partitioned:
  "vs_inv s \<Longrightarrow>
   sorted_wrt (\<lambda>x y. vv_version y \<le> v \<longrightarrow> vv_version x \<le> v) (hist_of (vs_table s) k)"
  using vs_inv_find [of s k]
  by (cases "um_find (vs_table s) k") (auto simp: hist_of_def intro: hist_inv_partitioned)

lemma visible_at_or_after_current:
  assumes "vs_inv s" "VS_CurrentVersion s \<le> v"
  shows "visible s k v =
    (let h = hist_of (vs_table s) k in if h = [] then None else vv_value (last h))"
proof -
  have "vv_version e \<le> v" if "e \<in> set (hist_of (vs_table s) k)" for e
    using hist_of_version_bounds [OF assms(1) that] assms
    by (meson CurrentVersion_le_iff order_trans)
  then have "filter (\<lambda>e. vv_version e \<le> v) (hist_of (vs_table s) k) = hist_of (vs_table s) k"
    by simp
  then show ?thesis
    by (simp add: visible_def hist_view_def latest_at_def Let_def)
qed

lemma visible_at_0: "vs_inv s \<Longrightarrow> visible s k 0 = None"
  using hist_of_version_bounds [of s _ k]
  by (fastforce simp: visible_def hist_view_def latest_at_def filter_empty_conv)

section \<open>Appending a batch\<close>

text \<open>The state after the exclusive section of a write: \<open>ops\<close> at one new version.\<close>

definition vs_commit :: "VersionStore \<Rightarrow> WriteOp list \<Rightarrow> VersionStore" where
  "vs_commit s ops =
     s\<lparr>vs_table := push_ops (next_version s) ops (vs_table s), next_version := next_version s + 1\<rparr>"

text \<open>What a batch leaves for a key: nothing, or the value (or tombstone) of its last
  operation on the key.\<close>

definition batch_value :: "WriteOp list \<Rightarrow> key \<Rightarrow> val option option" where
  "batch_value ops k =
     (let xs = filter (\<lambda>op. op_key op = k) ops in
      if xs = [] then None else Some (op_value (last xs)))"

lemma batch_value_eq_None_iff: "batch_value ops k = None \<longleftrightarrow> k \<notin> op_key ` set ops"
  by (auto simp: batch_value_def filter_empty_conv Let_def)

lemma batch_value_single [simp]:
  "batch_value [op] k = (if op_key op = k then Some (op_value op) else None)"
  by (simp add: batch_value_def)

lemma hist_of_push:
  "hist_of (um_push t k e) k' = (if k' = k then hist_of t k @ [e] else hist_of t k')"
  by (simp add: hist_of_def)

lemma hist_of_push_ops:
  "hist_of (push_ops w ops t) k =
     hist_of t k @ map (\<lambda>op. \<lparr>vv_version = w, vv_value = op_value op\<rparr>)
       (filter (\<lambda>op. op_key op = k) ops)"
  by (induction ops arbitrary: t) (auto simp: hist_of_push)

lemma um_wf_push_ops [simp]: "um_wf t \<Longrightarrow> um_wf (push_ops w ops t)"
  by (induction ops arbitrary: t) auto

lemma filter_key_Nil: "k \<notin> op_key ` set ops \<Longrightarrow> filter (\<lambda>op. op_key op = k) ops = []"
  by (auto simp: filter_empty_conv)

lemma um_find_push_ops:
  "um_find (push_ops w ops t) k =
     (if k \<in> op_key ` set ops then Some (hist_of (push_ops w ops t) k) else um_find t k)"
proof (induction ops arbitrary: t)
  case (Cons op ops)
  then show ?case
    by (auto simp: hist_of_push_ops hist_of_push filter_key_Nil) (simp add: hist_of_def)
qed simp

text \<open>Appending at the next version keeps a history well formed.\<close>

lemma hist_inv_append_const:
  assumes "h = [] \<or> hist_inv n h" "h @ h' \<noteq> []" "\<And>e. e \<in> set h' \<Longrightarrow> vv_version e = n"
    and "0 < n" "n + 1 \<noteq> 0"
  shows "hist_inv (n + 1) (h @ h')"
proof -
  have h: "sorted (map vv_version h)" "\<And>e. e \<in> set h \<Longrightarrow> 0 < vv_version e \<and> vv_version e < n"
    using assms(1) by (auto simp: hist_inv_def list_all_iff)
  have "map vv_version h' = replicate (length h') n"
    using assms(3) by (simp add: map_replicate_const [symmetric])
  then have "sorted (map vv_version h')" by simp
  with h assms(2-5) show ?thesis
    by (auto simp: hist_inv_def list_all_iff sorted_append u64_less_succ_iff intro: less_imp_le)
qed

lemma hist_inv_mono: "hist_inv n h \<Longrightarrow> n \<le> m \<Longrightarrow> hist_inv m h"
  by (auto simp: hist_inv_def list_all_iff)

lemma vs_room_succ: "vs_room (Suc n) s \<Longrightarrow> next_version s + 1 \<noteq> 0"
  by (rule u64_succ_neq_0) (simp add: vs_room_def)

lemma vs_inv_hist_of:
  "vs_inv s \<Longrightarrow> hist_of (vs_table s) k = [] \<or> hist_inv (next_version s) (hist_of (vs_table s) k)"
  using vs_inv_find [of s k] by (cases "um_find (vs_table s) k") (auto simp: hist_of_def)

lemma vs_inv_commit [mvcc_inv]:
  assumes "vs_inv s" "next_version s + 1 \<noteq> 0" "\<not> has_empty_key ops"
  shows "vs_inv (vs_commit s ops)"
proof -
  have inv: "hist_inv (next_version s + 1) (hist_of (push_ops (next_version s) ops (vs_table s)) k)"
    if "k \<in> op_key ` set ops" for k
    unfolding hist_of_push_ops
    using assms that vs_inv_hist_of [OF assms(1), of k]
    by (intro hist_inv_append_const) (auto simp: vs_inv_def filter_empty_conv)
  have old: "k \<noteq> [] \<and> hist_inv (next_version s + 1) h" if "um_find (vs_table s) k = Some h" for k h
    using vs_inv_find [OF assms(1) that] u64_less_succ [OF assms(2)]
    by (auto intro: hist_inv_mono less_imp_le)
  have "op_key op \<noteq> []" if "op \<in> set ops" for op
    using assms(3) that by (auto simp: has_empty_key_def list_ex_iff)
  with inv old assms show ?thesis
    by (auto simp: vs_inv_iff vs_commit_def u64_succ_pos um_find_push_ops split: if_splits)
qed

lemma vs_commit_room: "vs_room (Suc n) s \<Longrightarrow> vs_room n (vs_commit s ops)"
  using unat_succ [OF vs_room_succ] by (simp add: vs_room_def vs_commit_def)

lemma vs_commit_next [simp]: "next_version (vs_commit s ops) = next_version s + 1"
  by (simp add: vs_commit_def)

lemma vs_commit_current [simp]:
  "VS_CurrentVersion (vs_commit s ops) = VS_CurrentVersion s + 1"
  by (simp add: VS_CurrentVersion_def)

text \<open>The effect of a batch on the view: below its version nothing changes, from its version
  on every key of the batch shows its last operation.\<close>

lemma visible_commit_old [mvcc_view]:
  "v < next_version s \<Longrightarrow> visible (vs_commit s ops) k v = visible s k v"
  by (simp add: visible_def vs_commit_def hist_of_push_ops)
    (rule hist_view_append_old, auto)

lemma visible_commit_new [mvcc_view]:
  assumes "next_version s \<le> v"
  shows "visible (vs_commit s ops) k v =
    (case batch_value ops k of None \<Rightarrow> visible s k v | Some x \<Rightarrow> x)"
proof (cases "filter (\<lambda>op. op_key op = k) ops = []")
  case True
  then show ?thesis
    by (simp add: visible_def vs_commit_def hist_of_push_ops batch_value_def)
next
  case False
  then show ?thesis
    using assms
    by (simp add: visible_def vs_commit_def hist_of_push_ops batch_value_def)
      (subst hist_view_append_new, auto simp: last_map)
qed

text \<open>The writing operations are batches.\<close>

lemma VS_Put_commit:
  "k \<noteq> [] \<Longrightarrow> VS_Put s k x out =
     (OK, vs_commit s [\<lparr>op_key = k, op_value = Some x\<rparr>], write_out out (next_version s))"
  by (simp add: VS_Put_def vs_commit_def Let_def)

lemma VS_Delete_commit:
  "k \<noteq> [] \<Longrightarrow> currently_visible (vs_table s) k \<Longrightarrow> VS_Delete s k out =
     (OK, vs_commit s [\<lparr>op_key = k, op_value = None\<rparr>], write_out out (next_version s))"
  by (simp add: VS_Delete_def vs_commit_def Let_def)

lemma VS_ApplyBatch_commit:
  "ops \<noteq> [] \<Longrightarrow> \<not> has_empty_key ops \<Longrightarrow>
   VS_ApplyBatch s ops out = (OK, vs_commit s ops, write_out out (next_version s))"
  by (simp add: VS_ApplyBatch_def vs_commit_def Let_def)

lemma find_conflicts_filter:
  "find_conflicts t v ops = filter (newer_than t v) (map op_key ops)"
  by (induction ops) auto

lemma VS_ABINC_commit:
  "ops \<noteq> [] \<Longrightarrow> \<not> has_empty_key ops \<Longrightarrow> find_conflicts (vs_table s) snap ops = [] \<Longrightarrow>
   VS_ApplyBatchIfNoConflict s ops snap out outk =
     (OK, vs_commit s ops, write_out out (next_version s), outk)"
  by (simp add: VS_ApplyBatchIfNoConflict_def vs_commit_def Let_def)

lemma VS_ABINC_conflict:
  "ops \<noteq> [] \<Longrightarrow> \<not> has_empty_key ops \<Longrightarrow> find_conflicts (vs_table s) snap ops \<noteq> [] \<Longrightarrow>
   \<exists>m. VS_ApplyBatchIfNoConflict s ops snap out outk =
     (Conflict m, s, out, write_out outk (find_conflicts (vs_table s) snap ops))"
  by (simp add: VS_ApplyBatchIfNoConflict_def Let_def)

lemma has_empty_key_simps [simp]:
  "\<not> has_empty_key []" "has_empty_key (op # ops) \<longleftrightarrow> op_key op = [] \<or> has_empty_key ops"
  by (simp_all add: has_empty_key_def)

section \<open>Reads\<close>

lemma partition_point_nth:
  assumes "sorted_wrt (\<lambda>x y. vv_version y \<le> v \<longrightarrow> vv_version x \<le> v) h"
    and "partition_point (\<lambda>e. vv_version e \<le> v) h = Suc n"
  shows "latest_at h v = Some (h ! n)"
proof -
  let ?f = "filter (\<lambda>e. vv_version e \<le> v) h"
  have len: "length ?f = Suc n"
    using assms by (simp add: partition_point_filter)
  then have "?f = take (Suc n) h"
    using assms partition_point_take [OF assms(1)] by simp
  moreover have "n < length h"
    using len length_filter_le [of _ h] by (metis Suc_le_lessD)
  ultimately have "last ?f = h ! n"
    by (simp add: take_Suc_conv_app_nth)
  with len show ?thesis
    by (auto simp: latest_at_def Let_def)
qed

text \<open>The bisection of \<open>GetAsOf\<close> answers what the view says.\<close>

lemma VS_GetAsOf_visible:
  assumes "vs_inv s" "k \<noteq> []"
  shows "\<exists>m. VS_GetAsOf s k v out =
    (case visible s k v of None \<Rightarrow> (NotFound m, out) | Some x \<Rightarrow> (OK, x))"
proof (cases "um_find (vs_table s) k")
  case None
  with assms(2) show ?thesis
    by (simp add: VS_GetAsOf_def visible_def hist_of_def)
next
  case (Some h)
  have h: "hist_of (vs_table s) k = h"
    by (simp add: Some hist_of_def)
  have part: "sorted_wrt (\<lambda>x y. vv_version y \<le> v \<longrightarrow> vv_version x \<le> v) h"
    using hist_of_partitioned [OF assms(1), of v k] by (simp add: h)
  show ?thesis
  proof (cases "partition_point (\<lambda>e. vv_version e \<le> v) h")
    case 0
    then have "filter (\<lambda>e. vv_version e \<le> v) h = []"
      using partition_point_filter [OF part] by simp
    with 0 Some assms(2) show ?thesis
      by (simp add: VS_GetAsOf_def visible_def h hist_view_def latest_at_def)
  next
    case (Suc n)
    with Some assms(2) partition_point_nth [OF part Suc] show ?thesis
      by (auto simp: VS_GetAsOf_def visible_def h hist_view_def split: option.splits)
  qed
qed

lemma VS_GetAsOf_empty_key [simp]:
  "VS_GetAsOf s [] v out = (InvalidArgument ''key must not be empty'', out)"
  by (simp add: VS_GetAsOf_def)

lemma VS_GetAsOf_fst: "vs_inv s \<Longrightarrow> k \<noteq> [] \<Longrightarrow>
   st_ok (fst (VS_GetAsOf s k v out)) \<longleftrightarrow> visible s k v \<noteq> None"
  using VS_GetAsOf_visible [of s k v out] by (auto split: option.splits)

text \<open>\<open>Get\<close> reads the view at the current version.\<close>

lemma VS_Get_visible:
  assumes "vs_inv s" "k \<noteq> []"
  shows "\<exists>m p. VS_Get s k out outv =
    (case visible s k (VS_CurrentVersion s) of
       None \<Rightarrow> (NotFound m, out, outv) | Some x \<Rightarrow> (OK, x, p))"
  using assms(2)
  by (auto simp: VS_Get_def Let_def visible_at_or_after_current [OF assms(1) order_refl]
      hist_of_def split: option.splits)

lemma currently_visible_iff:
  "vs_inv s \<Longrightarrow>
   currently_visible (vs_table s) k \<longleftrightarrow> visible s k (VS_CurrentVersion s) \<noteq> None"
  by (auto simp: currently_visible_def visible_at_or_after_current hist_of_def Let_def
      split: option.splits)

text \<open>A successful \<open>Get\<close> also reports the version of the entry it read.\<close>

lemma VS_Get_version:
  "VS_Get s k out (Some p) = (OK, x, outv) \<Longrightarrow>
   \<exists>h. um_find (vs_table s) k = Some h \<and> h \<noteq> [] \<and> outv = Some (vv_version (last h))"
  by (auto simp: VS_Get_def Let_def split: if_splits option.splits)

section \<open>Garbage collection\<close>

text \<open>What one sweep does to a single well-formed history.\<close>

lemma gc_history_cases:
  assumes "sorted_wrt (\<lambda>x y. vv_version y \<le> b \<longrightarrow> vv_version x \<le> b) h"
  obtains (untouched) "filter (\<lambda>e. vv_version e \<le> b) h = []" "gc_history b h = (Some h, 0)"
  | (trimmed) n where "length (filter (\<lambda>e. vv_version e \<le> b) h) = Suc n"
      "\<not> (length h = Suc n \<and> vv_value (last h) = None)"
      "gc_history b h = (Some (drop n h), GCStats (of_nat n) 0)"
  | (erased) n where "length (filter (\<lambda>e. vv_version e \<le> b) h) = Suc n" "length h = Suc n"
      "vv_value (last h) = None" "gc_history b h = (None, GCStats (of_nat (Suc n)) 1)"
proof (cases "length (filter (\<lambda>e. vv_version e \<le> b) h)")
  case 0
  then show ?thesis
    using untouched partition_point_filter [OF assms] by (simp add: gc_history_def)
next
  case (Suc n)
  have len: "Suc n \<le> length h"
    using Suc length_filter_le by metis
  have d: "(if 0 < n then drop n h else h) = drop n h"
    by simp
  have st: "(if 0 < n then GCStats (of_nat n) 0 else 0) = GCStats (of_nat n) 0"
    by (simp add: zero_GCStats_def)
  have hd: "length h = Suc n \<Longrightarrow> hd (drop n h) = last h"
    using len by (simp add: hd_drop_conv_nth last_conv_nth flip: length_0_conv)
  have "length (drop n h) = 1 \<longleftrightarrow> length h = Suc n"
    using len by auto
  then have "gc_history b h =
      (if length h = Suc n \<and> vv_value (last h) = None
       then (None, GCStats (of_nat n) 0 + GCStats 1 1) else (Some (drop n h), GCStats (of_nat n) 0))"
    using partition_point_filter [OF assms] Suc hd
    by (auto simp: gc_history_def Let_def d st)
  then show ?thesis
    using trimmed [OF Suc] erased [OF Suc]
    by (auto simp: plus_GCStats_def split: if_splits)
qed

text \<open>The view from the boundary on is kept.\<close>

lemma filter_le_prefix:
  assumes "sorted_wrt (\<lambda>x y. vv_version y \<le> b \<longrightarrow> vv_version x \<le> b) h"
    and "sorted_wrt (\<lambda>x y. vv_version y \<le> v \<longrightarrow> vv_version x \<le> v) h"
    and "b \<le> v" "n \<le> length (filter (\<lambda>e. vv_version e \<le> b) h)"
  shows "n \<le> length (filter (\<lambda>e. vv_version e \<le> v) h)"
    "take n h = take n (filter (\<lambda>e. vv_version e \<le> v) h)"
proof -
  let ?fb = "filter (\<lambda>e. vv_version e \<le> b) h" and ?fv = "filter (\<lambda>e. vv_version e \<le> v) h"
  have "?fb = filter (\<lambda>e. vv_version e \<le> b) ?fv"
    using assms(3) by (auto intro: filter_cong)
  then have "length ?fb \<le> length ?fv"
    by (metis length_filter_le)
  with assms(4) show n: "n \<le> length ?fv" by simp
  have "?fv = take (length ?fv) h"
    using partition_point_take [OF assms(2)] partition_point_filter [OF assms(2)] by simp
  then show "take n h = take n ?fv"
    using n by (metis min.absorb1 take_take)
qed

lemma gc_history_view:
  assumes "hist_inv m h" "b \<le> v"
  shows "hist_view (case fst (gc_history b h) of None \<Rightarrow> [] | Some h' \<Rightarrow> h') v = hist_view h v"
proof -
  note part = hist_inv_partitioned [OF assms(1)]
  from part [of b] show ?thesis
  proof (cases rule: gc_history_cases)
    case untouched
    then show ?thesis by simp
  next
    case (trimmed n)
    then show ?thesis
      using filter_le_prefix [OF part part assms(2), of "Suc n"] by (simp add: hist_view_drop)
  next
    case (erased n)
    then have "filter (\<lambda>e. vv_version e \<le> b) h = h"
      by (metis filter_True length_filter_less less_irrefl)
    then have "\<forall>e\<in>set h. vv_version e \<le> v"
      using assms(2) by (metis filter_id_conv order_trans)
    then have "filter (\<lambda>e. vv_version e \<le> v) h = h" by simp
    with erased show ?thesis by (auto simp: hist_view_def latest_at_def Let_def)
  qed
qed

lemma gc_history_inv: "hist_inv m h \<Longrightarrow> fst (gc_history b h) = Some h' \<Longrightarrow> hist_inv m h'"
proof (rule gc_history_cases [OF hist_inv_partitioned])
  fix n
  assume inv: "hist_inv m h" and h': "fst (gc_history b h) = Some h'"
    and n: "length (filter (\<lambda>e. vv_version e \<le> b) h) = Suc n"
    and gc: "gc_history b h = (Some (drop n h), GCStats (of_nat n) 0)"
  have "n < length h"
    using n length_filter_le by (metis Suc_le_lessD)
  with inv h' gc show "hist_inv m h'"
    by (auto simp: hist_inv_def list_all_iff drop_map [symmetric] dest: in_set_dropD)
qed auto

text \<open>The sweep applies this to every entry.\<close>

lemma gc_loop_Cons:
  "gc_loop b ((k, h) # rest) st =
     (let (rest', st') = gc_loop b rest (st + snd (gc_history b h)) in
      case fst (gc_history b h) of None \<Rightarrow> (rest', st') | Some h' \<Rightarrow> ((k, h') # rest', st'))"
  by (cases "gc_history b h") (simp add: case_prod_beta split: option.split)

declare gc_loop.simps(2) [simp del]

lemma um_find_gc_loop:
  "um_wf t \<Longrightarrow>
   um_find (fst (gc_loop b t st)) k =
     (case um_find t k of None \<Rightarrow> None | Some h \<Rightarrow> fst (gc_history b h))"
proof (induction t arbitrary: st)
  case (Cons kh t)
  obtain k' h where kh: "kh = (k', h)" by fastforce
  with Cons.prems have "um_find t k' = None" "um_wf t"
    by (simp_all add: um_wf_Cons)
  with Cons.IH show ?case
    by (auto simp: kh gc_loop_Cons case_prod_beta split: option.splits)
qed simp

lemma gc_loop_keys: "set (map fst (fst (gc_loop b t st))) \<subseteq> set (map fst t)"
proof (induction t arbitrary: st)
  case (Cons kh t)
  obtain k h where kh: "kh = (k, h)" by fastforce
  show ?case
    using Cons.IH [of "st + snd (gc_history b h)"]
    by (cases "fst (gc_history b h)") (auto simp: kh gc_loop_Cons case_prod_beta)
qed simp

lemma um_wf_gc_loop: "um_wf t \<Longrightarrow> um_wf (fst (gc_loop b t st))"
proof (induction t arbitrary: st)
  case (Cons kh t)
  obtain k h where kh: "kh = (k, h)" by fastforce
  with Cons.prems have "um_find t k = None" "um_wf t"
    by (simp_all add: um_wf_Cons)
  then show ?case
    using Cons.IH
    by (cases "fst (gc_history b h)")
      (auto simp: kh gc_loop_Cons case_prod_beta um_wf_Cons um_find_gc_loop)
qed simp

lemma snd_VS_CollectGarbage:
  "snd (VS_CollectGarbage s b) = s\<lparr>vs_table := fst (gc_loop b (vs_table s) 0)\<rparr>"
  by (simp add: VS_CollectGarbage_def case_prod_beta)

lemma hist_of_collect:
  "vs_inv s \<Longrightarrow> hist_of (vs_table (snd (VS_CollectGarbage s b))) k =
     (case um_find (vs_table s) k of
        None \<Rightarrow> []
      | Some h \<Rightarrow> (case fst (gc_history b h) of None \<Rightarrow> [] | Some h' \<Rightarrow> h'))"
  by (simp add: snd_VS_CollectGarbage hist_of_def um_find_gc_loop split: option.split)

lemma next_version_collect [simp]:
  "next_version (snd (VS_CollectGarbage s b)) = next_version s"
  by (simp add: snd_VS_CollectGarbage)

lemma CurrentVersion_collect [simp]:
  "VS_CurrentVersion (snd (VS_CollectGarbage s b)) = VS_CurrentVersion s"
  by (simp add: VS_CurrentVersion_def)

lemma vs_inv_collect [mvcc_inv]: "vs_inv s \<Longrightarrow> vs_inv (snd (VS_CollectGarbage s b))"
  unfolding vs_inv_iff snd_VS_CollectGarbage
  by (auto simp: um_wf_gc_loop um_find_gc_loop intro: gc_history_inv split: option.splits)

lemma visible_collect [mvcc_view]:
  assumes "vs_inv s" "b \<le> v"
  shows "visible (snd (VS_CollectGarbage s b)) k v = visible s k v"
proof (cases "um_find (vs_table s) k")
  case None
  with assms show ?thesis
    by (simp add: visible_def hist_of_collect) (simp add: hist_of_def)
next
  case (Some h)
  with assms vs_inv_find [OF assms(1) Some] show ?thesis
    by (simp add: visible_def hist_of_collect gc_history_view [of "next_version s"])
      (simp add: hist_of_def)
qed

text \<open>The conflict test against a snapshot at or above the boundary is not affected.\<close>

definition last_newer :: "history \<Rightarrow> u64 \<Rightarrow> bool" where
  "last_newer h v \<longleftrightarrow> h \<noteq> [] \<and> v < vv_version (last h)"

lemma newer_than_hist_of: "newer_than t v k \<longleftrightarrow> last_newer (hist_of t k) v"
  by (simp add: newer_than_def last_newer_def hist_of_def split: option.split)

lemma gc_history_newer:
  assumes "hist_inv m h" "b \<le> v"
  shows "last_newer (case fst (gc_history b h) of None \<Rightarrow> [] | Some h' \<Rightarrow> h') v \<longleftrightarrow> last_newer h v"
  using hist_inv_partitioned [OF assms(1), of b]
proof (cases rule: gc_history_cases)
  case untouched
  then show ?thesis by simp
next
  case (trimmed n)
  have "n < length h"
    using trimmed(1) length_filter_le by (metis Suc_le_lessD)
  with trimmed show ?thesis by (auto simp: last_newer_def)
next
  case (erased n)
  then have "filter (\<lambda>e. vv_version e \<le> b) h = h"
    by (metis filter_True length_filter_less less_irrefl)
  then have "h \<noteq> [] \<Longrightarrow> vv_version (last h) \<le> b"
    by (metis filter_id_conv last_in_set)
  with erased assms(2) show ?thesis by (auto simp: last_newer_def)
qed

lemma newer_than_collect [mvcc_view]:
  assumes "vs_inv s" "b \<le> v"
  shows "newer_than (vs_table (snd (VS_CollectGarbage s b))) v k \<longleftrightarrow> newer_than (vs_table s) v k"
proof (cases "um_find (vs_table s) k")
  case None
  with assms show ?thesis
    by (simp add: newer_than_hist_of hist_of_collect) (simp add: hist_of_def)
next
  case (Some h)
  with assms vs_inv_find [OF assms(1) Some] show ?thesis
    by (simp add: newer_than_hist_of hist_of_collect
        gc_history_newer [of "next_version s"]) (simp add: hist_of_def)
qed

text \<open>The statistics count exactly what disappeared, modulo \<open>2 ^ 64\<close>.\<close>

definition total_versions :: "table \<Rightarrow> nat" where
  "total_versions t = sum_list (map (\<lambda>(k, h). length h) t)"

lemma gc_history_counts:
  assumes "sorted_wrt (\<lambda>x y. vv_version y \<le> b \<longrightarrow> vv_version x \<le> b) h"
  shows "\<exists>n r. n + length (case fst (gc_history b h) of None \<Rightarrow> [] | Some h' \<Rightarrow> h') = length h
    \<and> r = (if fst (gc_history b h) = None then 1 else 0)
    \<and> snd (gc_history b h) = GCStats (of_nat n) (of_nat r)"
  using assms
proof (cases rule: gc_history_cases)
  case (trimmed n)
  have "n \<le> length h"
    using trimmed(1) length_filter_le by (metis Suc_leD)
  with trimmed show ?thesis by (simp, intro exI [of _ n]) simp
qed (auto simp: zero_GCStats_def)

lemma gc_loop_counts:
  assumes "list_all (\<lambda>(k, h). \<exists>m. hist_inv m h) t"
  shows "\<exists>n r. n + total_versions (fst (gc_loop b t st)) = total_versions t
    \<and> r + length (fst (gc_loop b t st)) = length t
    \<and> snd (gc_loop b t st) = st + GCStats (of_nat n) (of_nat r)"
  using assms
proof (induction t arbitrary: st)
  case Nil
  then show ?case by (simp add: zero_GCStats_def [symmetric])
next
  case (Cons kh t)
  obtain k h where kh: "kh = (k, h)" by fastforce
  let ?d = "snd (gc_history b h)"
  from Cons.prems obtain n r where
      h: "n + length (case fst (gc_history b h) of None \<Rightarrow> [] | Some h' \<Rightarrow> h') = length h"
      "r = (if fst (gc_history b h) = None then 1 else 0)" "?d = GCStats (of_nat n) (of_nat r)"
    using gc_history_counts [of b h] hist_inv_partitioned by (fastforce simp: kh)
  from Cons.prems Cons.IH [of "st + ?d"] obtain n' r' where
    rest: "n' + total_versions (fst (gc_loop b t (st + ?d))) = total_versions t"
      "r' + length (fst (gc_loop b t (st + ?d))) = length t"
      "snd (gc_loop b t (st + ?d)) = st + ?d + GCStats (of_nat n') (of_nat r')"
    by auto
  show ?case
  proof (intro exI conjI)
    show "n + n' + total_versions (fst (gc_loop b (kh # t) st)) = total_versions (kh # t)"
      using h(1) rest(1)
      by (simp add: kh gc_loop_Cons case_prod_beta total_versions_def split: option.splits)
    show "r + r' + length (fst (gc_loop b (kh # t) st)) = length (kh # t)"
      using h(2) rest(2) by (simp add: kh gc_loop_Cons case_prod_beta split: option.splits)
    show "snd (gc_loop b (kh # t) st) = st + GCStats (of_nat (n + n')) (of_nat (r + r'))"
      using h(3) rest(3)
      by (simp add: kh gc_loop_Cons case_prod_beta plus_GCStats_def algebra_simps
          split: option.split)
  qed
qed

text \<open>A second pass with the same boundary finds nothing: of the entries at or below the
  boundary only the newest is left.\<close>

lemma gc_history_le_one:
  assumes "hist_inv m h" "fst (gc_history b h) = Some h'"
  shows "length (filter (\<lambda>e. vv_version e \<le> b) h') \<le> 1"
  using hist_inv_partitioned [OF assms(1), of b]
proof (cases rule: gc_history_cases)
  case (trimmed n)
  let ?p = "\<lambda>e. vv_version e \<le> b"
  have "filter ?p h = filter ?p (take n h) @ filter ?p (drop n h)"
    by (metis append_take_drop_id filter_append)
  moreover have "filter ?p (take n h) = take n h"
    using filter_le_prefix(2) [OF hist_inv_partitioned [OF assms(1)] hist_inv_partitioned [OF assms(1)]
        order_refl, of n b] trimmed(1)
    by (auto simp: filter_id_conv dest!: in_set_takeD)
  moreover have "n \<le> length h"
    using trimmed(1) length_filter_le [of ?p h] by linarith
  ultimately show ?thesis
    using trimmed assms(2) by simp
qed (use assms(2) in simp_all)

lemma gc_history_idem:
  assumes "hist_inv m h" "fst (gc_history b h) = Some h'"
  shows "gc_history b h' = (Some h', 0)"
  using hist_inv_partitioned [OF gc_history_inv [OF assms], of b]
proof (cases rule: gc_history_cases)
  case (trimmed n)
  with gc_history_le_one [OF assms] show ?thesis
    by (simp add: zero_GCStats_def)
next
  case (erased n)
  with gc_history_le_one [OF assms] have one: "length h' = 1" "n = 0" by auto
  from hist_inv_partitioned [OF assms(1), of b] show ?thesis
  proof (cases rule: gc_history_cases)
    case untouched
    with erased assms(2) show ?thesis by auto
  next
    case (trimmed j)
    with one erased(3) assms(2) have "length h = Suc j" "vv_value (last h) = None"
      by (auto simp: last_drop)
    with trimmed show ?thesis by simp
  qed (use assms(2) in simp)
qed simp

lemma gc_loop_idem:
  assumes "list_all (\<lambda>(k, h). \<exists>m. hist_inv m h) t"
  shows "gc_loop b (fst (gc_loop b t st)) st' = (fst (gc_loop b t st), st')"
  using assms
proof (induction t arbitrary: st st')
  case (Cons kh t)
  obtain k h where kh: "kh = (k, h)" by fastforce
  with Cons.prems obtain m where "hist_inv m h" by auto
  with Cons gc_history_idem [of m h b] show ?case
    by (auto simp: kh gc_loop_Cons case_prod_beta split: option.splits)
qed simp

text \<open>Boundary 0 is below every version.\<close>

lemma gc_history_0:
  assumes "hist_inv m h"
  shows "gc_history 0 h = (Some h, 0)"
proof -
  have "filter (\<lambda>e. vv_version e \<le> 0) h = []"
    using assms by (auto simp: hist_inv_def list_all_iff filter_empty_conv)
  with hist_inv_partitioned [OF assms, of 0] show ?thesis
    by (cases rule: gc_history_cases) simp_all
qed

lemma gc_loop_0:
  "list_all (\<lambda>(k, h). \<exists>m. hist_inv m h) t \<Longrightarrow> gc_loop 0 t st = (t, st)"
  by (induction t arbitrary: st) (auto simp: gc_loop_Cons gc_history_0)

lemma vs_inv_histories: "vs_inv s \<Longrightarrow> list_all (\<lambda>(k, h). \<exists>m. hist_inv m h) (vs_table s)"
  by (auto simp: vs_inv_def list_all_iff)

lemma length_le_total_versions:
  "list_all (\<lambda>(k, h). \<exists>m. hist_inv m h) t \<Longrightarrow> length t \<le> total_versions t"
  by (induction t) (auto simp: total_versions_def hist_inv_def Suc_le_eq add_strict_increasing
      simp flip: length_greater_0_conv)

section \<open>Interfaces provided\<close>

text \<open>Calls with the default \<open>nullptr\<close> out-parameters.\<close>

definition vs_put :: "VersionStore \<Rightarrow> key \<Rightarrow> val \<Rightarrow> Status \<times> VersionStore" where
  "vs_put s k x = (let (st, s', _) = VS_Put s k x None in (st, s'))"

definition vs_get :: "VersionStore \<Rightarrow> key \<Rightarrow> val \<Rightarrow> Status \<times> val" where
  "vs_get s k out = (let (st, out', _) = VS_Get s k out None in (st, out'))"

definition vs_delete :: "VersionStore \<Rightarrow> key \<Rightarrow> Status \<times> VersionStore" where
  "vs_delete s k = (let (st, s', _) = VS_Delete s k None in (st, s'))"

definition vs_ready :: "nat \<Rightarrow> VersionStore \<Rightarrow> bool" where
  "vs_ready n s \<longleftrightarrow> vs_inv s \<and> vs_room n s"

definition valid_batch :: "WriteOp list \<Rightarrow> bool" where
  "valid_batch ops \<longleftrightarrow> ops \<noteq> [] \<and> \<not> has_empty_key ops"

definition vs_collect :: "VersionStore \<Rightarrow> u64 \<Rightarrow> VersionStore" where
  "vs_collect s b = snd (VS_CollectGarbage s b)"

definition vs_apply :: "VersionStore \<Rightarrow> WriteOp list \<Rightarrow> VersionStore" where
  "vs_apply s ops = fst (snd (VS_ApplyBatch s ops None))"

lemma vs_apply_commit: "valid_batch ops \<Longrightarrow> vs_apply s ops = vs_commit s ops"
  by (simp add: vs_apply_def valid_batch_def VS_ApplyBatch_commit)

text \<open>Runs of the two operations, and the same runs with the state after a batch written out.\<close>

lemma store_run_apply:
  "list_all valid_batch (writes_of evs) \<Longrightarrow>
   store_run vs_apply vs_collect s evs = store_run vs_commit vs_collect s evs"
  by (induction evs arbitrary: s rule: writes_of.induct) (simp_all add: vs_apply_commit)

lemma writes_of_map_Write [simp]: "writes_of (map Write bs) = bs"
  by (induction bs) simp_all

lemma vs_ready_commit:
  "vs_ready (Suc n) s \<Longrightarrow> valid_batch ops \<Longrightarrow> vs_ready n (vs_commit s ops)"
  by (auto simp: vs_ready_def valid_batch_def intro: vs_inv_commit vs_commit_room
      dest: vs_room_succ)

lemma vs_ready_collect: "vs_ready n s \<Longrightarrow> vs_ready n (vs_collect s b)"
  by (simp add: vs_ready_def vs_room_def vs_collect_def vs_inv_collect)

lemma vs_collect_view:
  "vs_ready n s \<Longrightarrow> b \<le> v \<Longrightarrow> visible (vs_collect s b) k v = visible s k v"
  "vs_ready n s \<Longrightarrow> b \<le> v \<Longrightarrow>
     newer_than (vs_table (vs_collect s b)) v k = newer_than (vs_table s) v k"
  "VS_CurrentVersion (vs_collect s b) = VS_CurrentVersion s"
  by (simp_all add: vs_ready_def vs_collect_def mvcc_view)

lemma vs_ready_Suc: "vs_ready (Suc n) s \<Longrightarrow> vs_ready n s"
  by (simp add: vs_ready_def vs_room_def)

lemma vs_ready_le: "vs_ready n s \<Longrightarrow> m \<le> n \<Longrightarrow> vs_ready m s"
  by (simp add: vs_ready_def vs_room_def)

lemma CurrentVersion_less_next: "vs_inv s \<Longrightarrow> VS_CurrentVersion s < next_version s"
  by (simp add: VS_CurrentVersion_def u64_pred_less_iff vs_inv_next_pos)

lemma CurrentVersion_less_iff: "vs_inv s \<Longrightarrow> VS_CurrentVersion s < v \<longleftrightarrow> next_version s \<le> v"
  by (simp add: VS_CurrentVersion_def u64_pred_less_iff vs_inv_next_pos)

lemma newer_than_commit:
  "v < next_version s \<Longrightarrow>
   newer_than (vs_table (vs_commit s ops)) v k \<longleftrightarrow>
     newer_than (vs_table s) v k \<or> batch_value ops k \<noteq> None"
  by (auto simp: newer_than_hist_of last_newer_def vs_commit_def hist_of_push_ops batch_value_def
      last_append last_map Let_def)

lemma newer_than_le_current: "vs_inv s \<Longrightarrow> newer_than (vs_table s) v k \<Longrightarrow> v < VS_CurrentVersion s"
  using hist_of_version_bounds [of s _ k]
  by (auto simp: newer_than_hist_of last_newer_def CurrentVersion_le_iff [symmetric])
    (meson last_in_set order_less_le_trans)

text \<open>A key with no entry newer than the snapshot still holds what the snapshot shows.\<close>

lemma not_newer_view:
  assumes "vs_inv s" "\<not> newer_than (vs_table s) v k" "v \<le> w"
  shows "visible s k w = visible s k v"
proof -
  let ?h = "hist_of (vs_table s) k"
  have "vv_version e \<le> v" if "e \<in> set ?h" for e
    using sorted_map_le_last [OF hist_of_sorted [OF assms(1)] that] that assms(2)
    by (auto simp: newer_than_hist_of last_newer_def)
  then have "filter (\<lambda>e. vv_version e \<le> v) ?h = ?h" "filter (\<lambda>e. vv_version e \<le> w) ?h = ?h"
    using assms(3) by (auto simp: filter_id_conv intro: order_trans)
  then show ?thesis
    by (simp add: visible_def hist_view_def latest_at_def)
qed

interpretation vs: counting_snapshot_store visible "\<lambda>s. newer_than (vs_table s)" VS_CurrentVersion
  vs_ready valid_batch batch_value vs_commit vs_collect "\<lambda>v. v + 1"
proof unfold_locales
  fix n s v k and c :: "WriteOp list"
  assume ok: "vs_ready (Suc n) s"
  then have inv: "vs_inv s" and room: "next_version s + 1 \<noteq> 0"
    by (auto simp: vs_ready_def dest: vs_room_succ)
  show "VS_CurrentVersion s < VS_CurrentVersion (vs_commit s c)"
    using CurrentVersion_less_next [OF inv] by (simp add: VS_CurrentVersion_def)
  show "visible (vs_commit s c) k v = (case batch_value c k of None \<Rightarrow> visible s k v | Some x \<Rightarrow> x)"
    if "VS_CurrentVersion s < v"
    using that inv by (simp add: visible_commit_new CurrentVersion_less_iff)
  show "visible (vs_commit s c) k v = visible s k v" if "v \<le> VS_CurrentVersion s"
    using that inv by (simp add: visible_commit_old CurrentVersion_le_iff)
  show "newer_than (vs_table (vs_commit s c)) v k \<longleftrightarrow>
      newer_than (vs_table s) v k \<or> batch_value c k \<noteq> None" if "v \<le> VS_CurrentVersion s"
    using that inv by (simp add: newer_than_commit CurrentVersion_le_iff)
  show "\<not> newer_than (vs_table (vs_commit s c)) v k"
    if "VS_CurrentVersion s < v" "v \<le> VS_CurrentVersion (vs_commit s c)"
  proof -
    have "v = next_version s"
      using that CurrentVersion_less_iff [OF inv] by (simp add: VS_CurrentVersion_def)
    then show ?thesis
      using hist_of_version_bounds [OF inv last_in_set, of k]
      by (auto simp: newer_than_hist_of last_newer_def vs_commit_def hist_of_push_ops
          last_append last_map)
  qed
next
  fix n s v k
  assume "vs_ready n s" "v \<le> VS_CurrentVersion s" "\<not> newer_than (vs_table s) v k"
  then show "visible s k v = visible s k (VS_CurrentVersion s)"
    using not_newer_view [of s v k "VS_CurrentVersion s"] by (simp add: vs_ready_def)
qed (auto simp: vs_collect_view intro: vs_ready_Suc vs_ready_commit vs_ready_collect)

interpretation vs_latest: kv_api vs_put vs_get vs_delete
  "\<lambda>s k. visible s k (VS_CurrentVersion s)" vs_ready
proof unfold_locales
  fix n s k v
  assume ok: "vs_ready (Suc n) s" and k: "k \<noteq> ([] :: key)"
  have upd: "(\<lambda>k'. visible (vs_commit s [\<lparr>op_key = k, op_value = x\<rparr>]) k'
      (VS_CurrentVersion (vs_commit s [\<lparr>op_key = k, op_value = x\<rparr>]))) =
    (\<lambda>k'. visible s k' (VS_CurrentVersion s)) (k := x)" for x
    using vs.current_commit [OF ok] ok
    by (auto simp: vs.view_commit_new visible_at_or_after_current vs_ready_def less_imp_le
        simp del: vs_commit_current)
  have rdy: "vs_ready n (vs_commit s [\<lparr>op_key = k, op_value = x\<rparr>])" for x
    using ok k by (intro vs_ready_commit) (auto simp: valid_batch_def)
  show "\<exists>s'. vs_put s k v = (OK, s') \<and>
      (\<lambda>k. visible s' k (VS_CurrentVersion s')) =
        (\<lambda>k. visible s k (VS_CurrentVersion s)) (k \<mapsto> v) \<and> vs_ready n s'"
    using k upd [of "Some v"] rdy [of "Some v"] by (auto simp: vs_put_def VS_Put_commit)
  show "\<exists>s'. vs_delete s k = (OK, s') \<and>
      (\<lambda>k. visible s' k (VS_CurrentVersion s')) =
        (\<lambda>k. visible s k (VS_CurrentVersion s)) (k := None) \<and> vs_ready n s'"
    if "visible s k (VS_CurrentVersion s) = Some v"
    using k upd [of None] rdy [of None] that ok
    by (auto simp: vs_delete_def VS_Delete_commit currently_visible_iff vs_ready_def)
next
  fix n s k v out
  assume ok: "vs_ready n s" and k: "k \<noteq> ([] :: key)"
  show "vs_get s k out = (OK, v)" if "visible s k (VS_CurrentVersion s) = Some v"
    using VS_Get_visible [of s k out None] ok k that by (auto simp: vs_get_def vs_ready_def)
  show "\<exists>m. vs_get s k out = (NotFound m, out)" if "visible s k (VS_CurrentVersion s) = None"
    using VS_Get_visible [of s k out None] ok k that by (auto simp: vs_get_def vs_ready_def)
  show "\<exists>m. vs_delete s k = (NotFound m, s)" if "visible s k (VS_CurrentVersion s) = None"
    using ok k that by (auto simp: vs_delete_def VS_Delete_def vs_ready_def currently_visible_iff)
qed (auto simp: vs_put_def VS_Put_def vs_get_def VS_Get_def vs_delete_def VS_Delete_def
    intro: vs_ready_Suc)

end
