(* ===== verification/Txn_Registry.thy ===== *)
theory Txn_Registry
  imports Version_Store
begin

text \<open>
  The bookkeeping half of \<open>TransactionManager\<close> (\<open>include/mvcc/transaction.h\<close>,
  \<open>src/transaction.cpp\<close>): transaction ids and the active-snapshot table split over sixteen
  shards. Each definition here is one critical section (one shard lock held) or, for the
  scans, the sequence of sixteen of them run without interruption; \<open>Concurrency\<close> takes
  the scan apart shard by shard. The interface \<open>snapshot_registry\<close> is the flat map from
  transaction ids to snapshots that the shards implement.
\<close>

section \<open>State and critical sections\<close>

definition kNumShards :: nat where
  "kNumShards = 16"

definition ShardFor :: "u64 \<Rightarrow> nat" where
  "ShardFor txn_id = unat (txn_id mod of_nat kNumShards)"

text \<open>\<open>Shard::active_snapshots\<close>: transaction id to snapshot.\<close>

type_synonym shard = "(u64 \<times> u64) list"

record TransactionManager =
  next_txn_id :: u64
  shards :: "shard list"

definition TM_init :: TransactionManager where
  "TM_init = \<lparr>next_txn_id = 1, shards = replicate kNumShards []\<rparr>"

definition fetch_txn_id :: "TransactionManager \<Rightarrow> u64 \<times> TransactionManager" where
  "fetch_txn_id m = (next_txn_id m, m\<lparr>next_txn_id := next_txn_id m + 1\<rparr>)"

text \<open>\<open>shard.active_snapshots[txn_id] = snapshot\<close> under the shard's lock.\<close>

definition record_snapshot :: "TransactionManager \<Rightarrow> u64 \<Rightarrow> u64 \<Rightarrow> TransactionManager" where
  "record_snapshot m txn_id snapshot =
     (let i = ShardFor txn_id in
      m\<lparr>shards := (shards m)[i := um_assign (shards m ! i) txn_id snapshot]\<rparr>)"

definition Unregister :: "TransactionManager \<Rightarrow> u64 \<Rightarrow> TransactionManager" where
  "Unregister m txn_id =
     (let i = ShardFor txn_id in
      m\<lparr>shards := (shards m)[i := um_erase (shards m ! i) txn_id]\<rparr>)"

text \<open>The inner loop of \<open>OldestActiveSnapshot\<close> over one shard, then the loop over all.\<close>

fun scan_shard :: "shard \<Rightarrow> bool \<times> u64 \<Rightarrow> bool \<times> u64" where
  "scan_shard [] acc = acc"
| "scan_shard ((txn_id, snapshot) # entries) (any_active, oldest) =
     scan_shard entries (True, min oldest snapshot)"

fun scan_shards :: "shard list \<Rightarrow> bool \<times> u64 \<Rightarrow> bool \<times> u64" where
  "scan_shards [] acc = acc"
| "scan_shards (shard # rest) acc = scan_shards rest (scan_shard shard acc)"

definition OldestActiveSnapshot :: "VersionStore \<Rightarrow> TransactionManager \<Rightarrow> u64" where
  "OldestActiveSnapshot store m =
     (let (any_active, oldest) = scan_shards (shards m) (False, u64_max) in
      if \<not> any_active then VS_CurrentVersion store else oldest)"

fun count_shards :: "shard list \<Rightarrow> nat \<Rightarrow> nat" where
  "count_shards [] n = n"
| "count_shards (shard # rest) n = count_shards rest (n + um_size shard)"

definition ActiveTransactionCount :: "TransactionManager \<Rightarrow> nat" where
  "ActiveTransactionCount m = count_shards (shards m) 0"

section \<open>The flat registry\<close>

locale snapshot_registry =
  fixes wf :: "'m \<Rightarrow> bool"
    and active :: "'m \<Rightarrow> 'i \<Rightarrow> 'v::linorder option"
    and register :: "'m \<Rightarrow> 'i \<Rightarrow> 'v \<Rightarrow> 'm"
    and unregister :: "'m \<Rightarrow> 'i \<Rightarrow> 'm"
    and oldest :: "'v \<Rightarrow> 'm \<Rightarrow> 'v"
    and count :: "'m \<Rightarrow> nat"
  assumes wf_register: "wf m \<Longrightarrow> wf (register m i v)"
    and wf_unregister: "wf m \<Longrightarrow> wf (unregister m i)"
    and active_register: "wf m \<Longrightarrow> active (register m i v) = (active m)(i \<mapsto> v)"
    and active_unregister: "wf m \<Longrightarrow> active (unregister m i) = (active m)(i := None)"
    and finite_active: "wf m \<Longrightarrow> finite (dom (active m))"
    and oldest_none: "wf m \<Longrightarrow> active m = Map.empty \<Longrightarrow> oldest d m = d"
    and oldest_le: "wf m \<Longrightarrow> active m i = Some v \<Longrightarrow> oldest d m \<le> v"
    and oldest_attained: "wf m \<Longrightarrow> active m \<noteq> Map.empty \<Longrightarrow> \<exists>i. active m i = Some (oldest d m)"
    and count_active: "wf m \<Longrightarrow> count m = card (dom (active m))"
begin

text \<open>A boundary below the default and below every recorded snapshot is below the oldest.\<close>

lemma oldest_greatest:
  assumes "wf m" "b \<le> d" "\<And>i v. active m i = Some v \<Longrightarrow> b \<le> v"
  shows "b \<le> oldest d m"
proof (cases "active m = Map.empty")
  case True
  with assms show ?thesis by (simp add: oldest_none)
next
  case False
  then obtain i where "active m i = Some (oldest d m)"
    using oldest_attained [OF assms(1)] by blast
  then show ?thesis by (rule assms(3))
qed

lemma oldest_le_bound:
  assumes "wf m" "\<And>i v. active m i = Some v \<Longrightarrow> v \<le> d"
  shows "oldest d m \<le> d"
proof (cases "active m = Map.empty")
  case True
  with assms show ?thesis by (simp add: oldest_none)
next
  case False
  then obtain i where "active m i = Some (oldest d m)"
    using oldest_attained [OF assms(1)] by blast
  then show ?thesis by (rule assms(2))
qed

text \<open>The oldest snapshot is the minimum of the recorded ones.\<close>

lemma oldest_Min:
  assumes "wf m" "active m \<noteq> Map.empty"
  shows "oldest d m = Min (ran (active m))"
proof -
  have fin: "finite (ran (active m))"
    using finite_active [OF assms(1)] by (rule finite_ran)
  obtain i where "active m i = Some (oldest d m)"
    using oldest_attained [OF assms] by blast
  then have "oldest d m \<in> ran (active m)"
    by (rule ranI)
  moreover have "oldest d m \<le> v" if "v \<in> ran (active m)" for v
    using that oldest_le [OF assms(1)] by (auto simp: ran_def)
  ultimately show ?thesis
    using fin by (metis Min_eqI)
qed

text \<open>Registering and unregistering keep the count exact.\<close>

lemma count_register:
  "wf m \<Longrightarrow> count (register m i v) = (if active m i = None then Suc (count m) else count m)"
  by (auto simp: count_active wf_register active_register finite_active insert_absorb domIff)

lemma count_unregister:
  assumes "wf m"
  shows "count (unregister m i) = (if active m i = None then count m else count m - 1)"
proof -
  have "dom (active (unregister m i)) = dom (active m) - {i}"
    using assms by (auto simp: active_unregister)
  with assms show ?thesis
    by (auto simp: count_active wf_unregister finite_active domIff)
qed

lemma register_unregister:
  "wf m \<Longrightarrow> active m i = None \<Longrightarrow> active (unregister (register m i v) i) = active m"
  by (auto simp: active_unregister active_register wf_register)

end

section \<open>The shards implement it\<close>

definition active_snapshots :: "TransactionManager \<Rightarrow> u64 \<Rightarrow> u64 option" where
  "active_snapshots m txn_id = um_find (shards m ! ShardFor txn_id) txn_id"

definition tm_wf :: "TransactionManager \<Rightarrow> bool" where
  "tm_wf m \<longleftrightarrow>
     length (shards m) = kNumShards \<and>
     list_all (\<lambda>i. um_wf (shards m ! i) \<and> list_all (\<lambda>(j, v). ShardFor j = i) (shards m ! i))
       [0..<kNumShards]"

definition oldest_snapshot :: "u64 \<Rightarrow> TransactionManager \<Rightarrow> u64" where
  "oldest_snapshot d m =
     (let (any_active, oldest) = scan_shards (shards m) (False, u64_max) in
      if \<not> any_active then d else oldest)"

lemma OldestActiveSnapshot_eq:
  "OldestActiveSnapshot store m = oldest_snapshot (VS_CurrentVersion store) m"
  by (simp add: OldestActiveSnapshot_def oldest_snapshot_def)

lemma ShardFor_less [simp]: "ShardFor i < kNumShards"
proof -
  have "unat (i mod 16) = unat i mod 16"
    by (simp add: unat_mod_distrib)
  then show ?thesis
    by (simp add: ShardFor_def kNumShards_def)
qed

lemma tm_wf_iff:
  "tm_wf m \<longleftrightarrow>
     length (shards m) = kNumShards \<and>
     (\<forall>i<kNumShards. um_wf (shards m ! i) \<and> (\<forall>(j, v) \<in> set (shards m ! i). ShardFor j = i))"
  by (auto simp: tm_wf_def list_all_iff)

lemma tm_wf_length [simp]: "tm_wf m \<Longrightarrow> length (shards m) = kNumShards"
  by (simp add: tm_wf_def)

lemma tm_wf_init [simp]: "tm_wf TM_init"
  by (simp add: tm_wf_iff TM_init_def)

lemma um_find_notin_shard:
  "tm_wf m \<Longrightarrow> i < kNumShards \<Longrightarrow> ShardFor j \<noteq> i \<Longrightarrow> um_find (shards m ! i) j = None"
  by (fastforce simp: tm_wf_iff um_find_def map_of_eq_None_iff)

lemma tm_wf_shard:
  "tm_wf m \<Longrightarrow> i < kNumShards \<Longrightarrow> um_wf (shards m ! i)"
  "tm_wf m \<Longrightarrow> i < kNumShards \<Longrightarrow> (j, v) \<in> set (shards m ! i) \<Longrightarrow> ShardFor j = i"
  by (auto simp: tm_wf_iff)

lemma tm_wf_update:
  assumes "tm_wf m" "um_wf s" "\<And>j v. (j, v) \<in> set s \<Longrightarrow> ShardFor j = i" "i < kNumShards"
  shows "tm_wf (m\<lparr>shards := (shards m)[i := s]\<rparr>)"
proof -
  have "um_wf ((shards m)[i := s] ! n) \<and> (\<forall>(j, v) \<in> set ((shards m)[i := s] ! n). ShardFor j = n)"
    if "n < kNumShards" for n
    using assms that tm_wf_shard [OF assms(1) that] by (cases "n = i") auto
  with assms(1) show ?thesis
    by (simp add: tm_wf_iff)
qed

lemma set_um_assign: "(j, v) \<in> set (um_assign s i w) \<Longrightarrow> (j = i \<and> v = w) \<or> (j, v) \<in> set s"
  unfolding um_assign_def by (induction s) (auto split: if_splits)

lemma set_um_erase: "(j, v) \<in> set (um_erase s i) \<Longrightarrow> (j, v) \<in> set s"
  by (simp add: um_erase_def AList.delete_eq)

lemma tm_wf_record [mvcc_inv]:
  assumes "tm_wf m"
  shows "tm_wf (record_snapshot m i v)"
  unfolding record_snapshot_def Let_def
  using assms tm_wf_shard [OF assms ShardFor_less]
  by (intro tm_wf_update) (auto dest!: set_um_assign)

lemma tm_wf_Unregister [mvcc_inv]:
  assumes "tm_wf m"
  shows "tm_wf (Unregister m i)"
  unfolding Unregister_def Let_def
  using assms tm_wf_shard [OF assms ShardFor_less]
  by (intro tm_wf_update) (auto dest!: set_um_erase)

lemma active_record: "tm_wf m \<Longrightarrow> active_snapshots (record_snapshot m i v) = (active_snapshots m)(i \<mapsto> v)"
  by (rule ext) (auto simp: active_snapshots_def record_snapshot_def Let_def nth_list_update)

lemma active_Unregister: "tm_wf m \<Longrightarrow> active_snapshots (Unregister m i) = (active_snapshots m)(i := None)"
  by (rule ext) (auto simp: active_snapshots_def Unregister_def Let_def nth_list_update)

text \<open>The scans see the concatenation of the shards, which has one entry per id.\<close>

lemma scan_shard_append: "scan_shard (xs @ ys) acc = scan_shard ys (scan_shard xs acc)"
  by (induction xs acc rule: scan_shard.induct) auto

lemma scan_shards_concat: "scan_shards ss acc = scan_shard (concat ss) acc"
  by (induction ss acc rule: scan_shards.induct) (auto simp: scan_shard_append)

lemma count_shards_concat: "count_shards ss n = n + length (concat ss)"
  by (induction ss n rule: count_shards.induct) (auto simp: um_size_def)

lemma scan_shard_fst: "fst (scan_shard es (a, oldest)) \<longleftrightarrow> a \<or> es \<noteq> []"
  by (induction es "(a, oldest)" arbitrary: a oldest rule: scan_shard.induct) auto

lemma scan_shard_snd_le:
  "snd (scan_shard es (a, oldest)) \<le> oldest \<and>
   (\<forall>(i, v) \<in> set es. snd (scan_shard es (a, oldest)) \<le> v)"
  by (induction es "(a, oldest)" arbitrary: a oldest rule: scan_shard.induct)
    (fastforce simp: min.coboundedI1 min.coboundedI2)+

lemma scan_shard_snd_attained:
  "snd (scan_shard es (a, oldest)) = oldest \<or>
   (\<exists>i. (i, snd (scan_shard es (a, oldest))) \<in> set es)"
  by (induction es "(a, oldest)" arbitrary: a oldest rule: scan_shard.induct)
    (fastforce simp: min_def)+

lemma in_concat_shards:
  assumes "tm_wf m"
  shows "x \<in> set (concat (shards m)) \<longleftrightarrow> (\<exists>n<kNumShards. x \<in> set (shards m ! n))"
  using assms by (auto simp: set_conv_nth [of "shards m"])

lemma set_concat_shards:
  assumes "tm_wf m"
  shows "(i, v) \<in> set (concat (shards m)) \<longleftrightarrow> active_snapshots m i = Some v"
proof
  assume "(i, v) \<in> set (concat (shards m))"
  then obtain n where n: "n < kNumShards" "(i, v) \<in> set (shards m ! n)"
    using assms by (auto simp only: in_concat_shards)
  with tm_wf_shard [OF assms n(1)] show "active_snapshots m i = Some v"
    by (simp add: active_snapshots_def um_find_eq_Some_iff)
next
  assume "active_snapshots m i = Some v"
  then have "(i, v) \<in> set (shards m ! ShardFor i)"
    by (simp add: active_snapshots_def um_find_SomeD)
  then show "(i, v) \<in> set (concat (shards m))"
    using assms by (simp only: in_concat_shards) (blast intro: ShardFor_less)
qed

lemma distinct_concat_shards:
  assumes "tm_wf m"
  shows "distinct (map fst (concat (shards m)))"
proof -
  have "distinct (map fst (concat (take n (shards m))))" if "n \<le> kNumShards" for n
    using that
  proof (induction n)
    case (Suc n)
    then have n: "n < length (shards m)" using assms by simp
    have "fst x \<notin> fst ` set (shards m ! n)" if x: "x \<in> set (concat (take n (shards m)))" for x
    proof -
      from x obtain k where k: "k < n" "x \<in> set (shards m ! k)"
        using n by (auto simp: set_conv_nth [of "take n (shards m)"])
      then have "ShardFor (fst x) = k"
        using n assms tm_wf_shard(2) [of m k "fst x" "snd x"] by simp
      with k n assms show ?thesis
        using tm_wf_shard(2) [of m n "fst x"] by auto
    qed
    moreover have "distinct (map fst (shards m ! n))"
      using assms n by (simp add: tm_wf_iff um_wf_def)
    ultimately show ?case
      using Suc n by (auto simp: take_Suc_conv_app_nth)
  qed simp
  from this [of kNumShards] assms show ?thesis by simp
qed

interpretation reg: snapshot_registry tm_wf active_snapshots record_snapshot Unregister
  oldest_snapshot ActiveTransactionCount
proof unfold_locales
  fix m d i v
  assume wf: "tm_wf m"
  let ?es = "concat (shards m)"
  have mem: "(i, v) \<in> set ?es \<longleftrightarrow> active_snapshots m i = Some v" for i v
    by (rule set_concat_shards [OF wf])
  have dom: "dom (active_snapshots m) = fst ` set ?es"
    by (force simp: mem [symmetric])
  have old: "oldest_snapshot d m =
      (if ?es = [] then d else snd (scan_shard ?es (False, u64_max)))"
    by (simp add: oldest_snapshot_def scan_shards_concat case_prod_beta scan_shard_fst)
  have empty: "active_snapshots m = Map.empty \<longleftrightarrow> ?es = []"
    using arg_cong [OF dom, of "\<lambda>X. X = {}"] by (simp add: dom_eq_empty_conv)
  show "finite (dom (active_snapshots m))"
    by (simp add: dom)
  show "oldest_snapshot d m = d" if "active_snapshots m = Map.empty"
    using that unfolding old empty by simp
  show "oldest_snapshot d m \<le> v" if "active_snapshots m i = Some v"
    using that scan_shard_snd_le [of ?es False u64_max] by (auto simp: old mem [symmetric])
  show "\<exists>i. active_snapshots m i = Some (oldest_snapshot d m)" if "active_snapshots m \<noteq> Map.empty"
  proof -
    from that have ne: "?es \<noteq> []" by (simp add: empty)
    then obtain i v where iv: "(i, v) \<in> set ?es"
      by (cases ?es) auto
    let ?o = "snd (scan_shard ?es (False, u64_max))"
    have "?o \<le> v"
      using scan_shard_snd_le [of ?es False u64_max] iv by blast
    then have "?o = u64_max \<Longrightarrow> v = ?o"
      using u64_le_max [of v] by simp
    with iv have "\<exists>i. (i, ?o) \<in> set ?es"
      using scan_shard_snd_attained [of ?es False u64_max] by blast
    with ne show ?thesis
      unfolding old mem by auto
  qed
  show "ActiveTransactionCount m = card (dom (active_snapshots m))"
    using distinct_card [OF distinct_concat_shards [OF wf]]
    by (simp add: ActiveTransactionCount_def count_shards_concat dom)
qed (auto simp: active_record active_Unregister mvcc_inv)

end
