(* ===== verification/Transactions.thy ===== *)
theory Transactions
  imports Txn_Registry
begin

text \<open>
  \<open>Transaction\<close> and \<open>TransactionManager::Begin\<close>
  (\<open>include/mvcc/transaction.h\<close>, \<open>src/transaction.cpp\<close>). A transaction object holds
  references to the store and to its manager; the record \<open>World\<close> is what those references
  point to, and every method takes and returns it. In this theory the methods run without
  interruption; \<open>Concurrency\<close> interleaves their critical sections.
\<close>

section \<open>Data\<close>

datatype TxnState = kActive | kCommitted | kAborted

record Transaction =
  txn_id :: u64
  snapshot_version :: u64
  txn_state :: TxnState
  write_set :: "(key \<times> val option) list"

record World =
  w_store :: VersionStore
  w_mgr :: TransactionManager

definition World_init :: World where
  "World_init = \<lparr>w_store = VS_init, w_mgr = TM_init\<rparr>"

definition new_Transaction :: "u64 \<Rightarrow> u64 \<Rightarrow> Transaction" where
  "new_Transaction i snapshot =
     \<lparr>txn_id = i, snapshot_version = snapshot, txn_state = kActive, write_set = []\<rparr>"

definition is_active :: "Transaction \<Rightarrow> bool" where
  "is_active t \<longleftrightarrow> txn_state t = kActive"

section \<open>Methods of Transaction\<close>

definition w_unregister :: "World \<Rightarrow> Transaction \<Rightarrow> World" where
  "w_unregister w t = w\<lparr>w_mgr := Unregister (w_mgr w) (txn_id t)\<rparr>"

definition Txn_destroy :: "World \<Rightarrow> Transaction \<Rightarrow> World" where
  "Txn_destroy w t = (if txn_state t = kActive then w_unregister w t else w)"

definition Txn_Get :: "VersionStore \<Rightarrow> Transaction \<Rightarrow> key \<Rightarrow> val \<Rightarrow> Status \<times> val" where
  "Txn_Get store t key out_value =
     (if txn_state t \<noteq> kActive then (InvalidArgument ''transaction is not active'', out_value)
      else case um_find (write_set t) key of
        Some (Some v) \<Rightarrow> (OK, v)
      | Some None \<Rightarrow> (NotFound (''key deleted within this transaction: '' @ key), out_value)
      | None \<Rightarrow> VS_GetAsOf store key (snapshot_version t) out_value)"

definition Txn_Put :: "Transaction \<Rightarrow> key \<Rightarrow> val \<Rightarrow> Status \<times> Transaction" where
  "Txn_Put t key value =
     (if txn_state t \<noteq> kActive then (InvalidArgument ''transaction is not active'', t)
      else if key = [] then (InvalidArgument ''key must not be empty'', t)
      else (OK, t\<lparr>write_set := um_assign (write_set t) key (Some value)\<rparr>))"

definition Txn_Delete :: "VersionStore \<Rightarrow> Transaction \<Rightarrow> key \<Rightarrow> Status \<times> Transaction" where
  "Txn_Delete store t key =
     (if txn_state t \<noteq> kActive then (InvalidArgument ''transaction is not active'', t)
      else if key = [] then (InvalidArgument ''key must not be empty'', t)
      else case um_find (write_set t) key of
        Some None \<Rightarrow> (NotFound (''key already deleted within this transaction: '' @ key), t)
      | Some (Some _) \<Rightarrow> (OK, t\<lparr>write_set := um_assign (write_set t) key None\<rparr>)
      | None \<Rightarrow>
          (let (s, _) = VS_GetAsOf store key (snapshot_version t) '''' in
           if \<not> st_ok s then (s, t)
           else (OK, t\<lparr>write_set := um_assign (write_set t) key None\<rparr>)))"

text \<open>The batch \<open>Commit\<close> builds from the write set, in its iteration order.\<close>

definition ops_of :: "(key \<times> val option) list \<Rightarrow> WriteOp list" where
  "ops_of ws = map (\<lambda>(key, value). \<lparr>op_key = key, op_value = value\<rparr>) ws"

definition Txn_Commit :: "World \<Rightarrow> Transaction \<Rightarrow> u64 option \<Rightarrow> key list option \<Rightarrow>
    Status \<times> World \<times> Transaction \<times> u64 option \<times> key list option" where
  "Txn_Commit w t out_commit_version out_conflicting_keys =
     (if txn_state t \<noteq> kActive
      then (InvalidArgument ''transaction is not active'', w, t,
            out_commit_version, out_conflicting_keys)
      else if write_set t = [] then
        (OK, w_unregister w t, t\<lparr>txn_state := kCommitted\<rparr>,
         write_out out_commit_version (snapshot_version t), out_conflicting_keys)
      else
        let (s, store', commit_version, out_keys) =
              VS_ApplyBatchIfNoConflict (w_store w) (ops_of (write_set t)) (snapshot_version t)
                (Some 0) out_conflicting_keys;
            w' = w\<lparr>w_store := store'\<rparr>
        in if \<not> st_ok s
           then (s, w_unregister w' t, t\<lparr>write_set := [], txn_state := kAborted\<rparr>,
                 out_commit_version, out_keys)
           else (OK, w_unregister w' t, t\<lparr>txn_state := kCommitted\<rparr>,
                 write_out out_commit_version (case commit_version of Some v \<Rightarrow> v | None \<Rightarrow> 0),
                 out_keys))"

definition Txn_Abort :: "World \<Rightarrow> Transaction \<Rightarrow> Status \<times> World \<times> Transaction" where
  "Txn_Abort w t =
     (if txn_state t \<noteq> kActive then (InvalidArgument ''transaction is not active'', w, t)
      else (OK, w_unregister w t, t\<lparr>write_set := [], txn_state := kAborted\<rparr>))"

section \<open>TransactionManager::Begin\<close>

definition Begin :: "World \<Rightarrow> Transaction \<times> World" where
  "Begin w =
     (let (i, m1) = fetch_txn_id (w_mgr w);
          m2 = record_snapshot m1 i 0;
          snapshot = VS_CurrentVersion (w_store w);
          m3 = record_snapshot m2 i snapshot
      in (new_Transaction i snapshot, w\<lparr>w_mgr := m3\<rparr>))"

lemmas txn_defs [mvcc_defs] =
  Txn_destroy_def Txn_Get_def Txn_Put_def Txn_Delete_def Txn_Commit_def Txn_Abort_def
  new_Transaction_def is_active_def w_unregister_def

section \<open>Well-formedness and the transaction's own view\<close>

definition txn_wf :: "Transaction \<Rightarrow> bool" where
  "txn_wf t \<longleftrightarrow> um_wf (write_set t) \<and> um_find (write_set t) [] = None"

text \<open>What the transaction sees: its own buffered writes over its snapshot.\<close>

definition txn_view :: "VersionStore \<Rightarrow> Transaction \<Rightarrow> key \<Rightarrow> val option" where
  "txn_view s t k =
     (case um_find (write_set t) k of
        None \<Rightarrow> visible s k (snapshot_version t)
      | Some x \<Rightarrow> x)"

text \<open>The world's invariant: store and registry are well formed, every recorded snapshot is
  an existing version, every registered id has been handed out.\<close>

definition w_inv :: "World \<Rightarrow> bool" where
  "w_inv w \<longleftrightarrow>
     vs_inv (w_store w) \<and> tm_wf (w_mgr w) \<and>
     list_all (\<lambda>(i, v). v \<le> VS_CurrentVersion (w_store w) \<and> i < next_txn_id (w_mgr w))
       (concat (shards (w_mgr w)))"

lemma w_inv_iff:
  "w_inv w \<longleftrightarrow>
     vs_inv (w_store w) \<and> tm_wf (w_mgr w) \<and>
     (\<forall>i v. active_snapshots (w_mgr w) i = Some v \<longrightarrow>
        v \<le> VS_CurrentVersion (w_store w) \<and> i < next_txn_id (w_mgr w))"
  by (auto simp: w_inv_def list_all_iff set_concat_shards [symmetric] simp del: set_concat)

lemma w_inv_init [simp]: "w_inv World_init"
  by (simp add: w_inv_iff World_init_def active_snapshots_def) (simp add: TM_init_def)

lemma txn_wf_new [simp]: "txn_wf (new_Transaction i v)"
  by (simp add: txn_wf_def new_Transaction_def)

lemma txn_wf_Put [mvcc_inv]: "txn_wf t \<Longrightarrow> txn_wf (snd (Txn_Put t k x))"
  by (simp add: txn_wf_def Txn_Put_def)

lemma txn_wf_Delete [mvcc_inv]: "txn_wf t \<Longrightarrow> txn_wf (snd (Txn_Delete s t k))"
  by (auto simp: txn_wf_def Txn_Delete_def case_prod_beta split: option.split)

lemma Txn_Put_fields [simp]:
  "txn_id (snd (Txn_Put t k x)) = txn_id t"
  "snapshot_version (snd (Txn_Put t k x)) = snapshot_version t"
  "txn_state (snd (Txn_Put t k x)) = txn_state t"
  by (simp_all add: Txn_Put_def)

lemma Txn_Delete_fields [simp]:
  "txn_id (snd (Txn_Delete s t k)) = txn_id t"
  "snapshot_version (snd (Txn_Delete s t k)) = snapshot_version t"
  "txn_state (snd (Txn_Delete s t k)) = txn_state t"
  by (auto simp: Txn_Delete_def case_prod_beta split: option.split)

section \<open>Reads and buffered writes\<close>

lemma Txn_Get_view:
  assumes "vs_inv s" "txn_state t = kActive" "k \<noteq> []"
  shows "\<exists>m. Txn_Get s t k out =
    (case txn_view s t k of None \<Rightarrow> (NotFound m, out) | Some x \<Rightarrow> (OK, x))"
  using assms VS_GetAsOf_visible [OF assms(1,3), of "snapshot_version t" out]
  by (auto simp: Txn_Get_def txn_view_def split: option.split)

lemma Txn_Put_view:
  assumes "txn_state t = kActive" "k \<noteq> []"
  shows "fst (Txn_Put t k x) = OK"
    and "txn_view s (snd (Txn_Put t k x)) = (txn_view s t)(k \<mapsto> x)"
  using assms by (auto simp: Txn_Put_def txn_view_def fun_eq_iff split: option.split)

lemma Txn_Delete_view:
  assumes "vs_inv s" "txn_state t = kActive" "k \<noteq> []"
  shows "if txn_view s t k = None then \<exists>m. Txn_Delete s t k = (NotFound m, t)
    else fst (Txn_Delete s t k) = OK \<and>
      txn_view s (snd (Txn_Delete s t k)) = (txn_view s t)(k := None)"
  using assms(2,3) VS_GetAsOf_visible [OF assms(1,3), of "snapshot_version t" "''''"]
  by (auto simp: Txn_Delete_def txn_view_def fun_eq_iff split: option.splits)

text \<open>A transaction is a private key-value map that starts as its snapshot.\<close>

definition buf_put :: "VersionStore \<times> Transaction \<Rightarrow> key \<Rightarrow> val \<Rightarrow>
    Status \<times> VersionStore \<times> Transaction" where
  "buf_put st k x = (fst (Txn_Put (snd st) k x), fst st, snd (Txn_Put (snd st) k x))"

definition buf_get :: "VersionStore \<times> Transaction \<Rightarrow> key \<Rightarrow> val \<Rightarrow> Status \<times> val" where
  "buf_get st k out = Txn_Get (fst st) (snd st) k out"

definition buf_delete :: "VersionStore \<times> Transaction \<Rightarrow> key \<Rightarrow>
    Status \<times> VersionStore \<times> Transaction" where
  "buf_delete st k =
     (fst (Txn_Delete (fst st) (snd st) k), fst st, snd (Txn_Delete (fst st) (snd st) k))"

definition buf_ready :: "nat \<Rightarrow> VersionStore \<times> Transaction \<Rightarrow> bool" where
  "buf_ready n st \<longleftrightarrow> vs_inv (fst st) \<and> txn_wf (snd st) \<and> txn_state (snd st) = kActive"

lemmas buf_defs = buf_put_def buf_get_def buf_delete_def buf_ready_def

lemma Txn_empty_key:
  assumes "txn_wf t" "txn_state t = kActive"
  shows "Txn_Put t [] x = (InvalidArgument ''key must not be empty'', t)"
    and "Txn_Get s t [] out = (InvalidArgument ''key must not be empty'', out)"
    and "Txn_Delete s t [] = (InvalidArgument ''key must not be empty'', t)"
  using assms by (simp_all add: Txn_Put_def Txn_Get_def Txn_Delete_def txn_wf_def)

interpretation buf: kv_api buf_put buf_get buf_delete "\<lambda>st. txn_view (fst st) (snd st)" buf_ready
proof unfold_locales
  fix n st k and v out :: val
  assume "buf_ready n st"
  then have ok: "vs_inv (fst st)" "txn_wf (snd st)" "txn_state (snd st) = kActive"
    by (simp_all add: buf_ready_def)
  show "\<exists>m. buf_put st [] v = (InvalidArgument m, st)" "\<exists>m. buf_get st [] out = (InvalidArgument m, out)"
    "\<exists>m. buf_delete st [] = (InvalidArgument m, st)"
    using ok by (simp_all add: buf_defs Txn_empty_key)
  assume k: "k \<noteq> ([] :: key)"
  note get = Txn_Get_view [OF ok(1,3) k, of out] and del = Txn_Delete_view [OF ok(1,3) k]
  show "buf_get st k out = (OK, v)" if "txn_view (fst st) (snd st) k = Some v"
    using get that by (auto simp: buf_defs)
  show "\<exists>m. buf_get st k out = (NotFound m, out)" if "txn_view (fst st) (snd st) k = None"
    using get that by (auto simp: buf_defs)
  show "\<exists>m. buf_delete st k = (NotFound m, st)" if "txn_view (fst st) (snd st) k = None"
    using del that by (auto simp: buf_defs)
next
  fix n st k and v :: val
  assume "buf_ready (Suc n) st" and k: "k \<noteq> ([] :: key)"
  then have ok: "vs_inv (fst st)" "txn_wf (snd st)" "txn_state (snd st) = kActive"
    by (simp_all add: buf_ready_def)
  show "\<exists>s'. buf_put st k v = (OK, s') \<and>
      txn_view (fst s') (snd s') = (txn_view (fst st) (snd st))(k \<mapsto> v) \<and> buf_ready n s'"
    using ok by (simp add: buf_defs Txn_Put_view [OF ok(3) k] txn_wf_Put)
  show "\<exists>s'. buf_delete st k = (OK, s') \<and>
      txn_view (fst s') (snd s') = (txn_view (fst st) (snd st))(k := None) \<and> buf_ready n s'"
    if "txn_view (fst st) (snd st) k = Some v"
    using Txn_Delete_view [OF ok(1,3) k] ok that by (simp add: buf_defs txn_wf_Delete)
qed (simp add: buf_ready_def)

section \<open>Begin, Commit, Abort\<close>

lemma ops_of_simps [simp]:
  "ops_of ws = [] \<longleftrightarrow> ws = []"
  "map op_key (ops_of ws) = map fst ws"
  "has_empty_key (ops_of ws) \<longleftrightarrow> um_find ws [] \<noteq> None"
  by (auto simp: ops_of_def has_empty_key_def list_ex_iff um_find_def map_of_eq_None_iff
      case_prod_beta) force+

lemma batch_value_ops_of:
  assumes "um_wf ws"
  shows "batch_value (ops_of ws) k = um_find ws k"
proof (cases "um_find ws k")
  case None
  then have "k \<notin> op_key ` set (ops_of ws)"
    by (force simp: um_find_def map_of_eq_None_iff ops_of_def)
  with None show ?thesis
    by (metis batch_value_eq_None_iff)
next
  case (Some x)
  have "filter (\<lambda>op. op_key op = k) (ops_of ws) = [\<lparr>op_key = k, op_value = x\<rparr>]"
    using assms Some
  proof (induction ws)
    case (Cons kx ws)
    then show ?case
      by (cases kx) (force simp: um_wf_Cons ops_of_def filter_empty_conv um_find_def
          map_of_eq_None_iff split: if_splits)
  qed simp
  with Some show ?thesis by (simp add: batch_value_def)
qed

text \<open>The written keys that somebody else committed after the snapshot.\<close>

definition txn_conflicts :: "VersionStore \<Rightarrow> Transaction \<Rightarrow> key list" where
  "txn_conflicts s t =
     filter (newer_than (vs_table s) (snapshot_version t)) (map fst (write_set t))"

lemma find_conflicts_txn:
  "find_conflicts (vs_table s) (snapshot_version t) (ops_of (write_set t)) = txn_conflicts s t"
  by (simp add: find_conflicts_filter txn_conflicts_def)

lemma Txn_Commit_inactive:
  "txn_state t \<noteq> kActive \<Longrightarrow>
   Txn_Commit w t ov ok = (InvalidArgument ''transaction is not active'', w, t, ov, ok)"
  by (simp add: Txn_Commit_def)

lemma Txn_Commit_readonly:
  "txn_state t = kActive \<Longrightarrow> write_set t = [] \<Longrightarrow>
   Txn_Commit w t ov ok =
     (OK, w_unregister w t, t\<lparr>txn_state := kCommitted\<rparr>, write_out ov (snapshot_version t), ok)"
  by (simp add: Txn_Commit_def)

lemma Txn_Commit_ok:
  "txn_state t = kActive \<Longrightarrow> write_set t \<noteq> [] \<Longrightarrow> txn_wf t \<Longrightarrow> txn_conflicts (w_store w) t = [] \<Longrightarrow>
   Txn_Commit w t ov ok =
     (OK, w_unregister (w\<lparr>w_store := vs_commit (w_store w) (ops_of (write_set t))\<rparr>) t,
      t\<lparr>txn_state := kCommitted\<rparr>, write_out ov (next_version (w_store w)), ok)"
  by (simp add: Txn_Commit_def VS_ABINC_commit find_conflicts_txn txn_wf_def)

lemma Txn_Commit_conflict:
  assumes "txn_state t = kActive" "txn_wf t" "txn_conflicts (w_store w) t \<noteq> []"
  shows "\<exists>m. Txn_Commit w t ov ok =
     (Conflict m, w_unregister w t, t\<lparr>write_set := [], txn_state := kAborted\<rparr>, ov,
      write_out ok (txn_conflicts (w_store w) t))"
proof -
  have "write_set t \<noteq> []"
    using assms(3) by (auto simp: txn_conflicts_def)
  then show ?thesis
    using assms VS_ABINC_conflict [of "ops_of (write_set t)" "w_store w" "snapshot_version t" "Some 0" ok]
    by (auto simp: Txn_Commit_def find_conflicts_txn txn_wf_def)
qed

text \<open>Every outcome of the commit of an active transaction, in one statement.\<close>

lemma Txn_Commit_cases:
  assumes "txn_state t = kActive" "txn_wf t"
  obtains store' where "fst (snd (Txn_Commit w t ov ok)) = w_unregister (w\<lparr>w_store := store'\<rparr>) t"
    and "txn_state (fst (snd (snd (Txn_Commit w t ov ok)))) \<noteq> kActive"
    and "txn_id (fst (snd (snd (Txn_Commit w t ov ok)))) = txn_id t"
    and "store' = w_store w \<or> store' = vs_commit (w_store w) (ops_of (write_set t))"
proof (cases "txn_conflicts (w_store w) t = []")
  case True
  show ?thesis
    using that [of "w_store w"] that [of "vs_commit (w_store w) (ops_of (write_set t))"]
      Txn_Commit_readonly [OF assms(1), of w ov ok] Txn_Commit_ok [OF assms(1) _ assms(2) True, of ov ok]
    by (cases "write_set t = []") simp_all
next
  case False
  from Txn_Commit_conflict [OF assms False, of ov ok] that [of "w_store w"] show ?thesis
    by auto
qed

lemma Txn_Commit_OK_D:
  assumes "fst (Txn_Commit w t ov ok) = OK" "txn_wf t"
  shows "txn_state t = kActive \<and> txn_conflicts (w_store w) t = []"
proof -
  have act: "txn_state t = kActive"
    using assms(1) Txn_Commit_inactive [of t w ov ok] by (cases "txn_state t = kActive") auto
  then show ?thesis
    using Txn_Commit_conflict [OF act assms(2), of w ov ok] assms(1)
    by (cases "txn_conflicts (w_store w) t = []") auto
qed

lemma w_unregister_simps [simp]:
  "w_store (w_unregister w t) = w_store w"
  "w_mgr (w_unregister w t) = Unregister (w_mgr w) (txn_id t)"
  by (simp_all add: w_unregister_def)

lemma Unregister_next [simp]: "next_txn_id (Unregister m i) = next_txn_id m"
  by (simp add: Unregister_def Let_def)

lemma record_next [simp]: "next_txn_id (record_snapshot m i v) = next_txn_id m"
  by (simp add: record_snapshot_def Let_def)

lemma Begin_spec:
  assumes "tm_wf (w_mgr w)"
  shows "fst (Begin w) = new_Transaction (next_txn_id (w_mgr w)) (VS_CurrentVersion (w_store w))"
    and "w_store (snd (Begin w)) = w_store w"
    and "tm_wf (w_mgr (snd (Begin w)))"
    and "next_txn_id (w_mgr (snd (Begin w))) = next_txn_id (w_mgr w) + 1"
    and "active_snapshots (w_mgr (snd (Begin w))) =
      (active_snapshots (w_mgr w))(next_txn_id (w_mgr w) \<mapsto> VS_CurrentVersion (w_store w))"
proof -
  have wf: "tm_wf (w_mgr w\<lparr>next_txn_id := n\<rparr>)" for n
    using assms by (simp add: tm_wf_def)
  have act: "active_snapshots (m\<lparr>next_txn_id := n\<rparr>) = active_snapshots m" for m n
    by (rule ext) (simp add: active_snapshots_def)
  show "active_snapshots (w_mgr (snd (Begin w))) =
      (active_snapshots (w_mgr w))(next_txn_id (w_mgr w) \<mapsto> VS_CurrentVersion (w_store w))"
    using wf by (simp add: Begin_def fetch_txn_id_def Let_def active_record mvcc_inv act)
  show "tm_wf (w_mgr (snd (Begin w)))"
    using wf by (simp add: Begin_def fetch_txn_id_def Let_def mvcc_inv)
qed (simp_all add: Begin_def fetch_txn_id_def Let_def)

lemma w_inv_Begin [mvcc_inv]:
  assumes "w_inv w" "next_txn_id (w_mgr w) + 1 \<noteq> 0"
  shows "w_inv (snd (Begin w))"
proof -
  have wf: "tm_wf (w_mgr w)"
    using assms by (simp add: w_inv_iff)
  show ?thesis
    using assms u64_less_succ [OF assms(2)]
    by (auto simp: w_inv_iff Begin_spec [OF wf] intro: order.strict_trans)
qed

lemma w_inv_unregister [mvcc_inv]: "w_inv w \<Longrightarrow> w_inv (w_unregister w t)"
  by (auto simp: w_inv_iff mvcc_inv active_Unregister)

lemma w_inv_store_commit [mvcc_inv]:
  assumes "w_inv w" "next_version (w_store w) + 1 \<noteq> 0" "\<not> has_empty_key ops"
  shows "w_inv (w\<lparr>w_store := vs_commit (w_store w) ops\<rparr>)"
proof -
  have inv: "vs_inv (w_store w)" and inv': "vs_inv (vs_commit (w_store w) ops)"
    using assms by (simp_all add: w_inv_iff vs_inv_commit)
  have "v \<le> VS_CurrentVersion (vs_commit (w_store w) ops)"
    if "v \<le> VS_CurrentVersion (w_store w)" for v
    using that assms(2) u64_less_succ [OF assms(2)]
    unfolding CurrentVersion_le_iff [OF inv] CurrentVersion_le_iff [OF inv'] by simp
  with assms(1) inv' show ?thesis
    by (auto simp: w_inv_iff simp del: vs_commit_current)
qed

lemma w_inv_Commit [mvcc_inv]:
  assumes "w_inv w" "txn_wf t" "next_version (w_store w) + 1 \<noteq> 0"
  shows "w_inv (fst (snd (Txn_Commit w t ov ok)))"
proof (cases "txn_state t = kActive")
  case False
  with assms show ?thesis by (simp add: Txn_Commit_inactive)
next
  case True
  show ?thesis
  proof (cases "txn_conflicts (w_store w) t = []")
    case True
    with \<open>txn_state t = kActive\<close> assms show ?thesis
      by (cases "write_set t = []")
        (simp_all add: Txn_Commit_readonly Txn_Commit_ok mvcc_inv txn_wf_def)
  next
    case False
    with \<open>txn_state t = kActive\<close> assms show ?thesis
      using Txn_Commit_conflict [of t w ov ok] by (auto simp: mvcc_inv)
  qed
qed

lemma w_inv_Abort [mvcc_inv]: "w_inv w \<Longrightarrow> w_inv (fst (snd (Txn_Abort w t)))"
  by (simp add: Txn_Abort_def mvcc_inv)

lemma w_inv_destroy [mvcc_inv]: "w_inv w \<Longrightarrow> w_inv (Txn_destroy w t)"
  by (simp add: Txn_destroy_def mvcc_inv)

section \<open>Fresh and finished transactions\<close>

text \<open>A transaction whose snapshot is the current version has no conflict.\<close>

lemma no_conflict_at_current:
  "vs_inv s \<Longrightarrow> snapshot_version t = VS_CurrentVersion s \<Longrightarrow> txn_conflicts s t = []"
  by (auto simp: txn_conflicts_def filter_empty_conv dest: newer_than_le_current)

lemma Begin_active [simp]: "txn_state (fst (Begin w)) = kActive" "txn_wf (fst (Begin w))"
  by (simp_all add: Begin_def Let_def case_prod_beta) (simp add: new_Transaction_def)

lemma new_Transaction_simps [simp]:
  "txn_id (new_Transaction i v) = i" "snapshot_version (new_Transaction i v) = v"
  "txn_state (new_Transaction i v) = kActive" "write_set (new_Transaction i v) = []"
  by (simp_all add: new_Transaction_def)

text \<open>Finishing and destroying a transaction removes its entry and nothing else.\<close>

lemma abort_destroy_registry:
  assumes "tm_wf (w_mgr w)" "Txn_Abort w t = (st, w', t')"
  shows "tm_wf (w_mgr (Txn_destroy w' t'))"
    "active_snapshots (w_mgr (Txn_destroy w' t')) =
       (if txn_state t = kActive then (active_snapshots (w_mgr w))(txn_id t := None)
        else active_snapshots (w_mgr w))"
  using assms by (auto simp: Txn_Abort_def Txn_destroy_def mvcc_inv active_Unregister split: if_splits)

lemma commit_destroy_registry:
  assumes "tm_wf (w_mgr w)" "txn_wf t" "Txn_Commit w t ov ok = (st, w', t', ov', ok')"
  shows "tm_wf (w_mgr (Txn_destroy w' t'))"
    "active_snapshots (w_mgr (Txn_destroy w' t')) =
       (if txn_state t = kActive then (active_snapshots (w_mgr w))(txn_id t := None)
        else active_snapshots (w_mgr w))"
proof -
  have "tm_wf (w_mgr (Txn_destroy w' t')) \<and> active_snapshots (w_mgr (Txn_destroy w' t')) =
       (if txn_state t = kActive then (active_snapshots (w_mgr w))(txn_id t := None)
        else active_snapshots (w_mgr w))"
  proof (cases "txn_state t = kActive")
    case True
    from True assms(2) show ?thesis
      by (cases rule: Txn_Commit_cases [of t w ov ok])
        (use assms True in \<open>auto simp: Txn_destroy_def mvcc_inv active_Unregister\<close>)
  qed (use assms Txn_Commit_inactive [of t w ov ok] in \<open>auto simp: Txn_destroy_def\<close>)
  then show "tm_wf (w_mgr (Txn_destroy w' t'))"
    "active_snapshots (w_mgr (Txn_destroy w' t')) =
       (if txn_state t = kActive then (active_snapshots (w_mgr w))(txn_id t := None)
        else active_snapshots (w_mgr w))" by auto
qed

end
