(* ===== verification/Retry.thy ===== *)
theory Retry
  imports Transactions
begin

text \<open>
  \<open>RunWithRetry\<close> (\<open>include/mvcc/transaction.h\<close>, \<open>src/transaction.cpp\<close>): a body is run in a
  fresh transaction until its commit does not conflict. The body is a parameter; it may
  return a status or throw.
\<close>

section \<open>The loop\<close>

text \<open>
  The body \<open>fn\<close> gets the transaction by reference and may do anything else to the world, in
  particular run other transactions to completion. It returns a status or throws (\<open>None\<close>).
  The loop counter is \<open>max_attempts - attempt\<close>.
\<close>

type_synonym txn_body = "World \<Rightarrow> Transaction \<Rightarrow> Status option \<times> World \<times> Transaction"

text \<open>One iteration: \<open>Inl (Some st)\<close> is a \<open>return\<close>, \<open>Inl None\<close> an exception that leaves the
  function, \<open>Inr\<close> the conflict status with which the loop goes on. The \<open>unique_ptr\<close> is
  destroyed at the end of the iteration in every case, by the unwinding if the body throws.\<close>

definition retry_attempt :: "txn_body \<Rightarrow> World \<Rightarrow> (Status option + Status) \<times> World" where
  "retry_attempt fn w =
     (let (t, w1) = Begin w;
          (body_status, w2, t2) = fn w1 t
      in case body_status of
           None \<Rightarrow> (Inl None, Txn_destroy w2 t2)
         | Some st \<Rightarrow>
             if \<not> st_ok st
             then let (_, w3, t3) = Txn_Abort w2 t2 in (Inl (Some st), Txn_destroy w3 t3)
             else
               let (commit_status, w3, t3, _, _) = Txn_Commit w2 t2 None None in
               if st_ok commit_status then (Inl (Some OK), Txn_destroy w3 t3)
               else if \<not> is_conflict commit_status then (Inl (Some commit_status), Txn_destroy w3 t3)
               else (Inr commit_status, Txn_destroy w3 t3))"

primrec retry_loop :: "txn_body \<Rightarrow> nat \<Rightarrow> World \<Rightarrow> Status \<Rightarrow> Status option \<times> World" where
  "retry_loop fn 0 w last_status = (Some last_status, w)"
| "retry_loop fn (Suc n) w last_status =
     (case retry_attempt fn w of
        (Inl st, w') \<Rightarrow> (st, w')
      | (Inr conflict, w') \<Rightarrow> retry_loop fn n w' conflict)"

definition RunWithRetry :: "World \<Rightarrow> txn_body \<Rightarrow> int \<Rightarrow> Status option \<times> World" where
  "RunWithRetry w fn max_attempts =
     (if max_attempts \<le> 0 then (Some (InvalidArgument ''max_attempts must be positive''), w)
      else retry_loop fn (nat max_attempts) w OK)"

section \<open>How the loop ends\<close>

text \<open>The world at the start of the \<open>i\<close>-th attempt, if all earlier ones ran.\<close>

primrec attempt_world :: "txn_body \<Rightarrow> World \<Rightarrow> nat \<Rightarrow> World" where
  "attempt_world fn w 0 = w"
| "attempt_world fn w (Suc i) = attempt_world fn (snd (retry_attempt fn w)) i"

text \<open>The loop ends with the outcome of one attempt: all earlier ones ended in a commit
  conflict, and it is the last one allowed or did not conflict itself.\<close>

lemma retry_loop_exit:
  assumes "0 < n"
  shows "\<exists>i<n. (\<forall>j<i. \<exists>c. fst (retry_attempt fn (attempt_world fn w j)) = Inr c)
    \<and> (Suc i < n \<longrightarrow> (\<exists>st. fst (retry_attempt fn (attempt_world fn w i)) = Inl st))
    \<and> retry_loop fn n w l =
        (case retry_attempt fn (attempt_world fn w i) of
           (Inl st, w') \<Rightarrow> (st, w') | (Inr c, w') \<Rightarrow> (Some c, w'))"
  using assms
proof (induction n arbitrary: w l)
  case (Suc n)
  obtain r w' where att: "retry_attempt fn w = (r, w')" by fastforce
  show ?case
  proof (cases "(\<exists>st. r = Inl st) \<or> n = 0")
    case True
    with att show ?thesis
      by (intro exI [of _ 0]) (auto split: sum.split)
  next
    case False
    then obtain c where c: "r = Inr c" and n: "0 < n"
      by (cases r) auto
    from Suc.IH [OF n, of w' c] obtain i where i: "i < n"
      "\<forall>j<i. \<exists>c. fst (retry_attempt fn (attempt_world fn w' j)) = Inr c"
      "Suc i < n \<longrightarrow> (\<exists>st. fst (retry_attempt fn (attempt_world fn w' i)) = Inl st)"
      "retry_loop fn n w' c = (case retry_attempt fn (attempt_world fn w' i) of
           (Inl st, w') \<Rightarrow> (st, w') | (Inr c, w') \<Rightarrow> (Some c, w'))"
      by blast
    then show ?thesis
      using att c by (intro exI [of _ "Suc i"]) (auto simp: less_Suc_eq_0_disj)
  qed
qed simp

text \<open>
  A body that works on its own transaction only: the world is left alone, the transaction
  stays active and keeps its identity.
\<close>

definition local_body :: "txn_body \<Rightarrow> bool" where
  "local_body fn \<longleftrightarrow>
     (\<forall>w t. txn_wf t \<longrightarrow> txn_state t = kActive \<longrightarrow>
        (let (st, w', t') = fn w t in
         w' = w \<and> txn_wf t' \<and> txn_state t' = kActive \<and> txn_id t' = txn_id t \<and>
         snapshot_version t' = snapshot_version t))"

lemma local_bodyD:
  assumes "local_body fn" "txn_wf t" "txn_state t = kActive" "fn w t = (st, w', t')"
  shows "w' = w" "txn_wf t'" "txn_state t' = kActive" "txn_id t' = txn_id t"
    "snapshot_version t' = snapshot_version t"
proof -
  have "let (st, w', t') = fn w t in
      w' = w \<and> txn_wf t' \<and> txn_state t' = kActive \<and> txn_id t' = txn_id t \<and>
      snapshot_version t' = snapshot_version t"
    using assms(1-3) by (simp add: local_body_def)
  with assms(4) show "w' = w" "txn_wf t'" "txn_state t' = kActive" "txn_id t' = txn_id t"
    "snapshot_version t' = snapshot_version t" by simp_all
qed

lemma retry_attempt_local:
  assumes "local_body fn" "w_inv w" "fn (snd (Begin w)) (fst (Begin w)) = (Some OK, w2, t2)"
  shows "fst (retry_attempt fn w) = Inl (Some OK)"
    and "w_store (snd (retry_attempt fn w)) =
      (if write_set t2 = [] then w_store w else vs_commit (w_store w) (ops_of (write_set t2)))"
proof -
  have wf: "tm_wf (w_mgr w)" and inv: "vs_inv (w_store w)"
    using assms(2) by (simp_all add: w_inv_iff)
  note loc = local_bodyD [OF assms(1) _ _ assms(3), simplified]
  have nc: "txn_conflicts (w_store w2) t2 = []"
    using loc(1,5) inv
    by (intro no_conflict_at_current) (simp_all add: Begin_spec [OF wf])
  have "fst (retry_attempt fn w) = Inl (Some OK) \<and>
      w_store (snd (retry_attempt fn w)) =
      (if write_set t2 = [] then w_store w else vs_commit (w_store w) (ops_of (write_set t2)))"
    using assms(3) loc nc Txn_Commit_readonly [of t2 w2 None None]
      Txn_Commit_ok [of t2 w2 None None]
    by (cases "write_set t2 = []")
      (simp_all add: retry_attempt_def case_prod_beta Txn_destroy_def Begin_spec(2) [OF wf])
  then show "fst (retry_attempt fn w) = Inl (Some OK)"
    "w_store (snd (retry_attempt fn w)) =
      (if write_set t2 = [] then w_store w else vs_commit (w_store w) (ops_of (write_set t2)))"
    by blast+
qed

section \<open>Bodies that clean up after themselves\<close>

text \<open>The body may commit other transactions, change the store and even finish the
  transaction it was given, but it leaves no registration behind: the registry is as it was,
  without the given transaction if that is finished.\<close>

definition tidy_body :: "txn_body \<Rightarrow> bool" where
  "tidy_body fn \<longleftrightarrow>
     (\<forall>w t. tm_wf (w_mgr w) \<longrightarrow> txn_wf t \<longrightarrow> txn_state t = kActive \<longrightarrow>
        (let (st, w', t') = fn w t in
         tm_wf (w_mgr w') \<and> txn_wf t' \<and> txn_id t' = txn_id t \<and>
         active_snapshots (w_mgr w') =
           (if txn_state t' = kActive then active_snapshots (w_mgr w)
            else (active_snapshots (w_mgr w))(txn_id t := None))))"

lemma tidy_bodyD:
  assumes "tidy_body fn" "tm_wf (w_mgr w)" "txn_wf t" "txn_state t = kActive" "fn w t = (st, w', t')"
  shows "tm_wf (w_mgr w')" "txn_wf t'" "txn_id t' = txn_id t"
    "active_snapshots (w_mgr w') =
       (if txn_state t' = kActive then active_snapshots (w_mgr w)
        else (active_snapshots (w_mgr w))(txn_id t := None))"
proof -
  have "let (st, w', t') = fn w t in
      tm_wf (w_mgr w') \<and> txn_wf t' \<and> txn_id t' = txn_id t \<and>
      active_snapshots (w_mgr w') =
        (if txn_state t' = kActive then active_snapshots (w_mgr w)
         else (active_snapshots (w_mgr w))(txn_id t := None))"
    using assms(1-4) by (simp add: tidy_body_def)
  with assms(5) show "tm_wf (w_mgr w')" "txn_wf t'" "txn_id t' = txn_id t"
    "active_snapshots (w_mgr w') =
       (if txn_state t' = kActive then active_snapshots (w_mgr w)
        else (active_snapshots (w_mgr w))(txn_id t := None))" by simp_all
qed

lemma retry_attempt_registry:
  assumes "tidy_body fn" "tm_wf (w_mgr w)"
  shows "tm_wf (w_mgr (snd (retry_attempt fn w))) \<and>
    active_snapshots (w_mgr (snd (retry_attempt fn w))) =
      (active_snapshots (w_mgr w))(next_txn_id (w_mgr w) := None)"
proof -
  obtain t w1 where b: "Begin w = (t, w1)" by fastforce
  obtain st w2 t2 where f: "fn w1 t = (st, w2, t2)" by (cases "fn w1 t") auto
  note B = Begin_spec [OF assms(2), unfolded b, simplified]
  have t: "txn_wf t" "txn_state t = kActive" "txn_id t = next_txn_id (w_mgr w)"
    using Begin_active [of w] B(1) by (simp_all add: b new_Transaction_def)
  note D = tidy_bodyD [OF assms(1) B(3) t(1,2) f]
  have "?thesis" if "st = None"
    using that by (auto simp: retry_attempt_def b f Txn_destroy_def D t B(5) mvcc_inv active_Unregister)
  moreover have "?thesis" if "st = Some s" "\<not> st_ok s" for s
  proof -
    obtain a w3 t3 where "Txn_Abort w2 t2 = (a, w3, t3)" by (cases "Txn_Abort w2 t2") auto
    with that abort_destroy_registry [OF D(1) this] show ?thesis
      by (simp add: retry_attempt_def b f D t B(5))
  qed
  moreover have "?thesis" if "st = Some s" "st_ok s" for s
  proof -
    obtain c w3 t3 x y where "Txn_Commit w2 t2 None None = (c, w3, t3, x, y)"
      by (cases "Txn_Commit w2 t2 None None") auto
    with that commit_destroy_registry [OF D(1,2) this] show ?thesis
      by (simp add: retry_attempt_def b f D t B(5))
  qed
  ultimately show ?thesis
    by (cases st) auto
qed

lemma retry_loop_registry:
  assumes "tidy_body fn" "tm_wf (w_mgr w)"
  shows "active_snapshots (w_mgr (snd (retry_loop fn n w l))) \<subseteq>\<^sub>m active_snapshots (w_mgr w)"
  using assms(2)
proof (induction n arbitrary: w l)
  case (Suc n)
  have step: "tm_wf (w_mgr (snd (retry_attempt fn w)))"
    "active_snapshots (w_mgr (snd (retry_attempt fn w))) \<subseteq>\<^sub>m active_snapshots (w_mgr w)"
    using retry_attempt_registry [OF assms(1) Suc.prems] by (auto simp: map_le_def)
  show ?case
    using step(2) map_le_trans [OF Suc.IH [OF step(1)] step(2)]
    by (auto split: prod.split sum.split)
qed simp

section \<open>Progress\<close>

text \<open>A body that only moves the store forward: others may commit while it runs, and the
  transaction it was given keeps its snapshot.\<close>

definition forward_body :: "txn_body \<Rightarrow> bool" where
  "forward_body fn \<longleftrightarrow>
     (\<forall>w t. vs_inv (w_store w) \<longrightarrow> txn_wf t \<longrightarrow> txn_state t = kActive \<longrightarrow>
        (let (st, w', t') = fn w t in
         vs_inv (w_store w') \<and> txn_wf t' \<and> snapshot_version t' = snapshot_version t \<and>
         VS_CurrentVersion (w_store w) \<le> VS_CurrentVersion (w_store w')))"

lemma forward_bodyD:
  assumes "forward_body fn" "vs_inv (w_store w)" "txn_wf t" "txn_state t = kActive" "fn w t = (st, w', t')"
  shows "vs_inv (w_store w')" "txn_wf t'" "snapshot_version t' = snapshot_version t"
    "VS_CurrentVersion (w_store w) \<le> VS_CurrentVersion (w_store w')"
proof -
  have "let (st, w', t') = fn w t in
      vs_inv (w_store w') \<and> txn_wf t' \<and> snapshot_version t' = snapshot_version t \<and>
      VS_CurrentVersion (w_store w) \<le> VS_CurrentVersion (w_store w')"
    using assms(1-4) by (simp add: forward_body_def)
  with assms(5) show "vs_inv (w_store w')" "txn_wf t'" "snapshot_version t' = snapshot_version t"
    "VS_CurrentVersion (w_store w) \<le> VS_CurrentVersion (w_store w')" by simp_all
qed

lemma Txn_destroy_store [simp]: "w_store (Txn_destroy w t) = w_store w"
  by (simp add: Txn_destroy_def w_unregister_def)

lemma Txn_Commit_is_conflict:
  assumes "Txn_Commit w t None None = (c, w', t', ov, ok)" "is_conflict c" "txn_wf t"
  shows "w_store w' = w_store w" "txn_conflicts (w_store w) t \<noteq> []"
proof -
  have act: "txn_state t = kActive"
    using assms Txn_Commit_inactive [of t w None None]
    by (cases "txn_state t = kActive") (auto simp: is_conflict_def)
  show nonempty: "txn_conflicts (w_store w) t \<noteq> []"
  proof
    assume "txn_conflicts (w_store w) t = []"
    then have "c = OK"
      using assms Txn_Commit_readonly [OF act, of w None None] Txn_Commit_ok [OF act _ assms(3), of w None None]
      by (cases "write_set t = []") simp_all
    with assms(2) show False by (simp add: is_conflict_def)
  qed
  show "w_store w' = w_store w"
    using Txn_Commit_conflict [OF act assms(3) nonempty, of None None] assms(1)
    by (auto simp: w_unregister_def)
qed

text \<open>An attempt that ends in a conflict leaves a store with a higher version: somebody else
  has committed while it ran.\<close>

lemma conflict_means_commit:
  assumes fwd: "forward_body fn" and inv: "vs_inv (w_store w)"
    and att: "retry_attempt fn w = (Inr c, w')"
  shows "vs_inv (w_store w') \<and> VS_CurrentVersion (w_store w) < VS_CurrentVersion (w_store w')"
proof -
  obtain t w1 where b: "Begin w = (t, w1)" by fastforce
  have t: "txn_wf t" "txn_state t = kActive" "w_store w1 = w_store w"
      "snapshot_version t = VS_CurrentVersion (w_store w)"
    using Begin_active [of w] b by (auto simp: Begin_def Let_def case_prod_beta new_Transaction_def)
  obtain st w2 t2 where f: "fn w1 t = (st, w2, t2)" by (cases "fn w1 t") auto
  note D = forward_bodyD [OF fwd _ t(1,2) f, unfolded t(3), OF inv]
  obtain cs w3 t3 x y where cm: "Txn_Commit w2 t2 None None = (cs, w3, t3, x, y)"
    by (cases "Txn_Commit w2 t2 None None") auto
  have "is_conflict cs" "w' = Txn_destroy w3 t3"
    using att by (auto simp: retry_attempt_def b f cm case_prod_beta split: option.splits if_splits)
  with Txn_Commit_is_conflict [OF cm _ D(2)]
  have store: "w_store w' = w_store w2" and "txn_conflicts (w_store w2) t2 \<noteq> []" by simp_all
  then obtain k where "newer_than (vs_table (w_store w2)) (snapshot_version t2) k"
    by (auto simp: txn_conflicts_def filter_empty_conv)
  from newer_than_le_current [OF D(1) this] show ?thesis
    using D(1,3) store t(4) by simp
qed

lemma attempts_advance:
  assumes "forward_body fn" "vs_inv (w_store w)"
    and "\<And>j. j < i \<Longrightarrow> \<exists>c. fst (retry_attempt fn (attempt_world fn w j)) = Inr c"
  shows "vs_inv (w_store (attempt_world fn w i)) \<and>
    unat (VS_CurrentVersion (w_store w)) + i \<le> unat (VS_CurrentVersion (w_store (attempt_world fn w i)))"
  using assms(2,3)
proof (induction i arbitrary: w)
  case (Suc i)
  obtain c w' where att: "retry_attempt fn w = (Inr c, w')"
    using Suc.prems(2) [of 0] by (cases "retry_attempt fn w") auto
  note step = conflict_means_commit [OF assms(1) Suc.prems(1) att]
  have "\<exists>c. fst (retry_attempt fn (attempt_world fn w' j)) = Inr c" if "j < i" for j
    using Suc.prems(2) [of "Suc j"] that att by simp
  from Suc.IH [OF conjunct1 [OF step] this] step att show ?case
    by (auto simp: word_less_nat_alt)
qed simp

text \<open>If fewer versions appear during the call than attempts are allowed, the call ends with an
  outcome of its own.\<close>

lemma retry_loop_progress:
  assumes "forward_body fn" "vs_inv (w_store w)" "0 < n" "retry_loop fn n w l = (r, w')"
    and "unat (VS_CurrentVersion (w_store w')) < unat (VS_CurrentVersion (w_store w)) + n"
  shows "\<exists>i<n. retry_attempt fn (attempt_world fn w i) = (Inl r, w')"
proof -
  from retry_loop_exit [OF assms(3), of fn w l] obtain i where i: "i < n"
    "\<forall>j<i. \<exists>c. fst (retry_attempt fn (attempt_world fn w j)) = Inr c"
    "Suc i < n \<longrightarrow> (\<exists>st. fst (retry_attempt fn (attempt_world fn w i)) = Inl st)"
    "retry_loop fn n w l = (case retry_attempt fn (attempt_world fn w i) of
       (Inl st, w') \<Rightarrow> (st, w') | (Inr c, w') \<Rightarrow> (Some c, w'))" by blast
  note adv = attempts_advance [OF assms(1,2), of i]
  show ?thesis
  proof (cases "fst (retry_attempt fn (attempt_world fn w i))")
    case (Inl st)
    with i(1,4) assms(4) show ?thesis
      by (intro exI [of _ i]) (auto split: prod.splits)
  next
    case (Inr c)
    then have att: "retry_attempt fn (attempt_world fn w i) = (Inr c, w')" and n: "n = Suc i"
      using i(1,3,4) assms(4) by (auto split: prod.splits)
    from adv i(2) have "vs_inv (w_store (attempt_world fn w i))"
      "unat (VS_CurrentVersion (w_store w)) + i \<le> unat (VS_CurrentVersion (w_store (attempt_world fn w i)))"
      by blast+
    with conflict_means_commit [OF assms(1) _ att] n assms(5) show ?thesis
      by (simp add: word_less_nat_alt)
  qed
qed

end
