(* ===== verification/Garbage_Collector.thy ===== *)
theory Garbage_Collector
  imports Transactions
begin

text \<open>
  \<open>GarbageCollector::RunOnce\<close> and \<open>CumulativeStats\<close> (\<open>include/mvcc/gc.h\<close>,
  \<open>src/gc.cpp\<close>) run without interruption; \<open>Concurrency\<close> interleaves their critical
  sections with transactions.
\<close>

definition RunOnce :: "World \<Rightarrow> GCStats \<Rightarrow> GCStats \<times> World \<times> GCStats" where
  "RunOnce w cumulative_stats =
     (let boundary = OldestActiveSnapshot (w_store w) (w_mgr w);
          (pass_stats, store') = VS_CollectGarbage (w_store w) boundary
      in (pass_stats, w\<lparr>w_store := store'\<rparr>, cumulative_stats + pass_stats))"

definition CumulativeStats :: "GCStats \<Rightarrow> GCStats" where
  "CumulativeStats cumulative_stats = cumulative_stats"

lemma RunOnce_simps [simp]:
  "w_mgr (fst (snd (RunOnce w cs))) = w_mgr w"
  "w_store (fst (snd (RunOnce w cs))) =
     vs_collect (w_store w) (OldestActiveSnapshot (w_store w) (w_mgr w))"
  "snd (snd (RunOnce w cs)) = cs + fst (RunOnce w cs)"
  by (simp_all add: RunOnce_def case_prod_beta vs_collect_def Let_def)

lemma OldestActiveSnapshot_le:
  assumes "w_inv w"
  shows "OldestActiveSnapshot (w_store w) (w_mgr w) \<le> VS_CurrentVersion (w_store w)"
    and "active_snapshots (w_mgr w) i = Some v \<Longrightarrow>
      OldestActiveSnapshot (w_store w) (w_mgr w) \<le> v"
  using assms
  by (auto simp: OldestActiveSnapshot_eq w_inv_iff intro: reg.oldest_le reg.oldest_le_bound)

lemma w_inv_RunOnce [mvcc_inv]: "w_inv w \<Longrightarrow> w_inv (fst (snd (RunOnce w cs)))"
  by (simp add: w_inv_iff vs_collect_def vs_inv_collect)

end
