(* ===== verification/Kv_Store.thy ===== *)
theory Kv_Store
  imports Kv_Interface
begin

text \<open>
  \<open>include/mvcc/kv_store.h\<close> and \<open>src/kv_store.cpp\<close>: the baseline store, an
  \<open>unordered_map\<close> behind one mutex. Every method holds the mutex for all of its access
  to the table, so each is one atomic function on the record.
\<close>

section \<open>State and operations\<close>

record KVStore =
  kv_table :: "(key \<times> val) list"

definition KV_init :: KVStore where
  "KV_init = \<lparr>kv_table = []\<rparr>"

definition KV_Put :: "KVStore \<Rightarrow> key \<Rightarrow> val \<Rightarrow> Status \<times> KVStore" where
  "KV_Put s key value =
     (if key = [] then (InvalidArgument ''key must not be empty'', s)
      else (OK, s\<lparr>kv_table := um_assign (kv_table s) key value\<rparr>))"

definition KV_Get :: "KVStore \<Rightarrow> key \<Rightarrow> val \<Rightarrow> Status \<times> val" where
  "KV_Get s key out_value =
     (if key = [] then (InvalidArgument ''key must not be empty'', out_value)
      else case um_find (kv_table s) key of
        None \<Rightarrow> (NotFound (''key not present: '' @ key), out_value)
      | Some v \<Rightarrow> (OK, v))"

definition KV_Delete :: "KVStore \<Rightarrow> key \<Rightarrow> Status \<times> KVStore" where
  "KV_Delete s key =
     (if key = [] then (InvalidArgument ''key must not be empty'', s)
      else case um_find (kv_table s) key of
        None \<Rightarrow> (NotFound (''key not present: '' @ key), s)
      | Some _ \<Rightarrow> (OK, s\<lparr>kv_table := um_erase (kv_table s) key\<rparr>))"

definition KV_Contains :: "KVStore \<Rightarrow> key \<Rightarrow> bool" where
  "KV_Contains s key \<longleftrightarrow> um_find (kv_table s) key \<noteq> None"

definition KV_Size :: "KVStore \<Rightarrow> nat" where
  "KV_Size s = um_size (kv_table s)"

section \<open>Invariant and interface\<close>

definition kv_inv :: "KVStore \<Rightarrow> bool" where
  "kv_inv s \<longleftrightarrow> um_wf (kv_table s) \<and> um_find (kv_table s) [] = None"

lemmas kv_op_defs = KV_Put_def KV_Get_def KV_Delete_def

lemma kv_inv_init [simp]: "kv_inv KV_init"
  by (simp add: kv_inv_def KV_init_def)

lemma kv_inv_Put [mvcc_inv]: "kv_inv s \<Longrightarrow> kv_inv (snd (KV_Put s k v))"
  by (simp add: kv_inv_def kv_op_defs)

lemma kv_inv_Delete [mvcc_inv]: "kv_inv s \<Longrightarrow> kv_inv (snd (KV_Delete s k))"
  by (simp add: kv_inv_def kv_op_defs split: option.split)

interpretation kv: kv_api KV_Put KV_Get KV_Delete "\<lambda>s. um_find (kv_table s)" "\<lambda>_. kv_inv"
  by unfold_locales
    (auto simp: kv_op_defs kv_inv_def split: option.splits)

lemma KV_Size_Put:
  "kv_inv s \<Longrightarrow> k \<noteq> [] \<Longrightarrow>
   KV_Size (snd (KV_Put s k v)) = (if KV_Contains s k then KV_Size s else Suc (KV_Size s))"
  by (simp add: KV_Size_def KV_Put_def KV_Contains_def kv_inv_def um.size_assign)

lemma KV_Size_Delete:
  "kv_inv s \<Longrightarrow>
   KV_Size (snd (KV_Delete s k)) = (if KV_Contains s k then KV_Size s - 1 else KV_Size s)"
  by (auto simp: KV_Size_def KV_Delete_def KV_Contains_def kv_inv_def um.size_erase
      split: option.split)

end
