(* ===== verification/Store_Properties.thy ===== *)
theory Store_Properties
  imports Kv_Store Version_Store
begin

text \<open>
  The properties of the two stores and of \<open>Status\<close>. Each rests on the lemmas of the
  component theories and on the interpretations \<open>kv\<close>, \<open>vs\<close> and \<open>vs_latest\<close>. The
  concrete store \<open>sample_store\<close> is the one most witnesses evaluate: \<open>k\<close> is put twice
  and deleted, \<open>j\<close> is put once.
\<close>

section \<open>A concrete store\<close>

definition sample_store :: VersionStore where
  "sample_store =
     vs_commit (vs_commit (vs_commit (vs_commit VS_init
       [\<lparr>op_key = ''k'', op_value = Some ''a''\<rparr>])
       [\<lparr>op_key = ''j'', op_value = Some ''x''\<rparr>])
       [\<lparr>op_key = ''k'', op_value = Some ''b''\<rparr>])
       [\<lparr>op_key = ''k'', op_value = None\<rparr>]"

lemma sample_facts:
  "vs_inv sample_store" "next_version sample_store = 5" "VS_CurrentVersion sample_store = 4"
  by code_simp+

lemma sample_ready: "n < 1000 \<Longrightarrow> vs_ready n sample_store"
  by (simp add: vs_ready_def vs_room_def sample_facts)

section \<open>Snapshots and garbage collection\<close>

text \<open>Snapshots are stable. Whatever batches are committed and whatever collections run
  with boundaries at or below \<open>v\<close>, in any order, every key shows at the existing version
  \<open>v\<close> what it showed before.\<close>

lemma snapshot_stable:
  assumes "vs_ready (length (writes_of evs)) s" and "list_all valid_batch (writes_of evs)"
    and "list_all (\<lambda>b. b \<le> v) (boundaries_of evs)" and "v \<le> VS_CurrentVersion s"
  shows "visible (store_run vs_apply vs_collect s evs) k v = visible s k v"
  using vs.run_view_stable [OF assms] by (simp add: store_run_apply [OF assms(2)])

text \<open>C12: Garbage collection is unobservable. Take a run of committed batches and
  collections, and the same run with every collection left out: at every version at or above
  all boundaries used, the two stores show the same values, and a commit whose snapshot is
  such a version is refused on the same keys.\<close>

theorem gc_unobservable:
  assumes "vs_ready (length (writes_of evs)) s" and "list_all valid_batch (writes_of evs)"
    and "list_all (\<lambda>b. b \<le> v) (boundaries_of evs)"
    and "v \<le> w"
  shows "visible (store_run vs_apply vs_collect s evs) k w =
      visible (store_run vs_apply vs_collect s (map Write (writes_of evs))) k w \<and>
    VS_CurrentVersion (store_run vs_apply vs_collect s evs) =
      VS_CurrentVersion (store_run vs_apply vs_collect s (map Write (writes_of evs))) \<and>
    (w \<le> VS_CurrentVersion (store_run vs_apply vs_collect s evs) \<longrightarrow>
      find_conflicts (vs_table (store_run vs_apply vs_collect s evs)) w ops =
      find_conflicts (vs_table (store_run vs_apply vs_collect s (map Write (writes_of evs)))) w ops)"
  using vs.run_agree [OF assms(1,1,2,3) vs.agree_refl] assms(4)
  by (auto simp: store_run_apply assms(2) vs.agree_def find_conflicts_filter intro!: filter_cong)

theorem gc_unobservable_witness:
  "find_conflicts (vs_table (store_run vs_apply vs_collect sample_store
       [Collect 4, Write [\<lparr>op_key = ''j'', op_value = Some ''y''\<rparr>]])) 4
       [\<lparr>op_key = ''k'', op_value = None\<rparr>, \<lparr>op_key = ''j'', op_value = None\<rparr>] =
   find_conflicts (vs_table (store_run vs_apply vs_collect sample_store
       [Write [\<lparr>op_key = ''j'', op_value = Some ''y''\<rparr>]])) 4
       [\<lparr>op_key = ''k'', op_value = None\<rparr>, \<lparr>op_key = ''j'', op_value = None\<rparr>]"
proof -
  let ?evs = "[Collect 4, Write [\<lparr>op_key = ''j'', op_value = Some ''y''\<rparr>]] ::
    (WriteOp list, u64) store_event list"
  have "4 \<le> VS_CurrentVersion (store_run vs_apply vs_collect sample_store ?evs)"
    by code_simp
  moreover have "vs_ready (length (writes_of ?evs)) sample_store"
    "list_all valid_batch (writes_of ?evs)" "list_all (\<lambda>b. b \<le> 4) (boundaries_of ?evs)"
    by (simp_all add: sample_ready valid_batch_def)
  ultimately show ?thesis
    using gc_unobservable [of ?evs sample_store 4 4] by (simp del: find_conflicts.simps)
qed

text \<open>C13: The bisection of \<open>GetAsOf\<close> computes the reference view: on a well-formed store it
  returns the value of the newest entry with a version at most \<open>as_of\<close>, \<open>NotFound\<close> with
  the out-parameter untouched if there is no such entry or it is a tombstone, and
  \<open>InvalidArgument\<close> on the empty key.\<close>

theorem GetAsOf_is_view:
  assumes "vs_inv s"
  shows "snd (VS_GetAsOf s k v out) = (case visible s k v of None \<Rightarrow> out | Some x \<Rightarrow> x) \<and>
    st_code (fst (VS_GetAsOf s k v out)) =
      (if k = [] then kInvalidArgument
       else if visible s k v = None then kNotFound else kOk)"
proof -
  have "visible s [] v = None"
    using vs_inv_empty_key [OF assms] by (simp add: visible_def hist_of_def)
  with VS_GetAsOf_visible [OF assms, of k v out] show ?thesis
    by (cases "k = []"; auto split: option.splits)
qed

theorem GetAsOf_is_view_witness:
  "snd (VS_GetAsOf sample_store ''k'' 3 ''old'') = ''b'' \<and>
   st_code (fst (VS_GetAsOf sample_store ''k'' 4 ''old'')) = kNotFound"
proof -
  have "visible sample_store ''k'' 3 = Some ''b''" "visible sample_store ''k'' 4 = None"
    by code_simp+
  then show ?thesis
    using GetAsOf_is_view [OF sample_facts(1)] by simp
qed



section \<open>What a collection does\<close>

text \<open>C33: The statistics of a collection are exact: the reclaimed versions and removed keys
  it reports are precisely those that are gone from the table (as long as the table holds
  fewer than \<open>2 ^ 64\<close> versions, so that the counters do not wrap).\<close>

theorem gc_stats_exact:
  assumes "vs_inv s" and "total_versions (vs_table s) < 2 ^ 64"
    and "VS_CollectGarbage s b = (stats, s')"
  shows "unat (versions_reclaimed stats) + total_versions (vs_table s') = total_versions (vs_table s)
    \<and> unat (keys_removed stats) + VS_KeyCount s' = VS_KeyCount s"
proof -
  obtain n r where nr:
    "n + total_versions (fst (gc_loop b (vs_table s) 0)) = total_versions (vs_table s)"
    "r + length (fst (gc_loop b (vs_table s) 0)) = length (vs_table s)"
    "snd (gc_loop b (vs_table s) 0) = GCStats (of_nat n) (of_nat r)"
    using gc_loop_counts [OF vs_inv_histories [OF assms(1)], of b 0] by auto
  moreover have "n < 2 ^ 64" "r < 2 ^ 64"
    using nr assms(2) length_le_total_versions [OF vs_inv_histories [OF assms(1)]] by linarith+
  then have "unat (of_nat n :: u64) = n" "unat (of_nat r :: u64) = r"
    by (simp_all add: unat_of_nat take_bit_nat_eq_self)
  moreover have "stats = GCStats (of_nat n) (of_nat r)" "vs_table s' = fst (gc_loop b (vs_table s) 0)"
    using assms(3) nr(3) by (auto simp: VS_CollectGarbage_def case_prod_beta)
  ultimately show ?thesis
    by (simp add: VS_KeyCount_def um_size_def)
qed

theorem gc_stats_exact_witness:
  "fst (VS_CollectGarbage sample_store 4) = GCStats 3 1 \<and>
   unat (versions_reclaimed (fst (VS_CollectGarbage sample_store 4))) +
     total_versions (vs_table (snd (VS_CollectGarbage sample_store 4))) = 4"
proof -
  have "total_versions (vs_table sample_store) = 4" "fst (VS_CollectGarbage sample_store 4) = GCStats 3 1"
    by code_simp+
  then show ?thesis
    using gc_stats_exact [OF sample_facts(1) _ prod.collapse [symmetric], of 4] by simp
qed

text \<open>C34: A collection is complete: of the entries at or below its boundary it leaves at
  most one per key, and a second collection with the same boundary changes nothing and
  reports nothing.\<close>

theorem gc_complete:
  assumes "vs_inv s"
  shows "VS_CollectGarbage (snd (VS_CollectGarbage s b)) b = (0, snd (VS_CollectGarbage s b)) \<and>
    length (filter (\<lambda>e. vv_version e \<le> b) (hist_of (vs_table (snd (VS_CollectGarbage s b))) k)) \<le> 1"
proof
  show "VS_CollectGarbage (snd (VS_CollectGarbage s b)) b = (0, snd (VS_CollectGarbage s b))"
    using gc_loop_idem [OF vs_inv_histories [OF assms], of b 0 0]
    by (simp add: snd_VS_CollectGarbage) (simp add: VS_CollectGarbage_def)
  show "length (filter (\<lambda>e. vv_version e \<le> b)
      (hist_of (vs_table (snd (VS_CollectGarbage s b))) k)) \<le> 1"
  proof (cases "um_find (vs_table s) k")
    case (Some h)
    then show ?thesis
      using gc_history_le_one [of "next_version s" h b] vs_inv_find [OF assms Some]
      by (simp add: hist_of_collect [OF assms] split: option.split)
  qed (simp add: hist_of_collect [OF assms])
qed

theorem gc_complete_witness:
  "VS_CollectGarbage (snd (VS_CollectGarbage sample_store 3)) 3 =
     (0, snd (VS_CollectGarbage sample_store 3)) \<and>
   VS_CollectGarbage sample_store 3 \<noteq> (0, sample_store)"
proof -
  have "fst (VS_CollectGarbage sample_store 3) \<noteq> 0" by code_simp
  then show ?thesis
    using gc_complete [OF sample_facts(1), of 3] by auto
qed

text \<open>The placeholder that \<open>Begin\<close> registers stops every collection: with boundary 0
  nothing is reclaimed, whatever the store holds.\<close>

lemma gc_boundary_zero:
  assumes "vs_inv s"
  shows "VS_CollectGarbage s 0 = (0, s)"
  using gc_loop_0 [OF vs_inv_histories [OF assms]] by (simp add: VS_CollectGarbage_def)

text \<open>\<open>KeyCount\<close> and \<open>VersionCount\<close> do not count what was ever written: a key that is
  put, deleted and collected is no longer counted by either.\<close>

lemma counts_forget_collected_keys:
  "let s1 = fst (snd (VS_Put VS_init ''k'' ''a'' None));
       s2 = fst (snd (VS_Delete s1 ''k'' None));
       s3 = snd (VS_CollectGarbage s2 2)
   in VS_KeyCount s2 = 1 \<and> VS_VersionCount s2 ''k'' = 2 \<and>
      VS_KeyCount s3 = 0 \<and> VS_VersionCount s3 ''k'' = 0"
  by code_simp

section \<open>The stores as key-value maps\<close>

text \<open>C15: The versioned store, read at its latest version, is observationally equivalent to
  the baseline store: any sequence of \<open>Put\<close>, \<open>Get\<close> and \<open>Delete\<close> that leaves the version
  counter below \<open>2 ^ 64\<close> gets the same status codes and the same values from both.\<close>

theorem stores_equivalent:
  assumes "Suc (length ops) < 2 ^ 64"
  shows "kv_run vs_put vs_get vs_delete VS_init ops = kv_run KV_Put KV_Get KV_Delete KV_init ops"
proof -
  have "vs_ready (length ops) VS_init"
    using assms by (simp add: vs_ready_def vs_room_def) (simp add: VS_init_def)
  moreover have "(\<lambda>k. visible VS_init k (VS_CurrentVersion VS_init)) = Map.empty"
    "um_find (kv_table KV_init) = Map.empty"
    by (simp_all add: VS_init_def KV_init_def visible_def hist_of_def um.find_empty)
  ultimately show ?thesis
    using kv.run_is_map_run [OF kv_inv_init, of ops] vs_latest.run_is_map_run [of ops VS_init]
    by simp
qed

theorem stores_equivalent_witness:
  "kv_run vs_put vs_get vs_delete VS_init
     [Op_Put ''k'' ''a'', Op_Delete ''k'', Op_Get ''k'' ''old'', Op_Delete ''k''] =
   [(kOk, None), (kOk, None), (kNotFound, Some ''old''), (kNotFound, None)]"
proof -
  have "kv_run KV_Put KV_Get KV_Delete KV_init
      [Op_Put ''k'' ''a'', Op_Delete ''k'', Op_Get ''k'' ''old'', Op_Delete ''k''] =
    [(kOk, None), (kOk, None), (kNotFound, Some ''old''), (kNotFound, None)]"
    by code_simp
  then show ?thesis
    by (subst stores_equivalent) simp_all
qed

text \<open>\<open>KVStore\<close> is a finite map: any sequence of calls is answered as a plain map with
  the same contents answers it, \<open>Contains\<close> says whether a \<open>Get\<close> succeeds, and \<open>Size\<close>
  is the number of keys it contains.\<close>

lemma KVStore_is_map:
  assumes "kv_inv s"
  shows "kv_run KV_Put KV_Get KV_Delete s ops = map_run (um_find (kv_table s)) ops \<and>
    KV_Size s = card {k. KV_Contains s k} \<and>
    (KV_Contains s k \<longleftrightarrow> st_ok (fst (KV_Get s k out)))"
proof -
  have "KV_Size s = card {k. KV_Contains s k}"
    using assms um.size_dom [of "kv_table s"]
    by (simp add: KV_Size_def kv_inv_def KV_Contains_def dom_def)
  moreover have "KV_Contains s k \<longleftrightarrow> st_ok (fst (KV_Get s k out))"
    using assms by (auto simp: KV_Contains_def KV_Get_def kv_inv_def split: option.split)
  ultimately show ?thesis
    using kv.run_is_map_run [OF assms] by simp
qed

section \<open>Errors and bounds\<close>

text \<open>A write that does not return OK has no effect: the store, the version counter and
  the caller's version variable are as before. The codes are exact: \<open>Put\<close> fails only on
  an empty key, \<open>Delete\<close> also on a key that is absent or deleted, a batch on an empty list
  or an empty key anywhere in it.\<close>

lemma failed_write_has_no_effect:
  assumes "vs_inv s"
  shows "(if k = [] then VS_Put s k x ov = (InvalidArgument ''key must not be empty'', s, ov)
      else fst (VS_Put s k x ov) = OK) \<and>
    (if k = [] then VS_Delete s k ov = (InvalidArgument ''key must not be empty'', s, ov)
      else if visible s k (VS_CurrentVersion s) = None
        then VS_Delete s k ov = (NotFound (''key not present: '' @ k), s, ov)
      else fst (VS_Delete s k ov) = OK) \<and>
    (if ops = [] \<or> has_empty_key ops
      then \<exists>m. VS_ApplyBatch s ops ov = (InvalidArgument m, s, ov) \<and>
        VS_ApplyBatchIfNoConflict s ops snap ov ok = (InvalidArgument m, s, ov, ok)
      else fst (VS_ApplyBatch s ops ov) = OK)"
  using currently_visible_iff [OF assms, of k]
  by (auto simp: mvcc_defs Let_def)

text \<open>The message of a refused batch does not count the conflicts when the caller asks
  for the keys: it says 0, while the reported list is the non-empty list of conflicting
  keys.\<close>

lemma conflict_message_loses_count:
  assumes "ops \<noteq> []" and "\<not> has_empty_key ops"
    and "find_conflicts (vs_table s) snap ops \<noteq> []"
  shows "VS_ApplyBatchIfNoConflict s ops snap ov (Some out_keys) =
    (Conflict ''write-write conflict on 0 key(s)'', s, ov,
     Some (find_conflicts (vs_table s) snap ops))"
proof -
  have "to_string 0 = ''0''" by code_simp
  with assms show ?thesis by (simp add: VS_ApplyBatchIfNoConflict_def Let_def)
qed



text \<open>C38: The printed form identifies a status: two statuses built by the factory functions
  with the same \<open>ToString\<close> are equal.\<close>

theorem ToString_injective:
  assumes "status_wf s" and "status_wf s'" and "ToString s = ToString s'"
  shows "s = s'"
  using assms(1)
proof (cases rule: status_wf_cases)
qed (use assms(2,3) in \<open>cases rule: status_wf_cases; simp add: ToString_factories\<close>)+

theorem ToString_injective_witness:
  "ToString (NotFound ''a'') \<noteq> ToString (NotFound ''b'')"
  using ToString_injective [of "NotFound ''a''" "NotFound ''b''"] by auto

end
