(* ===== verification/Transaction_Properties.thy ===== *)
theory Transaction_Properties
  imports Retry Garbage_Collector Store_Properties
begin

text \<open>
  The properties of transactions, of the registry of active snapshots, of \<open>RunWithRetry\<close>
  and of an uninterrupted garbage collection.
\<close>

section \<open>Concrete worlds\<close>

text \<open>The sample store with one transaction at its current version that has rewritten
  \<open>j\<close>, and the same transaction at the older version 1.\<close>

definition sample_txn :: "u64 \<Rightarrow> Transaction" where
  "sample_txn v = snd (Txn_Put (new_Transaction 1 v) ''j'' ''y'')"

definition sample_world :: World where
  "sample_world =
     \<lparr>w_store = sample_store, w_mgr = record_snapshot (snd (fetch_txn_id TM_init)) 1 1\<rparr>"

lemma sample_world_facts:
  "w_inv sample_world" "w_store sample_world = sample_store"
  "active_snapshots (w_mgr sample_world) 1 = Some 1"
  by code_simp+

lemma sample_txn_facts:
  "txn_state (sample_txn v) = kActive" "txn_wf (sample_txn v)" "snapshot_version (sample_txn v) = v"
  "write_set (sample_txn v) = [(''j'', Some ''y'')]"
  by (simp_all add: sample_txn_def mvcc_inv) (simp add: Txn_Put_def um_assign_def)

lemma sample_conflicts:
  "txn_conflicts sample_store (sample_txn 4) = []"
  "txn_conflicts sample_store (sample_txn 1) = [''j'']"
  by code_simp+

section \<open>Commit\<close>

text \<open>C6: A commit is atomic. If \<open>Commit\<close> returns OK for a transaction that has written
  something, there is one new version \<open>v\<close>, reported to the caller, such that at every
  version below \<open>v\<close> every key is as before, and at every version from \<open>v\<close> on all the
  keys of the write set show what the transaction wrote (deletions included) and all other
  keys are as before. The transaction is committed and no longer registered.\<close>

theorem commit_is_atomic:
  assumes "w_inv w" and "txn_wf t" and "write_set t \<noteq> []"
    and "Txn_Commit w t (Some out) ok = (OK, w', t', ov, ok')"
  shows "ov = Some (next_version (w_store w)) \<and>
    visible (w_store w') k u =
      (if u < next_version (w_store w) then visible (w_store w) k u
       else case um_find (write_set t) k of None \<Rightarrow> visible (w_store w) k u | Some x \<Rightarrow> x) \<and>
    active_snapshots (w_mgr w') = (active_snapshots (w_mgr w))(txn_id t := None) \<and>
    txn_state t' = kCommitted"
proof -
  have act: "txn_state t = kActive" and nc: "txn_conflicts (w_store w) t = []"
    using Txn_Commit_OK_D [OF _ assms(2), of w "Some out" ok] assms(4) by simp_all
  have wf: "um_wf (write_set t)" "tm_wf (w_mgr w)"
    using assms(1,2) by (simp_all add: txn_wf_def w_inv_iff)
  show ?thesis
    using assms(4)
    by (auto simp: Txn_Commit_ok [OF act assms(3,2) nc] active_Unregister wf batch_value_ops_of
        visible_commit_old visible_commit_new not_less)
qed

theorem commit_is_atomic_witness:
  "let w' = fst (snd (Txn_Commit sample_world (sample_txn 4) (Some 0) None))
   in visible (w_store w') ''j'' 5 = Some ''y'' \<and> visible (w_store w') ''j'' 4 = Some ''x''"
proof -
  have "Txn_Commit sample_world (sample_txn 4) (Some 0) None =
    (OK, w_unregister (sample_world\<lparr>w_store := vs_commit sample_store (ops_of (write_set (sample_txn 4)))\<rparr>)
       (sample_txn 4), (sample_txn 4)\<lparr>txn_state := kCommitted\<rparr>, Some (next_version sample_store), None)"
    by (subst Txn_Commit_ok) (simp_all add: sample_txn_facts sample_world_facts sample_conflicts)
  note commit = commit_is_atomic [OF sample_world_facts(1) sample_txn_facts(2) _ this]
  have "visible sample_store ''j'' 4 = Some ''x''" by code_simp
  then show ?thesis
    using commit [of "''j''" 5] commit [of "''j''" 4]
    by (simp add: \<open>Txn_Commit _ _ _ _ = _\<close> sample_txn_facts sample_world_facts sample_facts)
qed

text \<open>C7: First committer wins. Take a transaction whose snapshot is the current version of a
  store, and let any batches be committed and any collections run that respect its snapshot.
  Its commit is then refused exactly if one of those batches wrote one of the keys it wrote,
  the refusal lists exactly those keys, and otherwise the commit succeeds.\<close>

theorem commit_conflicts_exactly:
  assumes "vs_ready (length (writes_of evs)) s" and "list_all valid_batch (writes_of evs)"
    and "snapshot_version t = VS_CurrentVersion s"
    and "list_all (\<lambda>b. b \<le> snapshot_version t) (boundaries_of evs)"
    and "w_store w = store_run vs_apply vs_collect s evs"
    and "txn_state t = kActive" and "txn_wf t"
  shows "let keys = filter (\<lambda>k. list_ex (\<lambda>ops. k \<in> op_key ` set ops) (writes_of evs))
           (map fst (write_set t));
         (st, w', t', ov', ok') = Txn_Commit w t ov (Some out)
    in if keys = [] then st = OK \<and> ok' = Some out
       else is_conflict st \<and> ok' = Some keys \<and> w_store w' = w_store w"
proof -
  let ?keys = "filter (\<lambda>k. list_ex (\<lambda>ops. k \<in> op_key ` set ops) (writes_of evs)) (map fst (write_set t))"
  have inv: "vs_inv s"
    using assms(1) by (simp add: vs_ready_def)
  have "newer_than (vs_table (w_store w)) (snapshot_version t) k \<longleftrightarrow>
      list_ex (\<lambda>ops. k \<in> op_key ` set ops) (writes_of evs)" for k
    using vs.run_changed [OF assms(1,2,4), of k] newer_than_le_current [OF inv, of "snapshot_version t" k]
      assms(3) by (auto simp: assms(5) store_run_apply [OF assms(2)] batch_value_eq_None_iff)
  then have keys: "txn_conflicts (w_store w) t = ?keys"
    by (simp add: txn_conflicts_def cong: filter_cong)
  show ?thesis
  proof (cases "?keys = []")
    case True
    then show ?thesis
      using Txn_Commit_readonly [OF assms(6), of w ov "Some out"]
        Txn_Commit_ok [OF assms(6) _ assms(7), of w ov "Some out"] keys
      by (cases "write_set t = []") (simp_all add: Let_def)
  next
    case False
    then show ?thesis
      using Txn_Commit_conflict [OF assms(6,7), of w ov "Some out"] keys
      by (auto simp: Let_def)
  qed
qed

theorem commit_conflicts_exactly_witness:
  "let w = sample_world\<lparr>w_store := store_run vs_apply vs_collect sample_store
         [Collect 4, Write [\<lparr>op_key = ''i'', op_value = Some ''1''\<rparr>, \<lparr>op_key = ''j'', op_value = None\<rparr>]]\<rparr>;
       (st, w', t', ov', ok') = Txn_Commit w (sample_txn 4) None (Some [])
   in is_conflict st \<and> ok' = Some [''j''] \<and> w_store w' = w_store w"
proof -
  let ?evs = "[Collect 4, Write [\<lparr>op_key = ''i'', op_value = Some ''1''\<rparr>, \<lparr>op_key = ''j'', op_value = None\<rparr>]] ::
    (WriteOp list, u64) store_event list"
  show ?thesis
    using commit_conflicts_exactly [of ?evs sample_store "sample_txn 4"
        "sample_world\<lparr>w_store := store_run vs_apply vs_collect sample_store ?evs\<rparr>" None "[]"]
    by (simp add: sample_ready valid_batch_def sample_facts sample_txn_facts Let_def case_prod_beta)
qed



text \<open>A refused commit changes nothing. If a key of the write set has a version newer
  than the snapshot, \<open>Commit\<close> returns a conflict, the store is untouched, the caller's
  version variable too, the caller's key list receives exactly the conflicting keys, and the
  transaction is aborted, emptied and unregistered.\<close>

lemma conflict_changes_nothing:
  assumes "tm_wf (w_mgr w)" and "txn_state t = kActive" and "txn_wf t"
    and "txn_conflicts (w_store w) t \<noteq> []"
  shows "let (st, w', t', ov', ok') = Txn_Commit w t ov ok
    in is_conflict st \<and> w_store w' = w_store w \<and> ov' = ov \<and>
      ok' = write_out ok (txn_conflicts (w_store w) t) \<and>
      txn_state t' = kAborted \<and> write_set t' = [] \<and>
      active_snapshots (w_mgr w') = (active_snapshots (w_mgr w))(txn_id t := None)"
  using Txn_Commit_conflict [OF assms(2-4), of ov ok] by (auto simp: active_Unregister assms(1))

section \<open>Inside a transaction\<close>

text \<open>C14: A transaction is a private map over its snapshot. Let any batches be committed by
  others and any collections run that respect the snapshot after the transaction began: every
  sequence of \<open>Put\<close>, \<open>Get\<close> and \<open>Delete\<close> on the transaction is answered as a plain map
  would answer it that initially holds the store's contents at the moment of \<open>Begin\<close>.
  In particular it reads its own writes, and nobody else's.\<close>

theorem txn_is_private_map:
  assumes "tm_wf (w_mgr w)" and "vs_ready (length (writes_of evs)) (w_store w)"
    and "list_all valid_batch (writes_of evs)"
    and "list_all (\<lambda>b. b \<le> VS_CurrentVersion (w_store w)) (boundaries_of evs)"
  shows "kv_run buf_put buf_get buf_delete
      (store_run vs_apply vs_collect (w_store w) evs, fst (Begin w)) ops =
    map_run (\<lambda>k. visible (w_store w) k (VS_CurrentVersion (w_store w))) ops"
proof -
  let ?s = "store_run vs_apply vs_collect (w_store w) evs"
  have "vs_inv ?s"
    using vs.run_ok [of evs 0 "w_store w"] assms(2,3) by (simp add: vs_ready_def store_run_apply)
  then have "buf_ready (length ops) (?s, fst (Begin w))"
    by (simp add: buf_ready_def)
  moreover have "txn_view ?s (fst (Begin w)) =
      (\<lambda>k. visible (w_store w) k (VS_CurrentVersion (w_store w)))"
    using vs.run_view_stable [OF assms(2-4) order_refl]
    by (auto simp: store_run_apply [OF assms(3)] txn_view_def Begin_spec [OF assms(1)])
  ultimately show ?thesis
    using buf.run_is_map_run [of ops "(?s, fst (Begin w))"] by simp
qed

theorem txn_is_private_map_witness:
  "kv_run buf_put buf_get buf_delete
     (store_run vs_apply vs_collect sample_store
       [Write [\<lparr>op_key = ''j'', op_value = None\<rparr>]], fst (Begin sample_world))
     [Op_Get ''j'' '''', Op_Put ''j'' ''z'', Op_Get ''j'' '''', Op_Delete ''j'', Op_Delete ''j''] =
   [(kOk, Some ''x''), (kOk, None), (kOk, Some ''z''), (kOk, None), (kNotFound, None)]"
proof -
  have "map_run (\<lambda>k. visible sample_store k (VS_CurrentVersion sample_store))
      [Op_Get ''j'' '''', Op_Put ''j'' ''z'', Op_Get ''j'' '''', Op_Delete ''j'', Op_Delete ''j''] =
    [(kOk, Some ''x''), (kOk, None), (kOk, Some ''z''), (kOk, None), (kNotFound, None)]"
    by code_simp
  then show ?thesis
    using txn_is_private_map [of sample_world "[Write [\<lparr>op_key = ''j'', op_value = None\<rparr>]]"]
      sample_world_facts(1)
    by (simp add: sample_world_facts(2) sample_ready valid_batch_def w_inv_iff
        del: kv_run.simps map_run.simps)
qed

text \<open>C19: A finished transaction is inert. Whatever its outcome, \<open>Commit\<close> or \<open>Abort\<close> of
  an active transaction ends it and removes it from the registry; from then on every
  operation on it returns \<open>InvalidArgument\<close> and changes neither the transaction nor the
  world, and destroying it changes nothing.\<close>

theorem finished_txn_is_inert:
  assumes "tm_wf (w_mgr w)" and "txn_wf t" and "txn_state t = kActive"
    and "(\<exists>st ov' ok'. Txn_Commit w t ov ok = (st, w1, t1, ov', ok')) \<or>
      (\<exists>st. Txn_Abort w t = (st, w1, t1))"
  shows "active_snapshots (w_mgr w1) (txn_id t) = None \<and>
    (let e = InvalidArgument ''transaction is not active'' in
     Txn_Get s t1 k out = (e, out) \<and> Txn_Put t1 k x = (e, t1) \<and> Txn_Delete s t1 k = (e, t1) \<and>
     Txn_Commit w2 t1 ov2 ok2 = (e, w2, t1, ov2, ok2) \<and> Txn_Abort w2 t1 = (e, w2, t1) \<and>
     Txn_destroy w2 t1 = w2)"
proof -
  have "active_snapshots (w_mgr w1) = (active_snapshots (w_mgr w))(txn_id t := None) \<and>
      txn_state t1 \<noteq> kActive"
    using assms(4)
  proof
    assume "\<exists>st ov' ok'. Txn_Commit w t ov ok = (st, w1, t1, ov', ok')"
    then have "w1 = fst (snd (Txn_Commit w t ov ok))" "t1 = fst (snd (snd (Txn_Commit w t ov ok)))"
      by auto
    then show ?thesis
      by (cases rule: Txn_Commit_cases [OF assms(3,2), of w ov ok]) (simp add: active_Unregister assms(1))
  qed (auto simp: Txn_Abort_def assms(1,3) active_Unregister)
  then show ?thesis
    by (simp add: txn_defs Let_def)
qed

theorem finished_txn_is_inert_witness:
  "Txn_Put (fst (snd (snd (Txn_Commit sample_world (sample_txn 1) None None)))) ''k'' ''v'' =
     (InvalidArgument ''transaction is not active'',
      fst (snd (snd (Txn_Commit sample_world (sample_txn 1) None None))))"
proof -
  obtain st w1 t1 ov ok where r: "Txn_Commit sample_world (sample_txn 1) None None = (st, w1, t1, ov, ok)"
    by (metis prod_cases5)
  moreover have "tm_wf (w_mgr sample_world)"
    using sample_world_facts(1) by (simp add: w_inv_iff)
  ultimately show ?thesis
    using finished_txn_is_inert [OF _ sample_txn_facts(2,1), of sample_world 1 None None w1 t1]
    by (simp add: Let_def)
qed

section \<open>The registry and garbage collection\<close>

text \<open>The sixteen shards are one map. \<open>OldestActiveSnapshot\<close>, run without
  interruption, is the minimum of all registered snapshots, or the store's current version if
  no transaction is active, and \<open>ActiveTransactionCount\<close> is the number of registered
  transactions.\<close>

lemma oldest_is_minimum:
  assumes "tm_wf m"
  shows "OldestActiveSnapshot s m =
      (if active_snapshots m = Map.empty then VS_CurrentVersion s else Min (ran (active_snapshots m))) \<and>
    ActiveTransactionCount m = card (dom (active_snapshots m))"
  using reg.oldest_none [OF assms] reg.oldest_Min [OF assms] reg.count_active [OF assms]
  by (simp add: OldestActiveSnapshot_eq)

text \<open>A garbage collection that is not interrupted is invisible to every active
  transaction: at each registered snapshot, and at every later version, every key shows the
  same value and passes or fails the conflict test as before; the registry is untouched and
  the pass is added to the cumulative statistics.\<close>

lemma RunOnce_keeps_snapshots:
  assumes "w_inv w" and "active_snapshots (w_mgr w) i = Some v" and "v \<le> u"
    and "RunOnce w cs = (pass_stats, w', cs')"
  shows "visible (w_store w') k u = visible (w_store w) k u \<and>
    newer_than (vs_table (w_store w')) u k = newer_than (vs_table (w_store w)) u k \<and>
    w_mgr w' = w_mgr w \<and> w_inv w' \<and> CumulativeStats cs' = cs + pass_stats"
proof -
  have "OldestActiveSnapshot (w_store w) (w_mgr w) \<le> u"
    using OldestActiveSnapshot_le(2) [OF assms(1,2)] assms(3) by (rule order_trans)
  moreover have "vs_inv (w_store w)"
    using assms(1) by (simp add: w_inv_iff)
  ultimately show ?thesis
    using RunOnce_simps [of w cs] w_inv_RunOnce [OF assms(1), of cs]
    by (simp add: assms(4) CumulativeStats_def vs_collect_def visible_collect newer_than_collect)
qed



section \<open>RunWithRetry\<close>


text \<open>A body that loses the race twice: in the first two attempts somebody else commits the
  key it writes.\<close>

definition contended_body :: txn_body where
  "contended_body w t =
     (if next_version (w_store w) < 3
      then (Some (fst (Txn_Put t ''k'' ''mine'')),
            w\<lparr>w_store := fst (snd (VS_Put (w_store w) ''k'' ''theirs'' None))\<rparr>,
            snd (Txn_Put t ''k'' ''mine''))
      else (Some (fst (Txn_Put t ''k'' ''mine'')), w, snd (Txn_Put t ''k'' ''mine'')))"

lemma contended_attempts:
  "fst (retry_attempt contended_body World_init) =
     Inr (Conflict ''write-write conflict on 1 key(s)'')"
  "fst (retry_attempt contended_body (attempt_world contended_body World_init 1)) =
     Inr (Conflict ''write-write conflict on 1 key(s)'')"
  "fst (retry_attempt contended_body (attempt_world contended_body World_init 2)) = Inl (Some OK)"
  "fst (RunWithRetry World_init contended_body 3) = Some OK"
  by code_simp+


lemma contended_body_forward: "forward_body contended_body"
proof -
  have "vs_inv (vs_commit s [\<lparr>op_key = ''k'', op_value = Some ''theirs''\<rparr>]) \<and>
      VS_CurrentVersion s \<le> VS_CurrentVersion s + 1"
    if "vs_inv s" "next_version s < 3" for s
  proof -
    have "unat (next_version s) < 3"
      using that(2) by unat_arith
    then have "vs_ready (Suc 0) s"
      using that(1) by (simp add: vs_ready_def vs_room_def)
    from vs_ready_commit [OF this, of "[\<lparr>op_key = ''k'', op_value = Some ''theirs''\<rparr>]"]
      vs.current_commit [OF this, of "[\<lparr>op_key = ''k'', op_value = Some ''theirs''\<rparr>]"]
    show ?thesis
      by (simp add: vs_ready_def valid_batch_def)
  qed
  then show ?thesis
    by (simp add: forward_body_def contended_body_def VS_Put_commit mvcc_inv)
qed

text \<open>C21: \<open>RunWithRetry\<close> makes progress: every attempt that ends in a conflict is paid for by
  somebody else's commit. If the store's version advances during the call by fewer versions
  than attempts are allowed, the call does not run out of attempts: it ends with an attempt
  that did not conflict, and returns that attempt's result. The body may let others commit
  while it runs and may fail or throw.\<close>

theorem RunWithRetry_progress:
  assumes "forward_body fn" and "vs_inv (w_store w)" and "0 < max_attempts"
    and "RunWithRetry w fn max_attempts = (result, w')"
    and "unat (VS_CurrentVersion (w_store w')) <
      unat (VS_CurrentVersion (w_store w)) + nat max_attempts"
  shows "\<exists>i<nat max_attempts. retry_attempt fn (attempt_world fn w i) = (Inl result, w')"
  using assms retry_loop_progress [OF assms(1,2), of "nat max_attempts" OK result w']
  by (simp add: RunWithRetry_def)

theorem RunWithRetry_progress_witness:
  "\<exists>i<5. retry_attempt contended_body (attempt_world contended_body World_init i) =
     (Inl (Some OK), snd (RunWithRetry World_init contended_body 5))"
proof -
  have "fst (RunWithRetry World_init contended_body 5) = Some OK"
    "unat (VS_CurrentVersion (w_store (snd (RunWithRetry World_init contended_body 5)))) = 3"
    "unat (VS_CurrentVersion (w_store World_init)) = 0" "vs_inv (w_store World_init)"
    by (code_simp, code_simp, code_simp, simp add: World_init_def)
  then show ?thesis
    using RunWithRetry_progress [OF contended_body_forward, of World_init 5 "Some OK"
        "snd (RunWithRetry World_init contended_body 5)"]
    by (cases "RunWithRetry World_init contended_body 5") auto
qed

text \<open>A body that works only through its transaction commits at the first attempt:
  if nobody else writes between \<open>Begin\<close> and \<open>Commit\<close> and the body returns OK, then
  \<open>RunWithRetry\<close> returns OK and the store has received exactly the body's writes, as one
  version (or is unchanged, if there are none).\<close>

lemma RunWithRetry_local_commits:
  assumes "local_body fn" and "w_inv w" and "0 < max_attempts"
    and "fn (snd (Begin w)) (fst (Begin w)) = (Some OK, w2, t2)"
  shows "fst (RunWithRetry w fn max_attempts) = Some OK \<and>
    w_store (snd (RunWithRetry w fn max_attempts)) =
      (if write_set t2 = [] then w_store w else vs_apply (w_store w) (ops_of (write_set t2)))"
proof -
  have "write_set t2 \<noteq> [] \<Longrightarrow> valid_batch (ops_of (write_set t2))"
    using local_bodyD(2) [OF assms(1) Begin_active(2,1) assms(4)]
    by (simp add: valid_batch_def txn_wf_def)
  moreover obtain n where "nat max_attempts = Suc n"
    using assms(3) by (metis gr0_implies_Suc zero_less_nat_eq)
  moreover obtain r w' where "retry_attempt fn w = (r, w')" by fastforce
  ultimately show ?thesis
    using retry_attempt_local [OF assms(1,2,4)] assms(3)
    by (simp add: RunWithRetry_def vs_apply_commit)
qed


text \<open>A body that throws after it has buffered a write.\<close>

definition throwing_body :: "key \<Rightarrow> val \<Rightarrow> txn_body" where
  "throwing_body k x w t = (None, w, snd (Txn_Put t k x))"

lemma throwing_body_tidy: "tidy_body (throwing_body k x)"
  by (simp add: tidy_body_def throwing_body_def mvcc_inv)

text \<open>C22: \<open>RunWithRetry\<close> leaks no registration: however many attempts are made and however
  they end, also by an exception of the body, every transaction registered afterwards was
  registered before, with the same snapshot, provided the body leaves no registrations of its
  own behind. So a retried transaction never holds back garbage collection after the call.\<close>

theorem RunWithRetry_no_leak:
  assumes "tidy_body fn" and "tm_wf (w_mgr w)"
  shows "active_snapshots (w_mgr (snd (RunWithRetry w fn max_attempts))) \<subseteq>\<^sub>m
    active_snapshots (w_mgr w)"
  using retry_loop_registry [OF assms] by (simp add: RunWithRetry_def)

theorem RunWithRetry_no_leak_witness:
  "RunWithRetry World_init (throwing_body ''j'' ''y'') 3 =
     (None, snd (RunWithRetry World_init (throwing_body ''j'' ''y'') 3)) \<and>
   active_snapshots (w_mgr (snd (RunWithRetry World_init (throwing_body ''j'' ''y'') 3))) = Map.empty"
proof -
  have "tm_wf (w_mgr World_init)" "active_snapshots (w_mgr World_init) = Map.empty"
    using w_inv_init
    by (simp_all add: World_init_def fun_eq_iff active_snapshots_def) (simp add: TM_init_def)
  then have "active_snapshots (w_mgr (snd (RunWithRetry World_init (throwing_body ''j'' ''y'') 3))) i = None" for i
    using RunWithRetry_no_leak [OF throwing_body_tidy, of World_init "''j''" "''y''" 3]
    by (force simp: map_le_def)
  moreover have "fst (RunWithRetry World_init (throwing_body ''j'' ''y'') 3) = None"
    by code_simp
  ultimately show ?thesis
    by (cases "RunWithRetry World_init (throwing_body ''j'' ''y'') 3") auto
qed

text \<open>A body that commits its own transaction and reports success makes
  \<open>RunWithRetry\<close> report a failure: the result is \<open>InvalidArgument\<close> although the body's
  write is in the store.\<close>

definition self_committing_body :: txn_body where
  "self_committing_body w t =
     (let (_, t1) = Txn_Put t ''k'' ''a'';
          (st, w', t2, _, _) = Txn_Commit w t1 None None
      in (Some st, w', t2))"

lemma RunWithRetry_self_commit:
  "let (st, w') = RunWithRetry World_init self_committing_body 8
   in st = Some (InvalidArgument ''transaction is not active'') \<and>
      VS_Get (w_store w') ''k'' '''' None = (OK, ''a'', None)"
  by code_simp

section \<open>Limits of snapshot isolation\<close>


section \<open>Types of the results\<close>








end
