(* ===== verification/Concurrency.thy ===== *)
theory Concurrency
  imports Garbage_Collector
begin

text \<open>
  Transactions and garbage collection interleaved. An agent is one activity: the life of one
  transaction object from \<open>Begin\<close> to \<open>Unregister\<close>, one call of \<open>RunOnce\<close>, or a direct
  write to the store. Agents run in parallel and interleave at the granularity of the
  critical sections of the code: one acquisition of \<open>VersionStore::mutex_\<close>, of one shard's
  mutex or of \<open>stats_mutex_\<close>, or one atomic operation, is one step. In particular \<open>Begin\<close>
  is four steps (id, placeholder, version read, refinement), \<open>OldestActiveSnapshot\<close> is one
  step per shard, and the boundary is used by a later step.

  Two components of the state are ghosts that no step reads: \<open>sh_ideal\<close> is a store that
  receives every committed write and is never collected, and \<open>raced\<close> holds the ids of the
  transactions whose placeholder was inserted while some scan was under way.
\<close>

section \<open>The machine\<close>

record Shared =
  sh_store :: VersionStore
  sh_ideal :: VersionStore
  sh_mgr :: TransactionManager
  sh_stats :: GCStats

datatype pc =
    Idle
  | Begin_id u64
  | Begin_placed u64
  | Begin_read u64 u64
  | In_txn Transaction
  | Ending Transaction
  | Scan nat bool u64
  | Scan_none
  | Collect_at u64
  | Add_stats GCStats

definition set_store :: "Shared \<Rightarrow> VersionStore \<Rightarrow> VersionStore \<Rightarrow> Shared" where
  "set_store sh s i = sh\<lparr>sh_store := s, sh_ideal := i\<rparr>"

text \<open>One step of an agent: from its program counter and the shared state to the next.\<close>

inductive agent_step :: "Shared \<Rightarrow> pc \<Rightarrow> Shared \<Rightarrow> pc \<Rightarrow> bool" where
  direct_put: "fst (VS_Put (sh_store sh) key value None) = OK \<Longrightarrow>
    agent_step sh Idle
      (set_store sh (fst (snd (VS_Put (sh_store sh) key value None)))
        (vs_commit (sh_ideal sh) [\<lparr>op_key = key, op_value = Some value\<rparr>])) Idle"
| direct_delete: "fst (VS_Delete (sh_store sh) key None) = OK \<Longrightarrow>
    agent_step sh Idle
      (set_store sh (fst (snd (VS_Delete (sh_store sh) key None)))
        (vs_commit (sh_ideal sh) [\<lparr>op_key = key, op_value = None\<rparr>])) Idle"
| direct_batch: "fst (VS_ApplyBatch (sh_store sh) ops None) = OK \<Longrightarrow>
    agent_step sh Idle
      (set_store sh (fst (snd (VS_ApplyBatch (sh_store sh) ops None)))
        (vs_commit (sh_ideal sh) ops)) Idle"
| begin_fetch: "fetch_txn_id (sh_mgr sh) = (i, m') \<Longrightarrow>
    agent_step sh Idle (sh\<lparr>sh_mgr := m'\<rparr>) (Begin_id i)"
| begin_place: "agent_step sh (Begin_id i)
    (sh\<lparr>sh_mgr := record_snapshot (sh_mgr sh) i 0\<rparr>) (Begin_placed i)"
| begin_read: "agent_step sh (Begin_placed i) sh (Begin_read i (VS_CurrentVersion (sh_store sh)))"
| begin_refine: "agent_step sh (Begin_read i snapshot)
    (sh\<lparr>sh_mgr := record_snapshot (sh_mgr sh) i snapshot\<rparr>) (In_txn (new_Transaction i snapshot))"
| txn_get: "agent_step sh (In_txn t) sh (In_txn t)"
| txn_put: "agent_step sh (In_txn t) sh (In_txn (snd (Txn_Put t key value)))"
| txn_delete: "agent_step sh (In_txn t) sh (In_txn (snd (Txn_Delete (sh_store sh) t key)))"
| commit_readonly: "write_set t = [] \<Longrightarrow>
    agent_step sh (In_txn t) sh (Ending (t\<lparr>txn_state := kCommitted\<rparr>))"
| commit_apply: "write_set t \<noteq> [] \<Longrightarrow>
    VS_ApplyBatchIfNoConflict (sh_store sh) (ops_of (write_set t)) (snapshot_version t)
      (Some 0) out_keys = (OK, store', out') \<Longrightarrow>
    agent_step sh (In_txn t)
      (set_store sh store' (vs_commit (sh_ideal sh) (ops_of (write_set t))))
      (Ending (t\<lparr>txn_state := kCommitted\<rparr>))"
| commit_fail: "write_set t \<noteq> [] \<Longrightarrow>
    VS_ApplyBatchIfNoConflict (sh_store sh) (ops_of (write_set t)) (snapshot_version t)
      (Some 0) out_keys = (s, store', out') \<Longrightarrow> \<not> st_ok s \<Longrightarrow>
    agent_step sh (In_txn t) (set_store sh store' (sh_ideal sh))
      (Ending (t\<lparr>write_set := [], txn_state := kAborted\<rparr>))"
| txn_abort: "agent_step sh (In_txn t) sh (Ending (t\<lparr>write_set := [], txn_state := kAborted\<rparr>))"
| txn_drop: "agent_step sh (In_txn t) sh (Ending t)"
| txn_unregister: "agent_step sh (Ending t)
    (sh\<lparr>sh_mgr := Unregister (sh_mgr sh) (txn_id t)\<rparr>) Idle"
| scan_start: "agent_step sh Idle sh (Scan 0 False u64_max)"
| scan_next: "n < kNumShards \<Longrightarrow> scan_shard (shards (sh_mgr sh) ! n) (any_active, oldest) = (a', o') \<Longrightarrow>
    agent_step sh (Scan n any_active oldest) sh (Scan (Suc n) a' o')"
| scan_active: "agent_step sh (Scan kNumShards True oldest) sh (Collect_at oldest)"
| scan_inactive: "agent_step sh (Scan kNumShards False oldest) sh Scan_none"
| scan_default: "agent_step sh Scan_none sh (Collect_at (VS_CurrentVersion (sh_store sh)))"
| gc_collect: "VS_CollectGarbage (sh_store sh) boundary = (pass_stats, store') \<Longrightarrow>
    agent_step sh (Collect_at boundary) (sh\<lparr>sh_store := store'\<rparr>) (Add_stats pass_stats)"
| gc_stats: "agent_step sh (Add_stats pass_stats)
    (sh\<lparr>sh_stats := sh_stats sh + pass_stats\<rparr>) Idle"

fun scanning :: "pc \<Rightarrow> bool" where
  "scanning (Scan n a oldest) = True"
| "scanning Scan_none = True"
| "scanning _ = False"

text \<open>The ids whose placeholder is inserted under somebody's scan.\<close>

fun newly_raced :: "bool \<Rightarrow> pc \<Rightarrow> u64 set" where
  "newly_raced under_scan (Begin_id i) = (if under_scan then {i} else {})"
| "newly_raced under_scan _ = {}"

record Sys =
  shared :: Shared
  agents :: "nat \<Rightarrow> pc"
  raced :: "u64 set"

inductive sys_step :: "Sys \<Rightarrow> Sys \<Rightarrow> bool" where
  sys_stepI: "agent_step (shared \<sigma>) (agents \<sigma> i) sh' pc' \<Longrightarrow>
    sys_step \<sigma> \<lparr>shared = sh', agents = (agents \<sigma>)(i := pc'),
      raced = raced \<sigma> \<union> newly_raced (\<exists>j. scanning (agents \<sigma> j)) (agents \<sigma> i)\<rparr>"

definition Sys_init :: Sys where
  "Sys_init =
     \<lparr>shared = \<lparr>sh_store = VS_init, sh_ideal = VS_init, sh_mgr = TM_init, sh_stats = 0\<rparr>,
      agents = (\<lambda>_. Idle), raced = {}\<rparr>"

text \<open>\<open>reach n \<sigma>\<close>: the machine can be in \<open>\<sigma>\<close> after \<open>n\<close> steps.\<close>

inductive reach :: "nat \<Rightarrow> Sys \<Rightarrow> bool" where
  reach_init: "reach 0 Sys_init"
| reach_step: "reach n \<sigma> \<Longrightarrow> sys_step \<sigma> \<sigma>' \<Longrightarrow> reach (Suc n) \<sigma>'"

section \<open>The invariant\<close>

abbreviation cur :: "Shared \<Rightarrow> u64" where
  "cur sh \<equiv> VS_CurrentVersion (sh_store sh)"

abbreviation reg_of :: "Shared \<Rightarrow> u64 \<Rightarrow> u64 option" where
  "reg_of sh \<equiv> active_snapshots (sh_mgr sh)"

abbreviation agree_from :: "Shared \<Rightarrow> u64 \<Rightarrow> bool" where
  "agree_from sh v \<equiv> vs.agree v (sh_store sh) (sh_ideal sh)"

text \<open>The shared state, with room for \<open>r\<close> more steps of the two 64-bit counters.\<close>

definition sh_inv :: "nat \<Rightarrow> Shared \<Rightarrow> bool" where
  "sh_inv r sh \<longleftrightarrow>
     vs_ready r (sh_store sh) \<and> vs_ready r (sh_ideal sh) \<and> tm_wf (sh_mgr sh) \<and>
     unat (next_txn_id (sh_mgr sh)) + r < 2 ^ 64 \<and>
     (\<forall>i v. reg_of sh i = Some v \<longrightarrow> v \<le> cur sh \<and> i < next_txn_id (sh_mgr sh)) \<and>
     agree_from sh (cur sh)"

text \<open>What each agent knows, relative to the set \<open>R\<close> of raced ids. A transaction that is
  not raced agrees with the ideal store from its snapshot on; a scan that has passed shard
  \<open>n\<close> is at or below every entry of those shards that is not raced.\<close>

fun pc_inv :: "u64 set \<Rightarrow> Shared \<Rightarrow> pc \<Rightarrow> bool" where
  "pc_inv R sh Idle = True"
| "pc_inv R sh (Begin_id i) = (i < next_txn_id (sh_mgr sh) \<and> reg_of sh i = None)"
| "pc_inv R sh (Begin_placed i) = (i < next_txn_id (sh_mgr sh) \<and> reg_of sh i = Some 0)"
| "pc_inv R sh (Begin_read i v) =
     (i < next_txn_id (sh_mgr sh) \<and> reg_of sh i = Some 0 \<and> v \<le> cur sh \<and>
      (i \<notin> R \<longrightarrow> agree_from sh v))"
| "pc_inv R sh (In_txn t) =
     (txn_id t < next_txn_id (sh_mgr sh) \<and> reg_of sh (txn_id t) = Some (snapshot_version t) \<and>
      txn_wf t \<and> txn_state t = kActive \<and> snapshot_version t \<le> cur sh \<and>
      (txn_id t \<notin> R \<longrightarrow> agree_from sh (snapshot_version t)))"
| "pc_inv R sh (Ending t) =
     (txn_id t < next_txn_id (sh_mgr sh) \<and> reg_of sh (txn_id t) = Some (snapshot_version t) \<and>
      snapshot_version t \<le> cur sh)"
| "pc_inv R sh (Scan n a oldest) =
     (n \<le> kNumShards \<and> (a \<longrightarrow> oldest \<le> cur sh) \<and>
      (\<forall>i v. i \<notin> R \<longrightarrow> reg_of sh i = Some v \<longrightarrow> ShardFor i < n \<longrightarrow> a \<and> oldest \<le> v))"
| "pc_inv R sh Scan_none = (\<forall>i v. reg_of sh i = Some v \<longrightarrow> i \<in> R)"
| "pc_inv R sh (Collect_at b) = (b \<le> cur sh)"
| "pc_inv R sh (Add_stats st) = True"

fun own :: "pc \<Rightarrow> u64 option" where
  "own (Begin_id i) = Some i"
| "own (Begin_placed i) = Some i"
| "own (Begin_read i v) = Some i"
| "own (In_txn t) = Some (txn_id t)"
| "own (Ending t) = Some (txn_id t)"
| "own _ = None"

text \<open>The snapshot a transaction has pinned, with its id.\<close>

fun pinned :: "pc \<Rightarrow> (u64 \<times> u64) option" where
  "pinned (Begin_read i v) = Some (i, v)"
| "pinned (In_txn t) = Some (txn_id t, snapshot_version t)"
| "pinned (Ending t) = Some (txn_id t, snapshot_version t)"
| "pinned _ = None"

definition below_pinned :: "u64 set \<Rightarrow> u64 \<Rightarrow> pc \<Rightarrow> bool" where
  "below_pinned R b q \<longleftrightarrow> (\<forall>i v. pinned q = Some (i, v) \<longrightarrow> i \<notin> R \<longrightarrow> b \<le> v)"

definition sys_inv :: "nat \<Rightarrow> Sys \<Rightarrow> bool" where
  "sys_inv r \<sigma> \<longleftrightarrow>
     sh_inv r (shared \<sigma>) \<and>
     (\<forall>i. pc_inv (raced \<sigma>) (shared \<sigma>) (agents \<sigma> i)) \<and>
     (\<forall>i j k. own (agents \<sigma> i) = Some k \<longrightarrow> own (agents \<sigma> j) = Some k \<longrightarrow> i = j) \<and>
     (\<forall>i j b. agents \<sigma> i = Collect_at b \<longrightarrow> below_pinned (raced \<sigma>) b (agents \<sigma> j))"

section \<open>How the shared state moves\<close>

text \<open>Five kinds of changes to the shared state cover every rule.\<close>

definition sh_commit :: "Shared \<Rightarrow> WriteOp list \<Rightarrow> Shared" where
  "sh_commit sh ops = set_store sh (vs_commit (sh_store sh) ops) (vs_commit (sh_ideal sh) ops)"

lemma sh_commit_simps [simp]:
  "sh_store (sh_commit sh ops) = vs_commit (sh_store sh) ops"
  "sh_ideal (sh_commit sh ops) = vs_commit (sh_ideal sh) ops"
  "sh_mgr (sh_commit sh ops) = sh_mgr sh"
  by (simp_all add: sh_commit_def set_store_def)

lemma sh_inv_mono: "sh_inv (Suc r) sh \<Longrightarrow> sh_inv r sh"
  by (auto simp: sh_inv_def intro: vs_ready_Suc)

lemma cur_commit_less: "sh_inv (Suc r) sh \<Longrightarrow> cur sh < cur (sh_commit sh ops)"
  unfolding sh_commit_simps by (rule vs.current_commit) (auto simp: sh_inv_def)

lemma agree_from_commit:
  "sh_inv (Suc r) sh \<Longrightarrow> agree_from sh v \<Longrightarrow> agree_from (sh_commit sh ops) v"
  unfolding sh_commit_simps by (rule vs.agree_commit) (auto simp: sh_inv_def)

lemma sh_inv_commit:
  assumes "sh_inv (Suc r) sh" "valid_batch ops"
  shows "sh_inv r (sh_commit sh ops)"
proof -
  note less = cur_commit_less [OF assms(1), of ops]
  have "agree_from (sh_commit sh ops) (cur (sh_commit sh ops))"
    using assms(1) less
    by (intro vs.agree_mono [OF agree_from_commit [OF assms(1)]]) (auto simp: sh_inv_def)
  moreover have "v \<le> cur (sh_commit sh ops)" if "v \<le> cur sh" for v
    using that less by simp
  ultimately show ?thesis
    using assms vs_ready_commit by (simp add: sh_inv_def del: vs_commit_current)
qed

lemma pc_inv_commit:
  assumes "sh_inv (Suc r) sh" "pc_inv R sh q"
  shows "pc_inv R (sh_commit sh ops) q"
proof -
  have "v \<le> cur (sh_commit sh ops)" if "v \<le> cur sh" for v
    using that cur_commit_less [OF assms(1), of ops] by simp
  then show ?thesis
    using assms agree_from_commit [OF assms(1), of _ ops]
    by (cases q) (auto simp del: vs_commit_current)
qed

lemma sh_inv_collect:
  assumes "sh_inv r sh" "b \<le> cur sh"
  shows "sh_inv r (sh\<lparr>sh_store := vs_collect (sh_store sh) b\<rparr>)"
  using assms by (auto simp: sh_inv_def vs_ready_collect vs.current_collect intro: vs.agree_collect)

lemma pc_inv_collect:
  assumes "sh_inv r sh" "pc_inv R sh q" "below_pinned R b q"
  shows "pc_inv R (sh\<lparr>sh_store := vs_collect (sh_store sh) b\<rparr>) q"
  using assms
  by (cases q) (auto simp: sh_inv_def vs.current_collect below_pinned_def intro: vs.agree_collect)

text \<open>Changes of the registry, by the owner of the id.\<close>

lemma pc_inv_mgr:
  assumes "pc_inv R sh q" "R \<subseteq> R'"
    and "next_txn_id (sh_mgr sh) \<le> next_txn_id m'"
    and "\<And>i. own q = Some i \<Longrightarrow> active_snapshots m' i = reg_of sh i"
    and "\<And>i v. active_snapshots m' i = Some v \<Longrightarrow> i \<notin> R' \<Longrightarrow> scanning q \<Longrightarrow>
      \<exists>v'\<le>v. reg_of sh i = Some v'"
  shows "pc_inv R' (sh\<lparr>sh_mgr := m'\<rparr>) q"
proof -
  have less: "i < next_txn_id m'" if "i < next_txn_id (sh_mgr sh)" for i
    using that assms(3) by (rule order.strict_trans2)
  show ?thesis
  proof (cases q)
    case (Scan n a oldest)
    have "a \<and> oldest \<le> v"
      if "i \<notin> R'" "active_snapshots m' i = Some v" "ShardFor i < n" for i v
    proof -
      have "\<exists>v'\<le>v. reg_of sh i = Some v'"
        using assms(5) [OF that(2,1)] Scan by simp
      then show ?thesis
        using assms(1,2) that Scan by (auto intro: order_trans)
    qed
    then show ?thesis using assms(1) Scan by simp
  next
    case Scan_none
    have "i \<in> R'" if "active_snapshots m' i = Some v" for i v
      using assms(1,2) assms(5) [of i v] that Scan_none by auto
    then show ?thesis using Scan_none by simp
  qed (use assms(1,2,4) less in auto)
qed

text \<open>The successful writes of the store are commits of a valid batch; a failing commit
  leaves the store alone.\<close>

lemma VS_Put_OK:
  assumes "fst (VS_Put s k x None) = OK"
  shows "fst (snd (VS_Put s k x None)) = vs_commit s [\<lparr>op_key = k, op_value = Some x\<rparr>]"
    and "valid_batch [\<lparr>op_key = k, op_value = Some x\<rparr>]"
  using assms by (auto simp: VS_Put_def vs_commit_def valid_batch_def Let_def split: if_splits)

lemma VS_Delete_OK:
  assumes "fst (VS_Delete s k None) = OK"
  shows "fst (snd (VS_Delete s k None)) = vs_commit s [\<lparr>op_key = k, op_value = None\<rparr>]"
    and "valid_batch [\<lparr>op_key = k, op_value = None\<rparr>]"
  using assms by (auto simp: VS_Delete_def vs_commit_def valid_batch_def Let_def split: if_splits)

lemma VS_ApplyBatch_OK:
  assumes "fst (VS_ApplyBatch s ops None) = OK"
  shows "fst (snd (VS_ApplyBatch s ops None)) = vs_commit s ops" and "valid_batch ops"
  using assms by (auto simp: VS_ApplyBatch_def vs_commit_def valid_batch_def Let_def split: if_splits)

lemma VS_ABINC_OK:
  assumes "VS_ApplyBatchIfNoConflict s ops snap ov ok = (OK, s', out)"
  shows "s' = vs_commit s ops" and "valid_batch ops" and "find_conflicts (vs_table s) snap ops = []"
  using assms
  by (auto simp: VS_ApplyBatchIfNoConflict_def vs_commit_def valid_batch_def Let_def split: if_splits)

lemma VS_ABINC_fail:
  assumes "VS_ApplyBatchIfNoConflict s ops snap ov ok = (st, s', out)" "\<not> st_ok st"
  shows "s' = s"
  using assms by (auto simp: VS_ApplyBatchIfNoConflict_def Let_def split: if_splits)

lemma set_store_same [simp]: "set_store sh (sh_store sh) (sh_ideal sh) = sh"
  by (simp add: set_store_def)

section \<open>Every step keeps the invariant\<close>

lemma pc_inv_raced: "pc_inv R sh q \<Longrightarrow> R \<subseteq> R' \<Longrightarrow> pc_inv R' sh q"
  by (cases q) auto

lemma below_pinned_raced: "below_pinned R b q \<Longrightarrow> R \<subseteq> R' \<Longrightarrow> below_pinned R' b q"
  by (auto simp: below_pinned_def)

text \<open>What the invariant gives for the other agents of a step of agent \<open>i\<close>.\<close>

lemma sys_invD:
  assumes "sys_inv r \<sigma>"
  shows "sh_inv r (shared \<sigma>)" and "pc_inv (raced \<sigma>) (shared \<sigma>) (agents \<sigma> j)"
    and "j \<noteq> i \<Longrightarrow> own (agents \<sigma> i) = Some k \<Longrightarrow> own (agents \<sigma> j) \<noteq> Some k"
    and "agents \<sigma> i = Collect_at b \<Longrightarrow> below_pinned (raced \<sigma>) b (agents \<sigma> j)"
  using assms by (auto simp: sys_inv_def)

text \<open>What has to be shown for a step of agent \<open>i\<close>.\<close>

lemma sys_inv_step:
  assumes inv: "sys_inv r' \<sigma>" and sub: "raced \<sigma> \<subseteq> R'"
    and sh: "sh_inv r sh'" and mover: "pc_inv R' sh' q"
    and others: "\<And>j. j \<noteq> i \<Longrightarrow> pc_inv R' sh' (agents \<sigma> j)"
    and own: "\<And>j k. j \<noteq> i \<Longrightarrow> own q = Some k \<Longrightarrow> own (agents \<sigma> j) \<noteq> Some k"
    and collector: "\<And>j b. j \<noteq> i \<Longrightarrow> q = Collect_at b \<Longrightarrow> below_pinned R' b (agents \<sigma> j)"
    and collected: "\<And>j b. j \<noteq> i \<Longrightarrow> agents \<sigma> j = Collect_at b \<Longrightarrow> below_pinned R' b q"
  shows "sys_inv r \<lparr>shared = sh', agents = (agents \<sigma>)(i := q), raced = R'\<rparr>"
  unfolding sys_inv_def
proof (intro conjI allI impI)
  fix j j' b
  assume *: "agents \<lparr>shared = sh', agents = (agents \<sigma>)(i := q), raced = R'\<rparr> j = Collect_at b"
  have "below_pinned R' b (agents \<sigma> j')" if "j \<noteq> i"
    using * that by (intro below_pinned_raced [OF sys_invD(4) [OF inv] sub]) simp
  with * collector collected show
    "below_pinned (raced \<lparr>shared = sh', agents = (agents \<sigma>)(i := q), raced = R'\<rparr>) b
      (agents \<lparr>shared = sh', agents = (agents \<sigma>)(i := q), raced = R'\<rparr> j')"
    by (cases "j = i"; cases "j' = i") (auto simp: below_pinned_def)
next
  fix j j' k
  assume "own (agents \<lparr>shared = sh', agents = (agents \<sigma>)(i := q), raced = R'\<rparr> j) = Some k"
    "own (agents \<lparr>shared = sh', agents = (agents \<sigma>)(i := q), raced = R'\<rparr> j') = Some k"
  then show "j = j'"
    using inv own by (auto simp: sys_inv_def split: if_splits)
qed (use sh mover others in auto)

lemma sys_inv_commit_step:
  assumes inv: "sys_inv (Suc r) \<sigma>" and ops: "valid_batch ops"
    and pc: "agents \<sigma> i = Idle \<and> q = Idle \<or>
      (\<exists>t t'. agents \<sigma> i = In_txn t \<and> q = Ending t' \<and> txn_id t' = txn_id t \<and>
        snapshot_version t' = snapshot_version t)"
  shows "sys_inv r \<lparr>shared = sh_commit (shared \<sigma>) ops, agents = (agents \<sigma>)(i := q), raced = raced \<sigma>\<rparr>"
proof -
  note sh = sys_invD(1) [OF inv]
  have pcs: "pc_inv (raced \<sigma>) (sh_commit (shared \<sigma>) ops) (agents \<sigma> j)" for j
    using pc_inv_commit [OF sh sys_invD(2) [OF inv]] .
  show ?thesis
  proof (rule sys_inv_step [OF inv subset_refl sh_inv_commit [OF sh ops] _ pcs])
    show "pc_inv (raced \<sigma>) (sh_commit (shared \<sigma>) ops) q"
      using pc pcs [of i] by auto
    show "own (agents \<sigma> j) \<noteq> Some k" if "j \<noteq> i" "own q = Some k" for j k
      using pc that sys_invD(3) [OF inv that(1), of k] by auto
    show "below_pinned (raced \<sigma>) b q" if "agents \<sigma> j = Collect_at b" for j b
      using pc sys_invD(4) [OF inv that, of i] by (auto simp: below_pinned_def)
  qed (use pc in auto)
qed

text \<open>Steps that touch neither the store nor the registry.\<close>

lemma sys_inv_local_step:
  assumes inv: "sys_inv (Suc r) \<sigma>" and mover: "pc_inv (raced \<sigma>) (shared \<sigma>) q"
    and own: "own q = None \<or> own q = own (agents \<sigma> i)"
    and collector: "\<And>j b. q = Collect_at b \<Longrightarrow> below_pinned (raced \<sigma>) b (agents \<sigma> j)"
    and pin: "\<And>b. pc_inv (raced \<sigma>) (shared \<sigma>) (Collect_at b) \<Longrightarrow>
      below_pinned (raced \<sigma>) b (agents \<sigma> i) \<Longrightarrow> below_pinned (raced \<sigma>) b q"
  shows "sys_inv r \<lparr>shared = shared \<sigma>, agents = (agents \<sigma>)(i := q), raced = raced \<sigma>\<rparr>"
proof (rule sys_inv_step [OF inv subset_refl sh_inv_mono [OF sys_invD(1) [OF inv]] mover
      sys_invD(2) [OF inv]])
  show "own (agents \<sigma> j) \<noteq> Some k" if "j \<noteq> i" "own q = Some k" for j k
    using own that sys_invD(3) [OF inv that(1), of k] by auto
  show "below_pinned (raced \<sigma>) b q" if "agents \<sigma> j = Collect_at b" for j b
    using pin [of b] sys_invD(2) [OF inv, of j] sys_invD(4) [OF inv that, of i] that by simp
qed (rule collector)

text \<open>Steps that change the registry.\<close>

lemma pc_inv_own: "pc_inv R sh q \<Longrightarrow> own q = Some k \<Longrightarrow> k < next_txn_id (sh_mgr sh)"
  by (cases q) auto

lemma pc_inv_pinned:
  "pc_inv R sh q \<Longrightarrow> pinned q = Some (i, v) \<Longrightarrow> \<exists>e\<le>v. reg_of sh i = Some e"
  by (cases q) auto

lemma sh_inv_mgr:
  assumes "sh_inv (Suc r) sh" "tm_wf m'" "unat (next_txn_id m') + r < 2 ^ 64"
    and "\<And>i v. active_snapshots m' i = Some v \<Longrightarrow> v \<le> cur sh \<and> i < next_txn_id m'"
  shows "sh_inv r (sh\<lparr>sh_mgr := m'\<rparr>)"
  using assms by (auto simp: sh_inv_def intro: vs_ready_Suc)

lemma sh_inv_reg:
  "sh_inv r sh \<Longrightarrow> tm_wf (sh_mgr sh)"
  "sh_inv r sh \<Longrightarrow> reg_of sh i = Some v \<Longrightarrow> v \<le> cur sh \<and> i < next_txn_id (sh_mgr sh)"
  "sh_inv (Suc r) sh \<Longrightarrow> unat (next_txn_id (sh_mgr sh)) + r < 2 ^ 64"
  by (auto simp: sh_inv_def)

lemma sys_inv_fetch_step:
  assumes inv: "sys_inv (Suc r) \<sigma>" and f: "fetch_txn_id (sh_mgr (shared \<sigma>)) = (k, m')"
    and pc: "agents \<sigma> i = Idle"
  shows "sys_inv r \<lparr>shared = (shared \<sigma>)\<lparr>sh_mgr := m'\<rparr>, agents = (agents \<sigma>)(i := Begin_id k),
    raced = raced \<sigma>\<rparr>"
proof -
  note sh = sys_invD(1) [OF inv]
  let ?m = "sh_mgr (shared \<sigma>)"
  have k: "k = next_txn_id ?m" and nxt: "next_txn_id m' = next_txn_id ?m + 1"
    and wf: "tm_wf m'" and act: "active_snapshots m' = active_snapshots ?m"
    using f sh_inv_reg(1) [OF sh]
    by (auto simp: fetch_txn_id_def tm_wf_def active_snapshots_def fun_eq_iff)
  have room: "next_txn_id ?m + 1 \<noteq> 0"
    using sh by (intro u64_succ_neq_0) (simp add: sh_inv_def)
  then have less: "next_txn_id ?m < next_txn_id m'"
    by (simp add: nxt u64_less_succ)
  have free: "active_snapshots ?m k = None"
    using sh_inv_reg(2) [OF sh, of k] by (cases "active_snapshots ?m k") (auto simp: k)
  show ?thesis
  proof (rule sys_inv_step [OF inv subset_refl])
    show "sh_inv r ((shared \<sigma>)\<lparr>sh_mgr := m'\<rparr>)"
      using sh_inv_reg [OF sh] sh less unat_succ [OF room]
      by (intro sh_inv_mgr [OF sh wf]) (auto simp: act nxt sh_inv_def intro: order.strict_trans)
    show "pc_inv (raced \<sigma>) ((shared \<sigma>)\<lparr>sh_mgr := m'\<rparr>) (agents \<sigma> j)" for j
      using less by (intro pc_inv_mgr [OF sys_invD(2) [OF inv]]) (auto simp: act)
    show "own (agents \<sigma> j) \<noteq> Some k'" if "own (Begin_id k) = Some k'" for j k'
      using pc_inv_own [OF sys_invD(2) [OF inv], of j k'] that k by auto
  qed (use less k free act in \<open>auto simp: below_pinned_def\<close>)
qed

lemma sys_inv_registry_step:
  assumes inv: "sys_inv (Suc r) \<sigma>" and sub: "raced \<sigma> \<subseteq> R'"
    and own: "own (agents \<sigma> i) = Some k" "own q = None \<or> own q = Some k"
    and wf: "tm_wf m'" and nxt: "next_txn_id m' = next_txn_id (sh_mgr (shared \<sigma>))"
    and act: "active_snapshots m' = (reg_of (shared \<sigma>))(k := e)"
    and entry: "\<And>v. e = Some v \<Longrightarrow> v \<le> cur (shared \<sigma>)"
    and seen: "\<And>j v. e = Some v \<Longrightarrow> scanning (agents \<sigma> j) \<Longrightarrow> k \<notin> R' \<Longrightarrow>
      \<exists>v'\<le>v. reg_of (shared \<sigma>) k = Some v'"
    and mover: "pc_inv R' ((shared \<sigma>)\<lparr>sh_mgr := m'\<rparr>) q"
    and pin: "pinned q = None \<or> pinned q = pinned (agents \<sigma> i)" and nc: "\<And>b. q \<noteq> Collect_at b"
  shows "sys_inv r \<lparr>shared = (shared \<sigma>)\<lparr>sh_mgr := m'\<rparr>, agents = (agents \<sigma>)(i := q), raced = R'\<rparr>"
proof -
  note sh = sys_invD(1) [OF inv]
  have k: "k < next_txn_id (sh_mgr (shared \<sigma>))"
    using pc_inv_own [OF sys_invD(2) [OF inv] own(1)] .
  show ?thesis
  proof (rule sys_inv_step [OF inv sub _ mover])
    show "sh_inv r ((shared \<sigma>)\<lparr>sh_mgr := m'\<rparr>)"
      using sh_inv_reg [OF sh] entry k
      by (intro sh_inv_mgr [OF sh wf]) (auto simp: act nxt split: if_splits)
    show "pc_inv R' ((shared \<sigma>)\<lparr>sh_mgr := m'\<rparr>) (agents \<sigma> j)" if "j \<noteq> i" for j
      using that own(1) sys_invD(3) [OF inv that own(1)] seen [of _ j]
      by (intro pc_inv_mgr [OF sys_invD(2) [OF inv] sub]) (auto simp: act nxt split: if_splits)
    show "own (agents \<sigma> j) \<noteq> Some k'" if "j \<noteq> i" "own q = Some k'" for j k'
      using own that sys_invD(3) [OF inv that(1) own(1)] by auto
    show "below_pinned R' b q" if "agents \<sigma> j = Collect_at b" for j b
      using pin below_pinned_raced [OF sys_invD(4) [OF inv that, of i] sub]
      by (auto simp: below_pinned_def)
  qed (use nc in auto)
qed

text \<open>Steps of a collection.\<close>

lemma shard_entry_registered:
  assumes "sh_inv r sh" "n < kNumShards" "(i, v) \<in> set (shards (sh_mgr sh) ! n)"
  shows "reg_of sh i = Some v"
  using assms in_concat_shards [OF sh_inv_reg(1) [OF assms(1)]]
    set_concat_shards [OF sh_inv_reg(1) [OF assms(1)]] by blast

lemma registered_shard_entry:
  "reg_of sh i = Some v \<Longrightarrow> (i, v) \<in> set (shards (sh_mgr sh) ! ShardFor i)"
  by (simp add: active_snapshots_def um_find_SomeD)

lemma pc_inv_scan_next:
  assumes sh: "sh_inv r sh" and inv: "pc_inv R sh (Scan n a oldest)" and n: "n < kNumShards"
    and scan: "scan_shard (shards (sh_mgr sh) ! n) (a, oldest) = (a', o')"
  shows "pc_inv R sh (Scan (Suc n) a' o')"
proof -
  let ?es = "shards (sh_mgr sh) ! n"
  have a': "a' \<longleftrightarrow> a \<or> ?es \<noteq> []"
    using scan_shard_fst [of ?es a oldest] scan by simp
  have o': "o' \<le> oldest" "\<And>i v. (i, v) \<in> set ?es \<Longrightarrow> o' \<le> v"
    using scan_shard_snd_le [of ?es a oldest] scan by auto
  have "o' \<le> cur sh" if "a'"
  proof (cases a)
    case True
    with inv o'(1) show ?thesis by auto
  next
    case False
    with that a' obtain i v where "(i, v) \<in> set ?es" by (cases ?es) auto
    then show ?thesis
      using o'(2) sh_inv_reg(2) [OF sh shard_entry_registered [OF sh n]] by (meson order_trans)
  qed
  moreover have "a' \<and> o' \<le> v" if "i \<notin> R" "reg_of sh i = Some v" "ShardFor i < Suc n" for i v
  proof (cases "ShardFor i = n")
    case True
    then show ?thesis
      using registered_shard_entry [OF that(2)] o'(2) a' by auto
  next
    case False
    then show ?thesis
      using inv that o'(1) a' by (auto intro: order_trans)
  qed
  ultimately show ?thesis using n by simp
qed

lemma pc_inv_scan_done: "pc_inv R sh (Scan kNumShards False oldest) \<Longrightarrow> pc_inv R sh Scan_none"
  by (metis ShardFor_less pc_inv.simps(7,8))

lemma sys_inv_collect_step:
  assumes inv: "sys_inv (Suc r) \<sigma>" and pc: "agents \<sigma> i = Collect_at b"
    and gc: "VS_CollectGarbage (sh_store (shared \<sigma>)) b = (st, store')"
  shows "sys_inv r \<lparr>shared = (shared \<sigma>)\<lparr>sh_store := store'\<rparr>,
    agents = (agents \<sigma>)(i := Add_stats st), raced = raced \<sigma>\<rparr>"
proof -
  note sh = sys_invD(1) [OF inv]
  have store': "store' = vs_collect (sh_store (shared \<sigma>)) b"
    using gc by (simp add: vs_collect_def)
  show ?thesis
    unfolding store'
  proof (rule sys_inv_step [OF inv subset_refl])
    show "sh_inv r ((shared \<sigma>)\<lparr>sh_store := vs_collect (sh_store (shared \<sigma>)) b\<rparr>)"
      using sys_invD(2) [OF inv, of i] pc by (intro sh_inv_collect [OF sh_inv_mono [OF sh]]) simp
    show "pc_inv (raced \<sigma>) ((shared \<sigma>)\<lparr>sh_store := vs_collect (sh_store (shared \<sigma>)) b\<rparr>)
        (agents \<sigma> j)" for j
      by (rule pc_inv_collect [OF sh sys_invD(2) [OF inv] sys_invD(4) [OF inv pc]])
  qed (auto simp: below_pinned_def)
qed

lemma sys_inv_boundary:
  assumes inv: "sys_inv r \<sigma>" and scan: "agents \<sigma> i = Scan kNumShards True oldest"
  shows "below_pinned (raced \<sigma>) oldest (agents \<sigma> j)"
  unfolding below_pinned_def
proof (intro allI impI)
  fix k v
  assume "pinned (agents \<sigma> j) = Some (k, v)" "k \<notin> raced \<sigma>"
  moreover from this obtain e where "e \<le> v" "reg_of (shared \<sigma>) k = Some e"
    using pc_inv_pinned [OF sys_invD(2) [OF inv]] by blast
  ultimately show "oldest \<le> v"
    using sys_invD(2) [OF inv, of i] scan by (auto intro: order_trans)
qed

lemma sys_inv_default_boundary:
  assumes inv: "sys_inv r \<sigma>" and scan: "agents \<sigma> i = Scan_none"
  shows "below_pinned (raced \<sigma>) b (agents \<sigma> j)"
  using sys_invD(2) [OF inv, of i] scan pc_inv_pinned [OF sys_invD(2) [OF inv, of j]]
  by (fastforce simp: below_pinned_def)

lemma sh_inv_stats [simp]: "sh_inv r (sh\<lparr>sh_stats := x\<rparr>) = sh_inv r sh"
  by (simp add: sh_inv_def)

lemma pc_inv_stats [simp]: "pc_inv R (sh\<lparr>sh_stats := x\<rparr>) q = pc_inv R sh q"
  by (cases q) simp_all

text \<open>One lemma per group of program counters.\<close>

lemma agent_step_inv_idle:
  assumes inv: "sys_inv (Suc r) \<sigma>" and step: "agent_step (shared \<sigma>) (agents \<sigma> i) sh' q"
    and pc: "agents \<sigma> i = Idle"
  shows "sys_inv r \<lparr>shared = sh', agents = (agents \<sigma>)(i := q),
    raced = raced \<sigma> \<union> newly_raced (\<exists>j. scanning (agents \<sigma> j)) (agents \<sigma> i)\<rparr>"
proof -
  note sh = sys_invD(1) [OF inv] and pcs = sys_invD(2) [OF inv]
  have pci: "\<And>q. agents \<sigma> i = q \<Longrightarrow> pc_inv (raced \<sigma>) (shared \<sigma>) q"
    using pcs [of i] by simp
  note commit = sys_inv_commit_step [OF inv, unfolded sh_commit_def]
  from step show ?thesis
  proof (cases rule: agent_step.cases)
    case (direct_put k x)
    then show ?thesis
      using commit [of _ i Idle] VS_Put_OK [OF direct_put(4)] by simp
  next
    case (direct_delete k)
    then show ?thesis
      using commit [of _ i Idle] VS_Delete_OK [OF direct_delete(4)] by simp
  next
    case (direct_batch ops)
    then show ?thesis
      using commit [of _ i Idle] VS_ApplyBatch_OK [OF direct_batch(4)] by simp
  next
    case (begin_fetch k m')
    then show ?thesis using sys_inv_fetch_step [OF inv] by simp
  qed (use pc pci in \<open>auto intro!: sys_inv_local_step [OF inv] simp: below_pinned_def mvcc_inv\<close>)
qed

lemma agent_step_inv_registry:
  assumes inv: "sys_inv (Suc r) \<sigma>" and step: "agent_step (shared \<sigma>) (agents \<sigma> i) sh' q"
    and pc: "agents \<sigma> i \<in> range Begin_id \<union> range Begin_placed \<union> range (case_prod Begin_read) \<union> range Ending"
  shows "sys_inv r \<lparr>shared = sh', agents = (agents \<sigma>)(i := q),
    raced = raced \<sigma> \<union> newly_raced (\<exists>j. scanning (agents \<sigma> j)) (agents \<sigma> i)\<rparr>"
proof -
  note sh = sys_invD(1) [OF inv] and pcs = sys_invD(2) [OF inv]
  have pci: "\<And>q. agents \<sigma> i = q \<Longrightarrow> pc_inv (raced \<sigma>) (shared \<sigma>) q"
    using pcs [of i] by simp
  note wf = sh_inv_reg(1) [OF sh]
  from step show ?thesis
  proof (cases rule: agent_step.cases)
    case (begin_place k)
    then show ?thesis
      using wf pci [of "Begin_id k"]
      by (auto intro!: sys_inv_registry_step [OF inv, of _ i k _ _ "Some 0"]
          simp: active_record mvcc_inv split: if_splits)
  next
    case (begin_read k)
    then show ?thesis
      using pci [of "Begin_placed k"] sh
      by (auto intro!: sys_inv_local_step [OF inv] simp: sh_inv_def below_pinned_def)
  next
    case (begin_refine k v)
    then show ?thesis
      using pci [of "Begin_read k v"] wf
      by (auto intro!: sys_inv_registry_step [OF inv, of _ i k _ _ "Some v"]
          simp: active_record mvcc_inv)
  next
    case (txn_unregister t)
    then show ?thesis
      using pci [of "Ending t"] wf
      by (auto intro!: sys_inv_registry_step [OF inv, of _ i "txn_id t" _ _ None]
          simp: active_Unregister mvcc_inv)
  qed (use pc in auto)
qed

lemma agent_step_inv_txn:
  assumes inv: "sys_inv (Suc r) \<sigma>" and step: "agent_step (shared \<sigma>) (agents \<sigma> i) sh' q"
    and pc: "agents \<sigma> i \<in> range In_txn"
  shows "sys_inv r \<lparr>shared = sh', agents = (agents \<sigma>)(i := q),
    raced = raced \<sigma> \<union> newly_raced (\<exists>j. scanning (agents \<sigma> j)) (agents \<sigma> i)\<rparr>"
proof -
  note sh = sys_invD(1) [OF inv] and pcs = sys_invD(2) [OF inv]
  have pci: "\<And>q. agents \<sigma> i = q \<Longrightarrow> pc_inv (raced \<sigma>) (shared \<sigma>) q"
    using pcs [of i] by simp
  note commit = sys_inv_commit_step [OF inv, unfolded sh_commit_def]
  from step show ?thesis
  proof (cases rule: agent_step.cases)
    case (commit_apply t out_keys store' out')
    then show ?thesis
      using commit [of "ops_of (write_set t)" i "Ending (t\<lparr>txn_state := kCommitted\<rparr>)"]
        VS_ABINC_OK [OF commit_apply(5)] by simp
  next
    case (commit_fail t out_keys s store' out')
    then show ?thesis
      using VS_ABINC_fail [OF commit_fail(5,6)] pci [of "In_txn t"]
      by (auto intro!: sys_inv_local_step [OF inv] simp: below_pinned_def)
  qed (use pc pci in \<open>auto intro!: sys_inv_local_step [OF inv] simp: below_pinned_def mvcc_inv\<close>)
qed

lemma agent_step_inv_gc:
  assumes inv: "sys_inv (Suc r) \<sigma>" and step: "agent_step (shared \<sigma>) (agents \<sigma> i) sh' q"
    and pc: "scanning (agents \<sigma> i) \<or> agents \<sigma> i \<in> range Collect_at \<union> range Add_stats"
  shows "sys_inv r \<lparr>shared = sh', agents = (agents \<sigma>)(i := q),
    raced = raced \<sigma> \<union> newly_raced (\<exists>j. scanning (agents \<sigma> j)) (agents \<sigma> i)\<rparr>"
proof -
  note sh = sys_invD(1) [OF inv] and pcs = sys_invD(2) [OF inv]
  have pci: "\<And>q. agents \<sigma> i = q \<Longrightarrow> pc_inv (raced \<sigma>) (shared \<sigma>) q"
    using pcs [of i] by simp
  from step show ?thesis
  proof (cases rule: agent_step.cases)
    case (scan_next n a oldest a' o')
    then show ?thesis
      using pc_inv_scan_next [OF sh pci, of n a oldest a' o']
      by (auto intro!: sys_inv_local_step [OF inv] simp: below_pinned_def simp del: pc_inv.simps)
  next
    case (scan_active oldest)
    then show ?thesis
      using pci [of "Scan kNumShards True oldest"] sys_inv_boundary [OF inv]
      by (auto intro!: sys_inv_local_step [OF inv]) (auto simp: below_pinned_def)
  next
    case (scan_inactive oldest)
    then show ?thesis
      using pc_inv_scan_done [OF pci]
      by (auto intro!: sys_inv_local_step [OF inv] simp: below_pinned_def simp del: pc_inv.simps)
  next
    case scan_default
    then show ?thesis
      using sys_inv_default_boundary [OF inv]
      by (auto intro!: sys_inv_local_step [OF inv]) (auto simp: below_pinned_def)
  next
    case (gc_collect b st store')
    then show ?thesis using sys_inv_collect_step [OF inv] by simp
  next
    case (gc_stats st)
    then show ?thesis
      using pcs sh_inv_mono [OF sh]
      by (auto intro!: sys_inv_step [OF inv] simp: below_pinned_def)
  qed (use pc in auto)
qed

lemma agent_step_inv:
  assumes "sys_inv (Suc r) \<sigma>" and "agent_step (shared \<sigma>) (agents \<sigma> i) sh' q"
  shows "sys_inv r \<lparr>shared = sh', agents = (agents \<sigma>)(i := q),
    raced = raced \<sigma> \<union> newly_raced (\<exists>j. scanning (agents \<sigma> j)) (agents \<sigma> i)\<rparr>"
proof -
  have "agents \<sigma> i = Idle \<or> agents \<sigma> i \<in> range In_txn \<or>
    agents \<sigma> i \<in> range Begin_id \<union> range Begin_placed \<union> range (case_prod Begin_read) \<union> range Ending \<or>
    scanning (agents \<sigma> i) \<or> agents \<sigma> i \<in> range Collect_at \<union> range Add_stats"
    by (cases "agents \<sigma> i") auto
  then show ?thesis
    using agent_step_inv_idle [OF assms] agent_step_inv_registry [OF assms]
      agent_step_inv_txn [OF assms] agent_step_inv_gc [OF assms] by argo
qed

lemma sys_inv_init: "Suc r < 2 ^ 64 \<Longrightarrow> sys_inv r Sys_init"
  by (auto simp: sys_inv_def Sys_init_def sh_inv_def vs_ready_def vs_room_def)
    (simp_all add: VS_init_def TM_init_def active_snapshots_def)

lemma reach_sys_inv: "reach n \<sigma> \<Longrightarrow> Suc (n + r) < 2 ^ 64 \<Longrightarrow> sys_inv r \<sigma>"
proof (induction arbitrary: r rule: reach.induct)
  case reach_init
  then show ?case by (simp add: sys_inv_init)
next
  case (reach_step n \<sigma> \<sigma>')
  then have "sys_inv (Suc r) \<sigma>" by simp
  with reach_step.hyps(2) show ?case
    by (auto elim!: sys_step.cases intro: agent_step_inv)
qed

section \<open>Consequences\<close>

text \<open>The codes and values a transaction reads, and the conflicts its commit would find, are
  the same in two stores that agree from its snapshot on.\<close>

lemma Txn_Get_agree:
  assumes "vs_inv s" "vs_inv s'" "vs.agree (snapshot_version t) s s'"
  shows "st_code (fst (Txn_Get s t k out)) = st_code (fst (Txn_Get s' t k out))"
    and "snd (Txn_Get s t k out) = snd (Txn_Get s' t k out)"
proof -
  have "visible s k (snapshot_version t) = visible s' k (snapshot_version t)"
    using assms(3) by (rule vs.agree_view) simp
  moreover have "k = [] \<or> (\<exists>m m'. VS_GetAsOf s k (snapshot_version t) out =
      (case visible s k (snapshot_version t) of None \<Rightarrow> (NotFound m, out) | Some x \<Rightarrow> (OK, x)) \<and>
    VS_GetAsOf s' k (snapshot_version t) out =
      (case visible s' k (snapshot_version t) of None \<Rightarrow> (NotFound m', out) | Some x \<Rightarrow> (OK, x)))"
    using VS_GetAsOf_visible [OF assms(1)] VS_GetAsOf_visible [OF assms(2)] by blast
  ultimately show "st_code (fst (Txn_Get s t k out)) = st_code (fst (Txn_Get s' t k out))"
    "snd (Txn_Get s t k out) = snd (Txn_Get s' t k out)"
    by (auto simp: Txn_Get_def split: option.splits)
qed

lemma txn_conflicts_agree:
  assumes "vs.agree (snapshot_version t) s s'" "snapshot_version t \<le> VS_CurrentVersion s"
  shows "txn_conflicts s t = txn_conflicts s' t"
  using assms unfolding txn_conflicts_def vs.agree_def by (intro filter_cong) auto

lemma reach_in_txn:
  assumes "reach n \<sigma>" "Suc n < 2 ^ 64" "agents \<sigma> i = In_txn t"
  shows "vs_inv (sh_store (shared \<sigma>))" "vs_inv (sh_ideal (shared \<sigma>))"
    and "reg_of (shared \<sigma>) (txn_id t) = Some (snapshot_version t)"
    and "snapshot_version t \<le> cur (shared \<sigma>)" "txn_wf t" "txn_state t = kActive"
    and "txn_id t \<notin> raced \<sigma> \<Longrightarrow> agree_from (shared \<sigma>) (snapshot_version t)"
proof -
  have inv: "sys_inv 0 \<sigma>"
    using reach_sys_inv [OF assms(1), of 0] assms(2) by simp
  show "vs_inv (sh_store (shared \<sigma>))" "vs_inv (sh_ideal (shared \<sigma>))"
    using sys_invD(1) [OF inv] by (simp_all add: sh_inv_def vs_ready_def)
  show "reg_of (shared \<sigma>) (txn_id t) = Some (snapshot_version t)"
    "snapshot_version t \<le> cur (shared \<sigma>)" "txn_wf t" "txn_state t = kActive"
    "txn_id t \<notin> raced \<sigma> \<Longrightarrow> agree_from (shared \<sigma>) (snapshot_version t)"
    using sys_invD(2) [OF inv, of i] assms(3) by auto
qed

text \<open>Building runs: the machine can be at this shared state with these agents.\<close>

definition reach_at :: "nat \<Rightarrow> Shared \<Rightarrow> (nat \<Rightarrow> pc) \<Rightarrow> bool" where
  "reach_at n sh a \<longleftrightarrow> (\<exists>\<sigma>. reach n \<sigma> \<and> shared \<sigma> = sh \<and> agents \<sigma> = a)"

lemma reach_at_step:
  assumes "reach_at n sh a" "agent_step sh (a i) sh' q"
  shows "reach_at (Suc n) sh' (a(i := q))"
proof -
  obtain \<sigma> where \<sigma>: "reach n \<sigma>" "shared \<sigma> = sh" "agents \<sigma> = a"
    using assms(1) by (auto simp: reach_at_def)
  then have "sys_step \<sigma> \<lparr>shared = sh', agents = (agents \<sigma>)(i := q),
      raced = raced \<sigma> \<union> newly_raced (\<exists>j. scanning (agents \<sigma> j)) (agents \<sigma> i)\<rparr>"
    using assms(2) by (intro sys_step.intros) simp
  from reach_step [OF \<sigma>(1) this] \<sigma>(3) show ?thesis
    by (auto simp: reach_at_def)
qed

lemma reach_at_agent:
  "reach_at n sh a \<Longrightarrow> a i = p \<Longrightarrow> agent_step sh p sh' q \<Longrightarrow> reach_at (Suc n) sh' (a(i := q))"
  using reach_at_step by blast

text \<open>A scan over shards that are all empty.\<close>

lemma reach_at_scan_empty:
  assumes "reach_at n sh (a(i := Scan m False u64_max))" "m + d \<le> kNumShards"
    and "\<And>j. m \<le> j \<Longrightarrow> j < m + d \<Longrightarrow> shards (sh_mgr sh) ! j = []"
  shows "reach_at (n + d) sh (a(i := Scan (m + d) False u64_max))"
  using assms(2,3)
proof (induction d)
  case 0
  with assms(1) show ?case by (simp only: add_0_right)
next
  case (Suc d)
  then have IH: "reach_at (n + d) sh (a(i := Scan (m + d) False u64_max))"
    using Suc.prems by (intro Suc.IH) auto
  have "agent_step sh ((a(i := Scan (m + d) False u64_max)) i) sh (Scan (Suc (m + d)) False u64_max)"
    using Suc.prems by (auto intro!: agent_step.scan_next)
  from reach_at_step [OF IH this] show ?case
    by (simp only: fun_upd_upd add_Suc_right)
qed

section \<open>A transaction that begins under a scan\<close>

text \<open>
  The run: \<open>k\<close> is written (version 1); a collection scans shards 0 and 1, both empty; a
  transaction begins in shard 1 and pins version 1; \<open>k\<close> is written again (version 2); the
  scan finds the other shards empty, so the boundary is the current version, 2, and the
  collection erases version 1.
\<close>

definition race_put :: "Shared \<Rightarrow> val \<Rightarrow> Shared" where
  "race_put sh x =
     set_store sh (fst (snd (VS_Put (sh_store sh) ''k'' x None)))
       (vs_commit (sh_ideal sh) [\<lparr>op_key = ''k'', op_value = Some x\<rparr>])"

definition race1 :: Shared where
  "race1 = race_put (shared Sys_init) ''a''"

definition race2 :: Shared where
  "race2 = race1\<lparr>sh_mgr := record_snapshot (record_snapshot
     (snd (fetch_txn_id (sh_mgr race1))) 1 0) 1 1\<rparr>"

definition race3 :: Shared where
  "race3 = race_put race2 ''b''"

definition race4 :: Shared where
  "race4 = race3\<lparr>sh_store := snd (VS_CollectGarbage (sh_store race3) 2)\<rparr>"

lemma reach_at_put:
  assumes "reach_at n sh a" "a i = Idle"
  shows "reach_at (Suc n) (race_put sh x) a"
proof -
  have "agent_step sh (a i) (race_put sh x) Idle"
    unfolding assms(2) race_put_def
    by (rule agent_step.direct_put) (simp add: VS_Put_def Let_def)
  from reach_at_step [OF assms(1) this] assms(2) show ?thesis
    by (simp add: fun_upd_idem)
qed

lemma ShardFor_1: "ShardFor 1 = 1"
  by (simp add: ShardFor_def kNumShards_def)

lemmas race_defs =
  race1_def race2_def race3_def race4_def race_put_def Sys_init_def set_store_def VS_init_def
  TM_init_def

lemma race_mgr1: "sh_mgr race1 = TM_init"
  by (simp add: race1_def race_put_def set_store_def Sys_init_def)

lemma race_shards:
  "j < kNumShards \<Longrightarrow> shards (sh_mgr race1) ! j = []"
  "j < kNumShards \<Longrightarrow> j \<noteq> 1 \<Longrightarrow> shards (sh_mgr race3) ! j = []"
  by (simp_all add: race3_def race2_def race_put_def set_store_def race_mgr1 record_snapshot_def
      Let_def fetch_txn_id_def ShardFor_1) (simp_all add: TM_init_def)

lemma reach_race1: "reach_at 4 race1 ((\<lambda>_. Idle)(0 := Scan 2 False u64_max))"
proof -
  have "reach_at 0 (shared Sys_init) (\<lambda>_. Idle)"
    unfolding reach_at_def using reach_init by (auto simp: Sys_init_def)
  then have "reach_at 1 race1 (\<lambda>_. Idle)"
    using reach_at_put [of 0 "shared Sys_init" "\<lambda>_. Idle" 2 "''a''"] by (simp add: race1_def)
  then have "reach_at (Suc 1) race1 ((\<lambda>_. Idle)(0 := Scan 0 False u64_max))"
    by (rule reach_at_agent [OF _ _ agent_step.scan_start]) simp
  then have "reach_at 2 race1 ((\<lambda>_. Idle)(0 := Scan 0 False u64_max))"
    by (simp only: Suc_1)
  from reach_at_scan_empty [OF this, of 2] show ?thesis
    by (simp add: race_shards kNumShards_def numeral_2_eq_2 [symmetric] del: Suc_1)
qed

lemma race_begin:
  "agent_step race1 Idle (race1\<lparr>sh_mgr := snd (fetch_txn_id (sh_mgr race1))\<rparr>) (Begin_id 1)"
  "agent_step sh (Begin_placed 1) sh (Begin_read 1 (cur sh))"
  "cur race1 = 1" "cur race3 = 2"
proof -
  show "agent_step race1 Idle (race1\<lparr>sh_mgr := snd (fetch_txn_id (sh_mgr race1))\<rparr>) (Begin_id 1)"
    by (rule agent_step.begin_fetch) (simp add: race_mgr1 fetch_txn_id_def TM_init_def)
  show "agent_step sh (Begin_placed 1) sh (Begin_read 1 (cur sh))"
    by (rule agent_step.begin_read)
  show "cur race1 = 1" "cur race3 = 2"
    by (simp_all add: race_defs VS_Put_def VS_CurrentVersion_def Let_def)
qed

lemma reach_race2:
  "reach_at 8 race2 ((\<lambda>_. Idle)(0 := Scan 2 False u64_max, 1 := In_txn (new_Transaction 1 1)))"
proof -
  let ?a = "(\<lambda>_. Idle)(0 := Scan 2 False u64_max)"
  let ?sh = "race1\<lparr>sh_mgr := snd (fetch_txn_id (sh_mgr race1))\<rparr>"
  let ?sh' = "?sh\<lparr>sh_mgr := record_snapshot (sh_mgr ?sh) 1 0\<rparr>"
  have "reach_at 5 ?sh (?a(1 := Begin_id 1))"
    using reach_at_agent [OF reach_race1 _ race_begin(1), of 1] by simp
  then have "reach_at 6 ?sh' (?a(1 := Begin_placed 1))"
    using reach_at_agent [OF _ _ agent_step.begin_place, of 5 ?sh "?a(1 := Begin_id 1)" 1 1] by simp
  then have "reach_at 7 ?sh' (?a(1 := Begin_read 1 1))"
    using reach_at_agent [OF _ _ race_begin(2), of 6 ?sh' "?a(1 := Begin_placed 1)" 1] race_begin(3)
    by simp
  then show ?thesis
    using reach_at_agent [OF _ _ agent_step.begin_refine, of 7 ?sh' "?a(1 := Begin_read 1 1)" 1 1 1]
    by (simp add: race2_def)
qed

text \<open>The rest of the collection: the remaining shards are empty, so the boundary is the
  current version.\<close>

lemma reach_at_collect_rest:
  assumes "reach_at n sh (a(i := Scan m False u64_max))" "m \<le> kNumShards"
    and "\<And>j. m \<le> j \<Longrightarrow> j < kNumShards \<Longrightarrow> shards (sh_mgr sh) ! j = []"
  shows "\<exists>n' st. n' = n + (kNumShards - m) + 3 \<and>
    reach_at n' (sh\<lparr>sh_store := snd (VS_CollectGarbage (sh_store sh) (cur sh))\<rparr>) (a(i := Add_stats st))"
proof -
  let ?n = "n + (kNumShards - m)" and ?a = "\<lambda>p. a(i := p)"
  have "reach_at ?n sh (?a (Scan kNumShards False u64_max))"
    using reach_at_scan_empty [OF assms(1), of "kNumShards - m"] assms(2,3) by simp
  then have "reach_at (Suc ?n) sh (?a Scan_none)"
    using reach_at_agent [OF _ _ agent_step.scan_inactive, of ?n sh "?a (Scan kNumShards False u64_max)" i]
    by simp
  then have "reach_at (Suc (Suc ?n)) sh (?a (Collect_at (cur sh)))"
    using reach_at_agent [OF _ _ agent_step.scan_default, of "Suc ?n" sh "?a Scan_none" i] by simp
  then have "reach_at (Suc (Suc (Suc ?n))) (sh\<lparr>sh_store := snd (VS_CollectGarbage (sh_store sh) (cur sh))\<rparr>)
      (?a (Add_stats (fst (VS_CollectGarbage (sh_store sh) (cur sh)))))"
    using reach_at_agent [OF _ _ agent_step.gc_collect [OF prod.collapse [symmetric]],
        of "Suc (Suc ?n)" sh "?a (Collect_at (cur sh))" i "cur sh"] by simp
  then show ?thesis by (auto simp: numeral_3_eq_3)
qed

lemma reach_race4:
  "\<exists>a. reach_at 26 race4 a \<and> a 1 = In_txn (new_Transaction 1 1)"
proof -
  let ?a = "(\<lambda>_. Idle)(1 := In_txn (new_Transaction 1 1))"
  have "reach_at 9 race3 (?a(0 := Scan 2 False u64_max))"
    using reach_at_put [OF reach_race2, of 2 "''b''"] by (simp add: race3_def fun_upd_twist)
  from reach_at_collect_rest [OF this] race_shards(2) race_begin(4)
  obtain st where "reach_at 26 race4 (?a(0 := Add_stats st))"
    by (auto simp: race4_def kNumShards_def)
  then show ?thesis
    by (rule exI [of _ "?a(0 := _)", OF conjI]) simp
qed

text \<open>What is left of the snapshot after that run.\<close>

lemma race4_read:
  "Txn_Get (sh_store race4) (new_Transaction 1 1) ''k'' '''' =
     (NotFound ''key did not exist as of version 1'', '''')"
  "Txn_Get (sh_ideal race4) (new_Transaction 1 1) ''k'' '''' = (OK, ''a'')"
  "reg_of race4 1 = Some 1"
  by code_simp+

text \<open>The same run with a deletion of \<open>k\<close> in place of the second write, after the
  transaction has buffered a write of \<open>k\<close>: the collection erases the tombstone with the
  rest of the history, and with it the evidence of the conflict.\<close>

definition race_txn :: Transaction where
  "race_txn = snd (Txn_Put (new_Transaction 1 1) ''k'' ''mine'')"

definition race5 :: Shared where
  "race5 = set_store race2 (fst (snd (VS_Delete (sh_store race2) ''k'' None)))
     (vs_commit (sh_ideal race2) [\<lparr>op_key = ''k'', op_value = None\<rparr>])"

definition race6 :: Shared where
  "race6 = race5\<lparr>sh_store := snd (VS_CollectGarbage (sh_store race5) (cur race5))\<rparr>"

lemma race5_facts:
  "fst (VS_Delete (sh_store race2) ''k'' None) = OK"
  "txn_conflicts (sh_store race6) race_txn = []"
  "txn_conflicts (sh_ideal race6) race_txn = [''k'']"
  by code_simp+

lemma race5_shards: "j < kNumShards \<Longrightarrow> j \<noteq> 1 \<Longrightarrow> shards (sh_mgr race5) ! j = []"
  using race_shards(2) by (simp add: race5_def race3_def race_put_def set_store_def)

lemma reach_race6: "\<exists>a. reach_at 27 race6 a \<and> a 1 = In_txn race_txn"
proof -
  let ?a = "\<lambda>t. (\<lambda>_. Idle)(0 := Scan 2 False u64_max, 1 := In_txn t)"
  have "reach_at 9 race2 (?a race_txn)"
    using reach_at_agent [OF reach_race2 _ agent_step.txn_put, of 1 "new_Transaction 1 1" "''k''" "''mine''"]
    by (simp add: race_txn_def)
  then have "reach_at 10 race5 (?a race_txn)"
    using reach_at_agent [OF _ _ agent_step.direct_delete [OF race5_facts(1)], of 9 "?a race_txn" 2]
    by (simp add: race5_def fun_upd_idem)
  then have "reach_at 10 race5 (((\<lambda>_. Idle)(1 := In_txn race_txn))(0 := Scan 2 False u64_max))"
    by (simp add: fun_upd_twist)
  from reach_at_collect_rest [OF this] race5_shards
  obtain st where "reach_at 27 race6 (((\<lambda>_. Idle)(1 := In_txn race_txn))(0 := Add_stats st))"
    by (auto simp: race6_def kNumShards_def)
  then show ?thesis
    by (rule exI [of _ "((\<lambda>_. Idle)(1 := In_txn race_txn))(0 := _)", OF conjI]) simp
qed

section \<open>Runs\<close>

text \<open>What a step does to the two stores.\<close>

lemma agent_step_stores:
  assumes "agent_step sh q sh' q'"
  obtains (commit) ops where "sh_store sh' = vs_commit (sh_store sh) ops"
      "sh_ideal sh' = vs_commit (sh_ideal sh) ops" "valid_batch ops"
  | (collect) b where "sh_store sh' = vs_collect (sh_store sh) b" "sh_ideal sh' = sh_ideal sh"
  | (same) "sh_store sh' = sh_store sh" "sh_ideal sh' = sh_ideal sh"
  using assms
proof (cases rule: agent_step.cases)
  case (commit_fail t out_keys s store' out')
  then show ?thesis
    using same VS_ABINC_fail [of "sh_store sh" "ops_of (write_set t)" "snapshot_version t"]
    by (simp add: set_store_def)
next
  case (commit_apply t out_keys store' out')
  then show ?thesis
    using commit [of "ops_of (write_set t)"] VS_ABINC_OK [OF commit_apply(5)]
    by (simp add: set_store_def)
next
  case (gc_collect b st store')
  then show ?thesis
    using collect [of b] by (simp add: vs_collect_def)
qed (use commit same VS_Put_OK VS_Delete_OK VS_ApplyBatch_OK in \<open>auto simp: set_store_def\<close>)

lemma sys_step_history:
  assumes "sys_step \<sigma> \<sigma>'" "sys_inv (Suc r) \<sigma>" "v \<le> cur (shared \<sigma>)"
  shows "visible (sh_ideal (shared \<sigma>')) k v = visible (sh_ideal (shared \<sigma>)) k v"
    and "v \<le> cur (shared \<sigma>')"
proof -
  from assms(1) obtain q q' where step: "agent_step (shared \<sigma>) q (shared \<sigma>') q'"
    by (auto elim: sys_step.cases)
  have rdy: "vs_ready (Suc r) (sh_store (shared \<sigma>))" "vs_ready (Suc r) (sh_ideal (shared \<sigma>))"
    and eq: "VS_CurrentVersion (sh_ideal (shared \<sigma>)) = cur (shared \<sigma>)"
    using sys_invD(1) [OF assms(2)] by (auto simp: sh_inv_def vs.agree_def)
  from step show "visible (sh_ideal (shared \<sigma>')) k v = visible (sh_ideal (shared \<sigma>)) k v"
    by (cases rule: agent_step_stores) (use rdy eq assms(3) in \<open>simp_all add: vs.view_commit_old\<close>)
  from step show "v \<le> cur (shared \<sigma>')"
  proof (cases rule: agent_step_stores)
    case (commit ops)
    show ?thesis
      unfolding commit(1) by (rule order_trans [OF assms(3) less_imp_le [OF vs.current_commit [OF rdy(1)]]])
  qed (use assms(3) vs.current_collect in simp_all)
qed

lemma run_history:
  assumes "reach n \<sigma>" "(sys_step ^^ m) \<sigma> \<sigma>'" "Suc (n + m) < 2 ^ 64" "v \<le> cur (shared \<sigma>)"
  shows "reach (n + m) \<sigma>' \<and> v \<le> cur (shared \<sigma>') \<and> raced \<sigma> \<subseteq> raced \<sigma>' \<and>
    visible (sh_ideal (shared \<sigma>')) k v = visible (sh_ideal (shared \<sigma>)) k v"
  using assms(2,3)
proof (induction m arbitrary: \<sigma>')
  case 0
  with assms(1,4) show ?case by simp
next
  case (Suc m)
  then obtain \<tau> where run: "(sys_step ^^ m) \<sigma> \<tau>" and step: "sys_step \<tau> \<sigma>'" by auto
  note IH = Suc.IH [OF run]
  have inv: "sys_inv (Suc 0) \<tau>"
    using reach_sys_inv [of "n + m" \<tau> "Suc 0"] IH Suc.prems(2) by simp
  have "raced \<tau> \<subseteq> raced \<sigma>'"
    using step by (auto elim: sys_step.cases)
  with IH sys_step_history [OF step inv] reach_step [OF _ step] Suc.prems(2) show ?case
    by auto
qed

section \<open>One agent alone\<close>

text \<open>Without interference the steps of an agent add up to the sequential functions.\<close>

definition alone :: "Shared \<times> pc \<Rightarrow> Shared \<times> pc \<Rightarrow> bool" where
  "alone x y \<longleftrightarrow> agent_step (fst x) (snd x) (fst y) (snd y)"

definition world_of :: "Shared \<Rightarrow> World" where
  "world_of sh = \<lparr>w_store = sh_store sh, w_mgr = sh_mgr sh\<rparr>"

lemma aloneI: "agent_step sh p sh' p' \<Longrightarrow> alone (sh, p) (sh', p')"
  by (simp add: alone_def)

lemma alone_step:
  "agent_step sh p sh' p' \<Longrightarrow> alone\<^sup>*\<^sup>* (sh', p') z \<Longrightarrow> alone\<^sup>*\<^sup>* (sh, p) z"
  by (meson aloneI converse_rtranclp_into_rtranclp)

lemma alone_Begin:
  "alone\<^sup>*\<^sup>* (sh, Idle)
     (sh\<lparr>sh_mgr := w_mgr (snd (Begin (world_of sh)))\<rparr>, In_txn (fst (Begin (world_of sh))))"
proof -
  obtain i m where f: "fetch_txn_id (sh_mgr sh) = (i, m)" by fastforce
  show ?thesis
    by (rule alone_step [OF begin_fetch [OF f]], rule alone_step [OF begin_place],
        rule alone_step [OF begin_read], rule alone_step [OF begin_refine])
      (simp add: Begin_def world_of_def f Let_def)
qed

text \<open>The step of a commit with writes, whatever its outcome.\<close>

lemma commit_step_exists:
  assumes "write_set t \<noteq> []"
    and "VS_ApplyBatchIfNoConflict (sh_store sh) (ops_of (write_set t)) (snapshot_version t) (Some 0) ok =
      (s, store', out)"
  shows "\<exists>i t1. agent_step sh (In_txn t) (set_store sh store' i) (Ending t1) \<and> txn_id t1 = txn_id t"
proof (cases "s = OK")
  case True
  with agent_step.commit_apply [OF assms(1), of sh ok store' out] assms(2) show ?thesis
    by (intro exI [of _ "vs_commit (sh_ideal sh) (ops_of (write_set t))"]
        exI [of _ "t\<lparr>txn_state := kCommitted\<rparr>"]) simp
next
  case False
  with assms(2) have "\<not> st_ok s"
    by (auto simp: VS_ApplyBatchIfNoConflict_def Let_def split: if_splits)
  with agent_step.commit_fail [OF assms] show ?thesis
    by (intro exI [of _ "sh_ideal sh"] exI [of _ "t\<lparr>write_set := [], txn_state := kAborted\<rparr>"]) simp
qed

lemma alone_Commit:
  assumes "txn_state t = kActive" "Txn_Commit (world_of sh) t None ok = (st, w', t', ov', ok')"
  shows "\<exists>sh'. alone\<^sup>*\<^sup>* (sh, In_txn t) (sh', Idle) \<and> world_of sh' = w' \<and> sh_stats sh' = sh_stats sh"
proof -
  have "\<exists>sh1 t1. agent_step sh (In_txn t) sh1 (Ending t1) \<and> w' = w_unregister (world_of sh1) t1 \<and>
      sh_stats sh1 = sh_stats sh"
  proof (cases "write_set t = []")
    case True
    then show ?thesis
      using Txn_Commit_readonly [OF assms(1) True] assms(2) agent_step.commit_readonly [OF True, of sh]
      by (intro exI [of _ sh] exI [of _ "t\<lparr>txn_state := kCommitted\<rparr>"])
        (auto simp: w_unregister_def)
  next
    case False
    let ?r = "VS_ApplyBatchIfNoConflict (sh_store sh) (ops_of (write_set t)) (snapshot_version t) (Some 0) ok"
    obtain s store' out where r: "?r = (s, store', out)" by (cases ?r) auto
    obtain i t1 where step: "agent_step sh (In_txn t) (set_store sh store' i) (Ending t1)"
      and t1: "txn_id t1 = txn_id t"
      using commit_step_exists [OF False r] by blast
    have "w' = w_unregister (world_of (set_store sh store' i)) t1"
      using assms False r t1
      by (cases out) (auto simp: Txn_Commit_def world_of_def set_store_def w_unregister_def Let_def
          split: if_splits)
    with step show ?thesis
      by (intro exI [of _ "set_store sh store' i"] exI [of _ t1]) (simp add: set_store_def)
  qed
  then obtain sh1 t1 where "agent_step sh (In_txn t) sh1 (Ending t1)"
    and w': "w' = w_unregister (world_of sh1) t1" and st: "sh_stats sh1 = sh_stats sh" by blast
  then have "alone\<^sup>*\<^sup>* (sh, In_txn t) (sh1\<lparr>sh_mgr := Unregister (sh_mgr sh1) (txn_id t1)\<rparr>, Idle)"
    by (blast intro: alone_step [OF _ alone_step [OF txn_unregister]])
  with w' st show ?thesis
    by (intro exI [of _ "sh1\<lparr>sh_mgr := Unregister (sh_mgr sh1) (txn_id t1)\<rparr>"])
      (simp add: world_of_def w_unregister_def)
qed

lemma alone_scan:
  assumes "length (shards (sh_mgr sh)) = kNumShards" "m \<le> kNumShards"
  shows "alone\<^sup>*\<^sup>* (sh, Scan m a oldest)
    (sh, case_prod (Scan kNumShards) (scan_shards (drop m (shards (sh_mgr sh))) (a, oldest)))"
  using assms(2)
proof (induction "kNumShards - m" arbitrary: m a oldest)
  case 0
  with assms(1) show ?case by simp
next
  case (Suc d)
  then have m: "m < kNumShards" by simp
  obtain a' o' where scan: "scan_shard (shards (sh_mgr sh) ! m) (a, oldest) = (a', o')" by fastforce
  have "drop m (shards (sh_mgr sh)) = shards (sh_mgr sh) ! m # drop (Suc m) (shards (sh_mgr sh))"
    using m assms(1) by (simp add: Cons_nth_drop_Suc)
  with Suc.hyps(1) [of "Suc m" a' o'] Suc.hyps(2) m scan show ?case
    by (intro alone_step [OF scan_next [OF m scan]]) simp
qed

lemma alone_RunOnce:
  assumes "length (shards (sh_mgr sh)) = kNumShards"
    and "RunOnce (world_of sh) (sh_stats sh) = (pass_stats, w', cs')"
  shows "alone\<^sup>*\<^sup>* (sh, Idle) (sh\<lparr>sh_store := w_store w', sh_stats := cs'\<rparr>, Idle)"
proof -
  let ?b = "OldestActiveSnapshot (sh_store sh) (sh_mgr sh)"
  obtain a oldest where scan: "scan_shards (shards (sh_mgr sh)) (False, u64_max) = (a, oldest)"
    by fastforce
  obtain st store' where gc: "VS_CollectGarbage (sh_store sh) ?b = (st, store')" by fastforce
  have "alone\<^sup>*\<^sup>* (sh, Scan kNumShards a oldest) (sh, Collect_at ?b)"
    using scan by (cases a)
      (auto simp: OldestActiveSnapshot_def intro: alone_step [OF scan_active]
        alone_step [OF scan_inactive alone_step [OF scan_default]])
  moreover have "alone\<^sup>*\<^sup>* (sh, Idle) (sh, Scan kNumShards a oldest)"
    using alone_scan [OF assms(1), of 0 False u64_max] scan
    by (intro alone_step [OF scan_start]) simp
  moreover have "alone\<^sup>*\<^sup>* (sh, Collect_at ?b)
      (sh\<lparr>sh_store := store', sh_stats := sh_stats sh + st\<rparr>, Idle)"
    by (rule alone_step [OF gc_collect [OF gc]], rule alone_step [OF gc_stats]) simp
  ultimately show ?thesis
    using assms(2) gc by (auto simp: RunOnce_def world_of_def)
qed

section \<open>A run without a race\<close>

text \<open>As \<open>reach_at\<close>, with no transaction raced.\<close>

definition quiet_at :: "nat \<Rightarrow> Shared \<Rightarrow> (nat \<Rightarrow> pc) \<Rightarrow> Sys \<Rightarrow> bool" where
  "quiet_at n sh a \<sigma> \<longleftrightarrow> reach n \<sigma> \<and> \<sigma> = \<lparr>shared = sh, agents = a, raced = {}\<rparr>"

lemma quiet_step:
  assumes "quiet_at n sh a \<sigma>" "a i = p" "agent_step sh p sh' q" "\<And>j. \<not> scanning (a j)"
  shows "\<exists>\<sigma>'. sys_step \<sigma> \<sigma>' \<and> quiet_at (Suc n) sh' (a(i := q)) \<sigma>'"
proof -
  let ?\<sigma>' = "\<lparr>shared = sh', agents = a(i := q), raced = {}\<rparr>"
  have "sys_step \<sigma> ?\<sigma>'"
    using assms sys_stepI [of \<sigma> i sh' q] by (cases p) (auto simp: quiet_at_def)
  with assms(1) show ?thesis
    by (auto simp: quiet_at_def intro: reach_step)
qed

lemma quiet_agent:
  assumes "quiet_at n sh ((\<lambda>_. Idle)(1 := p)) \<sigma>" "agent_step sh p sh' q" "\<not> scanning p"
  shows "\<exists>\<sigma>'. sys_step \<sigma> \<sigma>' \<and> quiet_at (Suc n) sh' ((\<lambda>_. Idle)(1 := q)) \<sigma>'"
  using quiet_step [OF assms(1) _ assms(2), of 1] assms(3) by (auto split: if_splits)

lemma quiet_put:
  assumes "quiet_at n sh ((\<lambda>_. Idle)(1 := p)) \<sigma>" "\<not> scanning p"
  shows "\<exists>\<sigma>'. sys_step \<sigma> \<sigma>' \<and> quiet_at (Suc n) (race_put sh x) ((\<lambda>_. Idle)(1 := p)) \<sigma>'"
proof -
  have "agent_step sh Idle (race_put sh x) Idle"
    unfolding race_put_def by (rule agent_step.direct_put) (simp add: VS_Put_def Let_def)
  from quiet_step [OF assms(1) _ this, of 2] assms(2) show ?thesis
    by (auto simp: fun_upd_idem split: if_splits)
qed

text \<open>\<open>k\<close> is written, a transaction begins and sees it, then \<open>k\<close> is written again.\<close>

lemma quiet_run:
  "\<exists>\<sigma> \<sigma>'. quiet_at 5 race2 ((\<lambda>_. Idle)(1 := In_txn (new_Transaction 1 1))) \<sigma> \<and>
     sys_step \<sigma> \<sigma>' \<and> quiet_at 6 race3 ((\<lambda>_. Idle)(1 := In_txn (new_Transaction 1 1))) \<sigma>'"
proof -
  let ?a = "\<lambda>p. (\<lambda>_ :: nat. Idle)(1 := p)"
  let ?sh = "race1\<lparr>sh_mgr := snd (fetch_txn_id (sh_mgr race1))\<rparr>"
  let ?sh' = "?sh\<lparr>sh_mgr := record_snapshot (sh_mgr ?sh) 1 0\<rparr>"
  have "quiet_at 0 (shared Sys_init) (?a Idle) Sys_init"
    by (auto simp: quiet_at_def Sys_init_def fun_upd_idem intro: reach_init [unfolded Sys_init_def])
  from quiet_put [OF this, of "''a''"]
  obtain \<sigma>1 where "quiet_at (Suc 0) race1 (?a Idle) \<sigma>1" by (auto simp: race1_def)
  from quiet_agent [OF this race_begin(1)]
  obtain \<sigma>2 where "quiet_at (Suc (Suc 0)) ?sh (?a (Begin_id 1)) \<sigma>2" by auto
  from quiet_agent [OF this agent_step.begin_place]
  obtain \<sigma>3 where "quiet_at 3 ?sh' (?a (Begin_placed 1)) \<sigma>3" by (auto simp: numeral_3_eq_3)
  from quiet_agent [OF this race_begin(2)] race_begin(3)
  obtain \<sigma>4 where "quiet_at 4 ?sh' (?a (Begin_read 1 1)) \<sigma>4" by auto
  from quiet_agent [OF this agent_step.begin_refine]
  obtain \<sigma>5 where "quiet_at 5 race2 (?a (In_txn (new_Transaction 1 1))) \<sigma>5"
    by (auto simp: race2_def)
  with quiet_put [OF this, of "''b''"] show ?thesis
    by (auto simp: race3_def)
qed

end
