(* ===== verification/Snapshot_Isolation.thy ===== *)
theory Snapshot_Isolation
  imports Mvcc_Prelude
begin

text \<open>
  Snapshot isolation as an abstract machine, with no versions, no shards and no garbage: a log
  of committed batches and, per agent, at most one transaction with its position in the log and
  its buffered writes. A transaction reads the log up to its position under its own writes; it
  may commit exactly if no batch behind its position touches a key it has written. The second
  part of the theory is the interface of forward simulations.
\<close>

section \<open>The machine\<close>

type_synonym si_batch = "key \<Rightarrow> val option option"

text \<open>An entry of the log: the position its transaction read at, and what it wrote. A write
  outside a transaction counts as one that read all that was there.\<close>

record SI_Entry =
  se_snap :: nat
  se_writes :: si_batch

record SI_Txn =
  si_snap :: nat
  si_buf :: si_batch

record SI =
  si_log :: "SI_Entry list"
  si_txns :: "nat \<Rightarrow> SI_Txn option"

definition SI_init :: SI where
  "SI_init = \<lparr>si_log = [], si_txns = (\<lambda>_. None)\<rparr>"

definition si_apply :: "(key \<Rightarrow> val option) \<Rightarrow> si_batch \<Rightarrow> key \<Rightarrow> val option" where
  "si_apply m b k = (case b k of None \<Rightarrow> m k | Some x \<Rightarrow> x)"

definition si_view :: "SI_Entry list \<Rightarrow> key \<Rightarrow> val option" where
  "si_view log = foldl (\<lambda>m e. si_apply m (se_writes e)) (\<lambda>_. None) log"

definition si_read :: "SI_Entry list \<Rightarrow> SI_Txn \<Rightarrow> key \<Rightarrow> val option" where
  "si_read log x = si_apply (si_view (take (si_snap x) log)) (si_buf x)"

definition si_touched :: "SI_Entry list \<Rightarrow> nat \<Rightarrow> key \<Rightarrow> bool" where
  "si_touched log n k \<longleftrightarrow> list_ex (\<lambda>e. se_writes e k \<noteq> None) (drop n log)"

definition si_conflicts :: "SI_Entry list \<Rightarrow> SI_Txn \<Rightarrow> key set" where
  "si_conflicts log x = {k \<in> dom (si_buf x). si_touched log (si_snap x) k}"

abbreviation si_end :: "SI \<Rightarrow> nat \<Rightarrow> SI" where
  "si_end a i \<equiv> a\<lparr>si_txns := (si_txns a)(i := None)\<rparr>"

inductive si_step :: "SI \<Rightarrow> SI \<Rightarrow> bool" where
  si_write: "dom b \<noteq> {} \<Longrightarrow> [] \<notin> dom b \<Longrightarrow>
    si_step a (a\<lparr>si_log := si_log a @ [\<lparr>se_snap = length (si_log a), se_writes = b\<rparr>]\<rparr>)"
| si_begin: "si_txns a i = None \<Longrightarrow>
    si_step a (a\<lparr>si_txns := (si_txns a)(i \<mapsto> \<lparr>si_snap = length (si_log a), si_buf = Map.empty\<rparr>)\<rparr>)"
| si_put: "si_txns a i = Some x \<Longrightarrow> k \<noteq> [] \<Longrightarrow>
    si_step a (a\<lparr>si_txns := (si_txns a)(i \<mapsto> x\<lparr>si_buf := (si_buf x)(k \<mapsto> Some v)\<rparr>)\<rparr>)"
| si_delete: "si_txns a i = Some x \<Longrightarrow> k \<noteq> [] \<Longrightarrow> si_read (si_log a) x k \<noteq> None \<Longrightarrow>
    si_step a (a\<lparr>si_txns := (si_txns a)(i \<mapsto> x\<lparr>si_buf := (si_buf x)(k \<mapsto> None)\<rparr>)\<rparr>)"
| si_commit: "si_txns a i = Some x \<Longrightarrow> dom (si_buf x) \<noteq> {} \<Longrightarrow> si_conflicts (si_log a) x = {} \<Longrightarrow>
    si_step a (si_end (a\<lparr>si_log := si_log a @ [\<lparr>se_snap = si_snap x, se_writes = si_buf x\<rparr>]\<rparr>) i)"
| si_commit_readonly: "si_txns a i = Some x \<Longrightarrow> dom (si_buf x) = {} \<Longrightarrow> si_step a (si_end a i)"
| si_refuse: "si_txns a i = Some x \<Longrightarrow> si_conflicts (si_log a) x \<noteq> {} \<Longrightarrow> si_step a (si_end a i)"
| si_abort: "si_txns a i = Some x \<Longrightarrow> si_step a (si_end a i)"

lemma si_view_Nil [simp]: "si_view [] = Map.empty"
  by (simp add: si_view_def)

lemma si_view_snoc [simp]: "si_view (log @ [e]) = si_apply (si_view log) (se_writes e)"
  by (simp add: si_view_def)

lemma si_touched_snoc:
  "n \<le> length log \<Longrightarrow> si_touched (log @ [e]) n k \<longleftrightarrow> si_touched log n k \<or> se_writes e k \<noteq> None"
  by (simp add: si_touched_def)

lemma si_touched_end [simp]: "length log \<le> n \<Longrightarrow> \<not> si_touched log n k"
  by (simp add: si_touched_def)

section \<open>First committer wins\<close>

text \<open>Two transactions of the log that overlapped, the later one having read at a position
  before the earlier one, have written disjoint sets of keys.\<close>

definition first_committer_wins :: "SI_Entry list \<Rightarrow> bool" where
  "first_committer_wins log \<longleftrightarrow>
     (\<forall>j<length log. \<forall>i<j. se_snap (log ! j) \<le> i \<longrightarrow>
        dom (se_writes (log ! i)) \<inter> dom (se_writes (log ! j)) = {})"

lemma si_touched_nth:
  "si_touched log n k \<longleftrightarrow> (\<exists>i<length log. n \<le> i \<and> se_writes (log ! i) k \<noteq> None)"
proof
  assume "si_touched log n k"
  then obtain j where "j < length log - n" "se_writes (log ! (n + j)) k \<noteq> None"
    by (auto simp: si_touched_def list_ex_length)
  then show "\<exists>i<length log. n \<le> i \<and> se_writes (log ! i) k \<noteq> None"
    by (intro exI [of _ "n + j"]) simp
next
  assume "\<exists>i<length log. n \<le> i \<and> se_writes (log ! i) k \<noteq> None"
  then obtain i where "i < length log" "n \<le> i" "se_writes (log ! i) k \<noteq> None" by blast
  then show "si_touched log n k"
    by (auto simp: si_touched_def list_ex_length intro!: exI [of _ "i - n"])
qed

lemma first_committer_wins_snoc:
  "first_committer_wins (log @ [e]) \<longleftrightarrow> first_committer_wins log \<and>
     (\<forall>k \<in> dom (se_writes e). \<not> si_touched log (se_snap e) k)"
proof -
  define ok where "ok log j \<longleftrightarrow> (\<forall>i<j. se_snap (log ! j) \<le> i \<longrightarrow>
    dom (se_writes (log ! i)) \<inter> dom (se_writes (log ! j)) = {})" for log :: "SI_Entry list" and j
  have old: "ok (log @ [e]) j \<longleftrightarrow> ok log j" if "j < length log" for j
    using that by (auto simp: ok_def nth_append)
  have new: "ok (log @ [e]) (length log) \<longleftrightarrow> (\<forall>k \<in> dom (se_writes e). \<not> si_touched log (se_snap e) k)"
    unfolding ok_def si_touched_nth domIff [symmetric]
    by (simp add: nth_append del: not_None_eq) blast
  show ?thesis
    unfolding first_committer_wins_def ok_def [symmetric] length_append_singleton All_less_Suc new
    using old by blast
qed

text \<open>What every reachable state satisfies: positions exist, and the first committer wins.\<close>

definition si_inv :: "SI \<Rightarrow> bool" where
  "si_inv a \<longleftrightarrow>
     first_committer_wins (si_log a) \<and>
     (\<forall>i x. si_txns a i = Some x \<longrightarrow> si_snap x \<le> length (si_log a) \<and> si_buf x [] = None) \<and>
     (\<forall>e \<in> set (si_log a). se_writes e [] = None)"

lemma si_inv_init: "si_inv SI_init"
  by (simp add: si_inv_def SI_init_def first_committer_wins_def)

lemma si_inv_step: "si_step a a' \<Longrightarrow> si_inv a \<Longrightarrow> si_inv a'"
  by (induction rule: si_step.induct)
    (auto simp: si_inv_def first_committer_wins_snoc si_conflicts_def split: if_splits
      intro: le_SucI)

lemma si_inv_reachable: "si_step\<^sup>*\<^sup>* SI_init a \<Longrightarrow> si_inv a"
  by (induction rule: rtranclp_induct) (auto intro: si_inv_init si_inv_step)

section \<open>Forward simulation\<close>

text \<open>
  A run of the concrete machine that stays \<open>good\<close> is matched, step by step, by one of the
  abstract machine; the relation is kept at every point. \<open>good\<close> is a condition that, once
  lost, stays lost.
\<close>

locale forward_simulation =
  fixes cinit :: 'c and cstep :: "'c \<Rightarrow> 'c \<Rightarrow> bool" and good :: "'c \<Rightarrow> bool"
    and ainit :: 'a and astep :: "'a \<Rightarrow> 'a \<Rightarrow> bool" and rel :: "'c \<Rightarrow> 'a \<Rightarrow> bool"
  assumes rel_init: "rel cinit ainit"
    and good_before: "cstep c c' \<Longrightarrow> good c' \<Longrightarrow> good c"
    and rel_step: "cstep\<^sup>*\<^sup>* cinit c \<Longrightarrow> good c \<Longrightarrow> rel c a \<Longrightarrow> cstep c c' \<Longrightarrow> good c' \<Longrightarrow>
      \<exists>a'. astep\<^sup>=\<^sup>= a a' \<and> rel c' a'"
begin

lemma run_matched: "cstep\<^sup>*\<^sup>* cinit c \<Longrightarrow> good c \<Longrightarrow> \<exists>a. astep\<^sup>*\<^sup>* ainit a \<and> rel c a"
proof (induction rule: rtranclp_induct)
  case base
  then show ?case using rel_init by blast
next
  case (step c c')
  then obtain a where "astep\<^sup>*\<^sup>* ainit a" "rel c a"
    using good_before by blast
  moreover from this step good_before obtain a' where "astep\<^sup>=\<^sup>= a a'" "rel c' a'"
    using rel_step by blast
  ultimately show ?case
    by (auto intro: rtranclp.rtrancl_into_rtrancl)
qed

end

end
