(* ===== verification/SI_Refinement.thy ===== *)
theory SI_Refinement
  imports Concurrency Snapshot_Isolation
begin

text \<open>
  The interleaved system refines the abstract machine of snapshot isolation. The abstract
  \<open>begin\<close> happens when \<open>Begin\<close> reads the current version, the abstract commit at the
  validated batch; the other critical sections (ids, registry, scans, collections) are
  invisible. The refinement covers runs in which no transaction registers under a scan.
\<close>

section \<open>The store as a log\<close>

text \<open>A store that is never collected represents a log: version \<open>v\<close> is the log's prefix of
  length \<open>v\<close>, and a key is newer than \<open>v\<close> if the rest of the log touches it.\<close>

definition log_rel :: "VersionStore \<Rightarrow> SI_Entry list \<Rightarrow> bool" where
  "log_rel s log \<longleftrightarrow>
     unat (VS_CurrentVersion s) = length log \<and>
     (\<forall>k v. v \<le> VS_CurrentVersion s \<longrightarrow>
        visible s k v = si_view (take (unat v) log) k \<and>
        (newer_than (vs_table s) v k \<longleftrightarrow> si_touched log (unat v) k))"

lemma log_relD:
  assumes "log_rel s log"
  shows "unat (VS_CurrentVersion s) = length log"
    and "v \<le> VS_CurrentVersion s \<Longrightarrow> visible s k v = si_view (take (unat v) log) k"
    and "v \<le> VS_CurrentVersion s \<Longrightarrow> newer_than (vs_table s) v k \<longleftrightarrow> si_touched log (unat v) k"
  using assms by (simp_all add: log_rel_def)

lemma log_rel_init: "log_rel VS_init []"
  by (auto simp: log_rel_def VS_init_def VS_CurrentVersion_def visible_def hist_of_def
      newer_than_hist_of last_newer_def)

lemma log_rel_commit:
  assumes rel: "log_rel s log" and ready: "vs_ready (Suc r) s"
  shows "log_rel (vs_commit s ops) (log @ [\<lparr>se_snap = m, se_writes = batch_value ops\<rparr>])"
proof -
  let ?c = "VS_CurrentVersion s"
  have len: "unat ?c = length log"
    by (rule log_relD(1) [OF rel])
  have less: "?c < ?c + 1"
    using vs.current_commit [OF ready, of ops] by simp
  then have unat: "unat (?c + 1) = Suc (unat ?c)"
    by unat_arith
  have old: "unat v \<le> length log" if "v \<le> ?c" for v
    using that len by (metis word_le_nat_alt)
  have inv: "vs_inv s"
    using ready by (simp add: vs_ready_def)
  have "visible (vs_commit s ops) k v =
      si_view (take (unat v) (log @ [\<lparr>se_snap = m, se_writes = batch_value ops\<rparr>])) k \<and>
    (newer_than (vs_table (vs_commit s ops)) v k \<longleftrightarrow>
      si_touched (log @ [\<lparr>se_snap = m, se_writes = batch_value ops\<rparr>]) (unat v) k)"
    if v: "v \<le> ?c + 1" for v k
  proof (cases "v \<le> ?c")
    case True
    then show ?thesis
      using ready log_relD(2,3) [OF rel True] old [OF True]
      by (simp add: vs.view_commit_old vs.changed_commit si_touched_snoc)
  next
    case False
    then have eq: "v = ?c + 1"
      using v less by unat_arith
    have "visible s k (?c + 1) = si_view log k"
      using log_relD(2) [OF rel order_refl, of k] len less inv
        visible_at_or_after_current [OF inv order_refl] visible_at_or_after_current [OF inv less_imp_le [OF less]]
      by simp
    then show ?thesis
      using vs.view_commit_new [OF ready less, of ops k] vs.changed_new [OF ready less, of ops k] len
      by (simp add: eq unat si_apply_def split: option.split)
  qed
  then show ?thesis
    using len by (simp add: log_rel_def unat)
qed

section \<open>Abstract transactions\<close>

fun txn_abs :: "pc \<Rightarrow> SI_Txn option" where
  "txn_abs (Begin_read i v) = Some \<lparr>si_snap = unat v, si_buf = Map.empty\<rparr>"
| "txn_abs (In_txn t) = Some \<lparr>si_snap = unat (snapshot_version t), si_buf = um_find (write_set t)\<rparr>"
| "txn_abs _ = None"

definition si_rel :: "Sys \<Rightarrow> SI \<Rightarrow> bool" where
  "si_rel \<sigma> a \<longleftrightarrow>
     log_rel (sh_ideal (shared \<sigma>)) (si_log a) \<and> si_txns a = (\<lambda>i. txn_abs (agents \<sigma> i))"

lemma si_rel_init: "si_rel Sys_init SI_init"
  using log_rel_init by (simp add: si_rel_def Sys_init_def SI_init_def)

text \<open>Reads and conflicts of a transaction, concretely and abstractly.\<close>

lemma txn_view_abs:
  assumes "log_rel (sh_ideal sh) log" "agree_from sh (snapshot_version t)" "snapshot_version t \<le> cur sh"
  shows "txn_view (sh_store sh) t k =
    si_read log \<lparr>si_snap = unat (snapshot_version t), si_buf = um_find (write_set t)\<rparr> k"
proof -
  have "snapshot_version t \<le> VS_CurrentVersion (sh_ideal sh)"
    using assms(2,3) by (simp add: vs.agree_def)
  with log_relD(2) [OF assms(1)] vs.agree_view [OF assms(2) order_refl, of k] show ?thesis
    by (simp add: txn_view_def si_read_def si_apply_def split: option.split)
qed

lemma txn_conflicts_abs:
  assumes "log_rel (sh_ideal sh) log" "agree_from sh (snapshot_version t)" "snapshot_version t \<le> cur sh"
  shows "set (txn_conflicts (sh_store sh) t) =
    si_conflicts log \<lparr>si_snap = unat (snapshot_version t), si_buf = um_find (write_set t)\<rparr>"
proof -
  have "snapshot_version t \<le> VS_CurrentVersion (sh_ideal sh)"
    using assms(2,3) by (simp add: vs.agree_def)
  then have "newer_than (vs_table (sh_ideal sh)) (snapshot_version t) k \<longleftrightarrow>
      si_touched log (unat (snapshot_version t)) k" for k
    by (rule log_relD(3) [OF assms(1)])
  moreover have "txn_conflicts (sh_store sh) t = txn_conflicts (sh_ideal sh) t"
    by (rule txn_conflicts_agree [OF assms(2,3)])
  moreover have "dom (um_find (write_set t)) = fst ` set (write_set t)"
    by (simp add: um_find_def [abs_def] dom_map_of_conv_image_fst)
  ultimately show ?thesis
    by (auto simp: txn_conflicts_def si_conflicts_def)
qed

text \<open>A buffered deletion, if it is one, has the abstract guard and effect.\<close>

lemma Txn_Delete_abs:
  assumes "vs_inv s" "txn_wf t" "txn_state t = kActive"
  shows "snd (Txn_Delete s t k) = t \<or>
    k \<noteq> [] \<and> txn_view s t k \<noteq> None \<and>
    um_find (write_set (snd (Txn_Delete s t k))) = (um_find (write_set t))(k \<mapsto> None)"
proof (cases "k = []")
  case True
  with Txn_empty_key(3) [OF assms(2,3)] show ?thesis by simp
next
  case False
  show ?thesis
    using Txn_Delete_view [OF assms(1,3) False]
    by (auto simp: Txn_Delete_def case_prod_beta split: if_splits option.splits)
qed

section \<open>Every step is matched\<close>

text \<open>What a step of agent \<open>i\<close> to the shared state \<open>sh'\<close> and program counter \<open>q\<close> has to be
  answered with.\<close>

definition si_match :: "SI \<Rightarrow> nat \<Rightarrow> Shared \<Rightarrow> pc \<Rightarrow> bool" where
  "si_match a i sh' q \<longleftrightarrow>
     (\<exists>a'. si_step\<^sup>=\<^sup>= a a' \<and> log_rel (sh_ideal sh') (si_log a') \<and>
        si_txns a' = (si_txns a)(i := txn_abs q))"

lemma si_match_stutter:
  assumes "log_rel (sh_ideal sh') (si_log a)" "si_txns a i = txn_abs q"
  shows "si_match a i sh' q"
  unfolding si_match_def using assms by (intro exI [of _ a]) (auto simp: fun_upd_idem)

lemma si_match_step:
  assumes "si_step a a'" "log_rel (sh_ideal sh') (si_log a')" "si_txns a' = (si_txns a)(i := txn_abs q)"
  shows "si_match a i sh' q"
  using assms unfolding si_match_def by blast

lemma valid_batch_dom:
  assumes "valid_batch ops"
  shows "dom (batch_value ops) \<noteq> {}" and "[] \<notin> dom (batch_value ops)"
proof -
  have "dom (batch_value ops) = op_key ` set ops"
    using batch_value_eq_None_iff by (auto simp: dom_def)
  with assms show "dom (batch_value ops) \<noteq> {}" "[] \<notin> dom (batch_value ops)"
    by (auto simp: valid_batch_def has_empty_key_def list_ex_iff)
qed

lemma si_match_write:
  assumes "log_rel (sh_ideal sh) (si_log a)" "sh_inv (Suc r) sh" "valid_batch ops"
    and "sh_ideal sh' = vs_commit (sh_ideal sh) ops" "si_txns a i = None"
  shows "si_match a i sh' Idle"
proof (rule si_match_step [OF si_write [OF valid_batch_dom [OF assms(3)]]])
  show "log_rel (sh_ideal sh') (si_log (a\<lparr>si_log := si_log a @
      [\<lparr>se_snap = length (si_log a), se_writes = batch_value ops\<rparr>]\<rparr>))"
    using assms(1,2) log_rel_commit by (auto simp: assms(4) sh_inv_def)
qed (use assms(5) in \<open>auto simp: fun_upd_idem\<close>)

text \<open>Agent \<open>i\<close> is inside transaction \<open>t\<close>, and \<open>x\<close> is its abstract counterpart.\<close>

definition si_at :: "nat \<Rightarrow> Shared \<Rightarrow> SI \<Rightarrow> nat \<Rightarrow> Transaction \<Rightarrow> SI_Txn \<Rightarrow> bool" where
  "si_at r sh a i t x \<longleftrightarrow>
     log_rel (sh_ideal sh) (si_log a) \<and> sh_inv (Suc r) sh \<and> pc_inv {} sh (In_txn t) \<and>
     x = \<lparr>si_snap = unat (snapshot_version t), si_buf = um_find (write_set t)\<rparr> \<and>
     si_txns a i = Some x"

lemma si_atD:
  assumes "si_at r sh a i t x"
  shows "log_rel (sh_ideal sh) (si_log a)" "si_txns a i = Some x" "si_buf x = um_find (write_set t)"
    and "txn_wf t" "txn_state t = kActive" "vs_inv (sh_store sh)" "vs_ready (Suc r) (sh_ideal sh)"
    and "txn_view (sh_store sh) t k = si_read (si_log a) x k"
    and "set (txn_conflicts (sh_store sh) t) = si_conflicts (si_log a) x"
    and "Some x = txn_abs (In_txn t)"
  using assms txn_view_abs [of sh "si_log a" t k] txn_conflicts_abs [of sh "si_log a" t]
  by (auto simp: si_at_def sh_inv_def vs_ready_def)

lemma si_match_same:
  assumes "si_at r sh a i t x"
  shows "si_match a i sh (In_txn t)"
  using si_match_stutter si_atD(1,2,10) [OF assms] by simp

lemma si_match_put:
  assumes "si_at r sh a i t x"
  shows "si_match a i sh (In_txn (snd (Txn_Put t k v)))"
proof (cases "k = []")
  case True
  with si_match_same [OF assms] si_atD(4,5) [OF assms] show ?thesis
    by (simp add: Txn_empty_key)
next
  case False
  with assms show ?thesis
    using si_match_step [OF si_put [OF si_atD(2) [OF assms] False]] by (simp add: si_at_def Txn_Put_def)
qed

lemma si_match_delete:
  assumes "si_at r sh a i t x"
  shows "si_match a i sh (In_txn (snd (Txn_Delete (sh_store sh) t k)))"
  using Txn_Delete_abs [OF si_atD(6,4,5) [OF assms], of k]
proof (elim disjE conjE)
  assume "snd (Txn_Delete (sh_store sh) t k) = t"
  with si_match_same [OF assms] show ?thesis by simp
next
  assume k: "k \<noteq> []" "txn_view (sh_store sh) t k \<noteq> None"
    and "um_find (write_set (snd (Txn_Delete (sh_store sh) t k))) = (um_find (write_set t))(k \<mapsto> None)"
  with assms si_atD(8) [OF assms, of k] show ?thesis
    using si_match_step [OF si_delete [OF si_atD(2) [OF assms] k(1)]] by (simp add: si_at_def)
qed

lemma si_match_commit:
  assumes "si_at r sh a i t x"
    and "VS_ApplyBatchIfNoConflict (sh_store sh) (ops_of (write_set t)) (snapshot_version t) ov keys =
      (OK, store', out')"
  shows "si_match a i (set_store sh store' (vs_commit (sh_ideal sh) (ops_of (write_set t)))) (Ending t')"
proof -
  note D = si_atD [OF assms(1)] and ok = VS_ABINC_OK [OF assms(2)]
  have buf: "batch_value (ops_of (write_set t)) = si_buf x"
    using D(3,4) batch_value_ops_of by (auto simp: txn_wf_def)
  have "si_conflicts (si_log a) x = {}"
    using ok(3) D(9) by (simp add: find_conflicts_txn)
  moreover have "dom (si_buf x) \<noteq> {}"
    using valid_batch_dom(1) [OF ok(2)] buf by simp
  ultimately show ?thesis
    using si_match_step [OF si_commit [OF D(2)]] log_rel_commit [OF D(1,7), of "ops_of (write_set t)"]
    by (simp add: buf set_store_def)
qed

lemma si_match_end:
  assumes "si_at r sh a i t x"
  shows "si_match a i sh (Ending t')"
  using si_match_step [OF si_abort [OF si_atD(2) [OF assms]]] si_atD(1) [OF assms] by simp

lemma si_match_readonly:
  assumes "si_at r sh a i t x" "write_set t = []"
  shows "si_match a i sh (Ending t')"
proof -
  have "dom (si_buf x) = {}"
    using si_atD(3) [OF assms(1)] assms(2) by auto
  from si_match_step [OF si_commit_readonly [OF si_atD(2) [OF assms(1)] this]] si_atD(1) [OF assms(1)]
  show ?thesis by simp
qed

text \<open>A commit is refused only for a conflict: the batch of a transaction is valid.\<close>

lemma si_match_refuse:
  assumes "si_at r sh a i t x" "write_set t \<noteq> []"
    and "VS_ApplyBatchIfNoConflict (sh_store sh) (ops_of (write_set t)) (snapshot_version t) ov keys =
      (s, store', out')" "\<not> st_ok s"
  shows "si_match a i (set_store sh store' (sh_ideal sh)) (Ending t')"
proof -
  note D = si_atD [OF assms(1)]
  have "find_conflicts (vs_table (sh_store sh)) (snapshot_version t) (ops_of (write_set t)) \<noteq> []"
    using assms(2-4) D(4) by (auto simp: VS_ApplyBatchIfNoConflict_def txn_wf_def Let_def split: if_splits)
  then have "si_conflicts (si_log a) x \<noteq> {}"
    by (simp add: find_conflicts_txn flip: D(9))
  from si_match_step [OF si_refuse [OF D(2) this]] D(1) VS_ABINC_fail [OF assms(3,4)] show ?thesis
    by simp
qed

lemma si_match_txn:
  assumes at: "si_at r sh a i t x" and step: "agent_step sh (In_txn t) sh' q"
  shows "si_match a i sh' q"
  using step
proof (cases rule: agent_step.cases)
  case (commit_apply out_keys store' out')
  with si_match_commit [OF at] show ?thesis by simp
next
  case (commit_fail out_keys s store' out')
  with si_match_refuse [OF at] show ?thesis by simp
qed (simp_all add: si_match_same [OF at] si_match_put [OF at] si_match_delete [OF at]
    si_match_end [OF at] si_match_readonly [OF at])

lemma si_match_agent_step:
  assumes inv: "sys_inv (Suc r) \<sigma>" and unraced: "raced \<sigma> = {}" and rel: "si_rel \<sigma> a"
    and step: "agent_step (shared \<sigma>) (agents \<sigma> i) sh' q"
  shows "si_match a i sh' q"
proof -
  note sh = sys_invD(1) [OF inv]
  have log: "log_rel (sh_ideal (shared \<sigma>)) (si_log a)" and txns: "si_txns a i = txn_abs (agents \<sigma> i)"
    using rel by (simp_all add: si_rel_def)
  have cur: "unat (cur (shared \<sigma>)) = length (si_log a)"
    using log_relD(1) [OF log] sh by (simp add: sh_inv_def vs.agree_def)
  note direct = si_match_write [OF log sh, of _ sh' i]
  show ?thesis
  proof (cases "agents \<sigma> i \<in> range In_txn")
    case True
    then obtain t where t: "agents \<sigma> i = In_txn t" by blast
    have "si_at r (shared \<sigma>) a i t (the (txn_abs (In_txn t)))"
      using log sh sys_invD(2) [OF inv, of i] unraced txns by (simp add: si_at_def t)
    then show ?thesis
      using si_match_txn step by (simp add: t)
  next
    case False
    from step show ?thesis
    proof (cases rule: agent_step.cases)
      case (direct_put k v)
      then show ?thesis using direct VS_Put_OK(2) txns by (auto simp: set_store_def)
    next
      case (direct_delete k)
      then show ?thesis using direct VS_Delete_OK(2) txns by (auto simp: set_store_def)
    next
      case (direct_batch ops)
      then show ?thesis using direct VS_ApplyBatch_OK(2) txns by (auto simp: set_store_def)
    next
      case (begin_read k)
      then show ?thesis
        using si_match_step [OF si_begin [of a i]] log txns cur by simp
    qed (use False log txns in \<open>auto intro!: si_match_stutter ext\<close>)
  qed
qed

section \<open>The simulation\<close>

text \<open>The concrete states carry the number of steps; a run is good while the counters have
  room and no transaction has registered under a scan.\<close>

definition run_step :: "nat \<times> Sys \<Rightarrow> nat \<times> Sys \<Rightarrow> bool" where
  "run_step c c' \<longleftrightarrow> fst c' = Suc (fst c) \<and> sys_step (snd c) (snd c')"

definition run_good :: "nat \<times> Sys \<Rightarrow> bool" where
  "run_good c \<longleftrightarrow> Suc (fst c) < 2 ^ 64 \<and> raced (snd c) = {}"

lemma run_step_reach: "run_step\<^sup>*\<^sup>* (0, Sys_init) c \<longleftrightarrow> reach (fst c) (snd c)"
proof
  show "run_step\<^sup>*\<^sup>* (0, Sys_init) c \<Longrightarrow> reach (fst c) (snd c)"
    by (induction rule: rtranclp_induct) (auto simp: run_step_def intro: reach.intros)
  have "reach n \<sigma> \<Longrightarrow> run_step\<^sup>*\<^sup>* (0, Sys_init) (n, \<sigma>)" for n \<sigma>
    by (induction rule: reach.induct)
      (auto simp: run_step_def intro: rtranclp.rtrancl_into_rtrancl)
  then show "reach (fst c) (snd c) \<Longrightarrow> run_step\<^sup>*\<^sup>* (0, Sys_init) c"
    by (metis prod.collapse)
qed

lemma si_rel_step:
  assumes "sys_inv (Suc r) \<sigma>" "raced \<sigma> = {}" "si_rel \<sigma> a" "sys_step \<sigma> \<sigma>'"
  shows "\<exists>a'. si_step\<^sup>=\<^sup>= a a' \<and> si_rel \<sigma>' a'"
proof -
  from assms(4) obtain i q where step: "agent_step (shared \<sigma>) (agents \<sigma> i) (shared \<sigma>') q"
    and agents: "agents \<sigma>' = (agents \<sigma>)(i := q)"
    by (cases rule: sys_step.cases) auto
  from si_match_agent_step [OF assms(1-3) step] obtain a' where "si_step\<^sup>=\<^sup>= a a'"
      "log_rel (sh_ideal (shared \<sigma>')) (si_log a')" "si_txns a' = (si_txns a)(i := txn_abs q)"
    by (auto simp: si_match_def)
  moreover from this(3) have "si_txns a' = (\<lambda>j. txn_abs (agents \<sigma>' j))"
    using assms(3) by (simp add: si_rel_def agents fun_eq_iff)
  ultimately show ?thesis
    by (auto simp: si_rel_def)
qed

interpretation si: forward_simulation "(0, Sys_init)" run_step run_good SI_init si_step
  "\<lambda>c. si_rel (snd c)"
proof unfold_locales
  show "si_rel (snd (0, Sys_init)) SI_init"
    by (simp add: si_rel_init)
  show "run_good c" if "run_step c c'" "run_good c'" for c c'
    using that by (auto simp: run_step_def run_good_def elim!: sys_step.cases)
  show "\<exists>a'. si_step\<^sup>=\<^sup>= a a' \<and> si_rel (snd c') a'"
    if "run_step\<^sup>*\<^sup>* (0, Sys_init) c" "run_good c" "si_rel (snd c) a" "run_step c c'" "run_good c'"
    for c c' a
  proof -
    have "sys_inv (Suc 0) (snd c)"
      using that by (intro reach_sys_inv [of "fst c"]) (auto simp: run_step_reach run_good_def run_step_def)
    then show ?thesis
      using that si_rel_step by (auto simp: run_good_def run_step_def)
  qed
qed

text \<open>What the relation says of a transaction.\<close>

lemma si_rel_txn:
  assumes "reach n \<sigma>" "Suc n < 2 ^ 64" "raced \<sigma> = {}" "si_rel \<sigma> a" "agents \<sigma> i = In_txn t"
  shows "\<exists>x. si_txns a i = Some x \<and> si_snap x = unat (snapshot_version t) \<and>
    txn_view (sh_store (shared \<sigma>)) t = si_read (si_log a) x \<and>
    set (txn_conflicts (sh_store (shared \<sigma>)) t) = si_conflicts (si_log a) x"
proof -
  note R = reach_in_txn [OF assms(1,2,5)]
  have agree: "agree_from (shared \<sigma>) (snapshot_version t)"
    using R(7) assms(3) by simp
  have log: "log_rel (sh_ideal (shared \<sigma>)) (si_log a)" and "si_txns a i = txn_abs (In_txn t)"
    using assms(4,5) by (simp_all add: si_rel_def)
  with txn_view_abs [OF log agree R(4)] txn_conflicts_abs [OF log agree R(4)] show ?thesis
    by auto
qed

text \<open>The observable answers: what a read returns and whether a commit is accepted.\<close>

lemma Txn_Get_iff:
  assumes "vs_inv s" "txn_state t = kActive" "k \<noteq> []"
  shows "Txn_Get s t k out = (OK, v) \<longleftrightarrow> txn_view s t k = Some v"
    and "is_not_found (fst (Txn_Get s t k out)) \<longleftrightarrow> txn_view s t k = None"
  using Txn_Get_view [OF assms, of out] by (auto simp: is_not_found_def split: option.splits)

lemma Txn_Commit_OK_iff:
  assumes "txn_state t = kActive" "txn_wf t"
  shows "fst (Txn_Commit w t ov ok) = OK \<longleftrightarrow> txn_conflicts (w_store w) t = []"
proof (cases "write_set t = []")
  case True
  with Txn_Commit_readonly [OF assms(1) True] show ?thesis
    by (simp add: txn_conflicts_def)
next
  case False
  then show ?thesis
    using Txn_Commit_ok [OF assms(1) False assms(2), of w ov ok] Txn_Commit_conflict [OF assms, of w ov ok]
    by (cases "txn_conflicts (w_store w) t = []") auto
qed

text \<open>A transaction answers as its abstract counterpart: every read returns the value the
  abstract transaction reads or reports that there is none, and the commit is accepted exactly
  if the abstract one has no conflict.\<close>

definition answers_as :: "Shared \<Rightarrow> Transaction \<Rightarrow> SI_Entry list \<Rightarrow> SI_Txn \<Rightarrow> bool" where
  "answers_as sh t log x \<longleftrightarrow>
     (\<forall>k out v. k \<noteq> [] \<longrightarrow>
        (Txn_Get (sh_store sh) t k out = (OK, v) \<longleftrightarrow> si_read log x k = Some v) \<and>
        (is_not_found (fst (Txn_Get (sh_store sh) t k out)) \<longleftrightarrow> si_read log x k = None)) \<and>
     (fst (Txn_Commit (world_of sh) t None None) = OK \<longleftrightarrow> si_conflicts log x = {})"

lemma si_rel_answers:
  assumes "reach n \<sigma>" "Suc n < 2 ^ 64" "raced \<sigma> = {}" "si_rel \<sigma> a" "agents \<sigma> i = In_txn t"
  shows "\<exists>x. si_txns a i = Some x \<and> si_snap x = unat (snapshot_version t) \<and>
    answers_as (shared \<sigma>) t (si_log a) x"
proof -
  note R = reach_in_txn [OF assms(1,2,5)]
  show ?thesis
    using si_rel_txn [OF assms] Txn_Get_iff [OF R(1,6)] Txn_Commit_OK_iff [OF R(6,5)]
    by (auto simp: answers_as_def world_of_def)
qed

lemma si_rel_current:
  assumes "reach n \<sigma>" "Suc n < 2 ^ 64" "si_rel \<sigma> a"
  shows "length (si_log a) = unat (cur (shared \<sigma>))"
    and "visible (sh_store (shared \<sigma>)) k (cur (shared \<sigma>)) = si_view (si_log a) k"
proof -
  have "sys_inv 0 \<sigma>"
    using reach_sys_inv [OF assms(1), of 0] assms(2) by simp
  then have agree: "agree_from (shared \<sigma>) (cur (shared \<sigma>))"
    using sys_invD(1) by (simp add: sh_inv_def)
  then have cur: "VS_CurrentVersion (sh_ideal (shared \<sigma>)) = cur (shared \<sigma>)"
    by (simp add: vs.agree_def)
  have log: "log_rel (sh_ideal (shared \<sigma>)) (si_log a)"
    using assms(3) by (simp add: si_rel_def)
  show "length (si_log a) = unat (cur (shared \<sigma>))"
    using log_relD(1) [OF log] cur by simp
  then show "visible (sh_store (shared \<sigma>)) k (cur (shared \<sigma>)) = si_view (si_log a) k"
    using log_relD(2) [OF log, of "cur (shared \<sigma>)" k] vs.agree_view [OF agree order_refl, of k] cur
    by simp
qed

end
