(* ===== verification/Rmw_Client.thy ===== *)
theory Rmw_Client
  imports SI_Refinement
begin

text \<open>
  A client of the interleaved system: any number of agents that each begin a transaction, read
  one key, write \<open>f\<close> of what they read back, and commit, while collections run (the counter of
  \<open>tests/stress_test_transaction.cpp\<close>). Every commit that reports success is one application
  of \<open>f\<close>, and none is lost.
\<close>

section \<open>Read-modify-write agents\<close>

text \<open>The steps such an agent makes: no direct write to the store, and inside a transaction
  only reads and one write of \<open>f\<close> of the value read.\<close>

definition rmw_ok :: "key \<Rightarrow> (val \<Rightarrow> val) \<Rightarrow> Shared \<Rightarrow> pc \<Rightarrow> pc \<Rightarrow> bool" where
  "rmw_ok k f sh p p' \<longleftrightarrow>
     \<not> (p = Idle \<and> p' = Idle) \<and>
     (\<forall>t t'. p = In_txn t \<longrightarrow> p' = In_txn t' \<longrightarrow>
        t' = t \<or>
        write_set t = [] \<and>
        (\<exists>x. Txn_Get (sh_store sh) t k '''' = (OK, x) \<and> t' = snd (Txn_Put t k (f x))))"

text \<open>The step is a commit with writes that reports success.\<close>

fun commits :: "pc \<Rightarrow> pc \<Rightarrow> bool" where
  "commits (In_txn t) (Ending t') = (write_set t \<noteq> [] \<and> txn_state t' = kCommitted)"
| "commits _ _ = False"

definition Rmw_init :: "key \<Rightarrow> val \<Rightarrow> Sys" where
  "Rmw_init k x =
     Sys_init\<lparr>shared := set_store (shared Sys_init) (fst (snd (VS_Put VS_init k x None)))
       (vs_commit VS_init [\<lparr>op_key = k, op_value = Some x\<rparr>])\<rparr>"

text \<open>\<open>rmw_reach k f x n c \<sigma>\<close>: after the key was set to \<open>x\<close> and \<open>n\<close> steps of such agents, \<open>c\<close>
  of them successful commits, the system can be in \<open>\<sigma>\<close>.\<close>

inductive rmw_reach :: "key \<Rightarrow> (val \<Rightarrow> val) \<Rightarrow> val \<Rightarrow> nat \<Rightarrow> nat \<Rightarrow> Sys \<Rightarrow> bool" for k f x where
  rmw_start: "rmw_reach k f x 0 0 (Rmw_init k x)"
| rmw_step: "rmw_reach k f x n c \<sigma> \<Longrightarrow> agent_step (shared \<sigma>) (agents \<sigma> i) sh' p' \<Longrightarrow>
    rmw_ok k f (shared \<sigma>) (agents \<sigma> i) p' \<Longrightarrow>
    rmw_reach k f x (Suc n) (if commits (agents \<sigma> i) p' then Suc c else c)
      \<lparr>shared = sh', agents = (agents \<sigma>)(i := p'),
       raced = raced \<sigma> \<union> newly_raced (\<exists>j. scanning (agents \<sigma> j)) (agents \<sigma> i)\<rparr>"

lemma rmw_reach_reach:
  assumes "rmw_reach k f x n c \<sigma>" "k \<noteq> []"
  shows "reach (Suc n) \<sigma>"
  using assms(1)
proof (induction rule: rmw_reach.induct)
  case rmw_start
  have "agent_step (shared Sys_init) (agents Sys_init 0) (shared (Rmw_init k x)) Idle"
    using agent_step.direct_put [of "shared Sys_init" k x] assms(2)
    by (simp add: Rmw_init_def Sys_init_def VS_Put_commit)
  from sys_stepI [OF this] have "sys_step Sys_init (Rmw_init k x)"
    by (simp add: Rmw_init_def Sys_init_def fun_upd_idem)
  with reach_init show ?case by (rule reach_step)
next
  case (rmw_step n c \<sigma> i sh' p')
  from reach_step [OF rmw_step.IH sys_stepI [OF rmw_step.hyps(2)]] show ?case .
qed

section \<open>The invariant\<close>

text \<open>Version \<open>v\<close> of the key is the result of \<open>v - 1\<close> applications, every version wrote the
  key, and a transaction that has written holds the next value after its snapshot.\<close>

definition rmw_sh :: "key \<Rightarrow> (val \<Rightarrow> val) \<Rightarrow> val \<Rightarrow> nat \<Rightarrow> Shared \<Rightarrow> bool" where
  "rmw_sh k f x c sh \<longleftrightarrow>
     unat (cur sh) = Suc c \<and>
     (\<forall>v. 1 \<le> v \<longrightarrow> v \<le> cur sh \<longrightarrow>
        visible (sh_ideal sh) k v = Some ((f ^^ (unat v - 1)) x) \<and>
        (newer_than (vs_table (sh_ideal sh)) v k \<longleftrightarrow> v < cur sh))"

fun rmw_pc :: "key \<Rightarrow> (val \<Rightarrow> val) \<Rightarrow> val \<Rightarrow> pc \<Rightarrow> bool" where
  "rmw_pc k f x (Begin_read i v) = (1 \<le> v)"
| "rmw_pc k f x (In_txn t) =
     (1 \<le> snapshot_version t \<and>
      (write_set t = [] \<or> write_set t = [(k, Some ((f ^^ unat (snapshot_version t)) x))]))"
| "rmw_pc k f x _ = True"

lemma rmw_shD:
  assumes "rmw_sh k f x c sh"
  shows "unat (cur sh) = Suc c" "1 \<le> cur sh"
    and "1 \<le> v \<Longrightarrow> v \<le> cur sh \<Longrightarrow> visible (sh_ideal sh) k v = Some ((f ^^ (unat v - 1)) x)"
    and "1 \<le> v \<Longrightarrow> v \<le> cur sh \<Longrightarrow> newer_than (vs_table (sh_ideal sh)) v k \<longleftrightarrow> v < cur sh"
proof -
  show "unat (cur sh) = Suc c" using assms by (simp add: rmw_sh_def)
  then show "1 \<le> cur sh" by (simp add: word_le_nat_alt)
qed (use assms in \<open>simp_all add: rmw_sh_def\<close>)

lemma rmw_sh_cong:
  assumes "rmw_sh k f x c sh" "sh_ideal sh' = sh_ideal sh" "cur sh' = cur sh"
  shows "rmw_sh k f x c sh'"
  using assms unfolding rmw_sh_def by metis

text \<open>A commit that passes validation was computed from the current version.\<close>

lemma rmw_commit_current:
  assumes "rmw_sh k f x c sh" "rmw_pc k f x (In_txn t)" "write_set t \<noteq> []"
    and "agree_from sh (snapshot_version t)" "snapshot_version t \<le> cur sh"
    and "txn_conflicts (sh_store sh) t = []"
  shows "snapshot_version t = cur sh" "ops_of (write_set t) = [\<lparr>op_key = k, op_value = Some ((f ^^ Suc c) x)\<rparr>]"
proof -
  have ws: "write_set t = [(k, Some ((f ^^ unat (snapshot_version t)) x))]" "1 \<le> snapshot_version t"
    using assms(2,3) by auto
  have "txn_conflicts (sh_ideal sh) t = []"
    using txn_conflicts_agree [OF assms(4,5)] assms(6) by simp
  then have "\<not> newer_than (vs_table (sh_ideal sh)) (snapshot_version t) k"
    using ws(1) by (simp add: txn_conflicts_def split: if_splits)
  with rmw_shD(4) [OF assms(1) ws(2) assms(5)] assms(5) show "snapshot_version t = cur sh"
    by simp
  then show "ops_of (write_set t) = [\<lparr>op_key = k, op_value = Some ((f ^^ Suc c) x)\<rparr>]"
    using ws(1) rmw_shD(1) [OF assms(1)] by (simp add: ops_of_def)
qed

lemma rmw_sh_commit:
  assumes rmw: "rmw_sh k f x c sh" and inv: "sh_inv (Suc r) sh"
    and ops: "ops = [\<lparr>op_key = k, op_value = Some ((f ^^ Suc c) x)\<rparr>]"
  shows "rmw_sh k f x (Suc c) (sh_commit sh ops)"
proof -
  have ready: "vs_ready (Suc r) (sh_ideal sh)" and cur: "VS_CurrentVersion (sh_ideal sh) = cur sh"
    using inv by (auto simp: sh_inv_def vs.agree_def)
  have less: "cur sh < cur sh + 1"
    using cur_commit_less [OF inv, of ops] by simp
  then have unat: "unat (cur sh + 1) = Suc (unat (cur sh))"
    by unat_arith
  have "visible (vs_commit (sh_ideal sh) ops) k v = Some ((f ^^ (unat v - 1)) x) \<and>
      (newer_than (vs_table (vs_commit (sh_ideal sh) ops)) v k \<longleftrightarrow> v < cur sh + 1)"
    if v: "1 \<le> v" "v \<le> cur sh + 1" for v
  proof (cases "v \<le> cur sh")
    case True
    have "v < cur sh + 1"
      using True less by simp
    then show ?thesis
      using rmw_shD(3,4) [OF rmw v(1) True] vs.view_commit_old [OF ready, of v ops k]
        vs.changed_commit [OF ready, of v ops k] True
      by (simp add: cur ops)
  next
    case False
    then have "v = cur sh + 1"
      using v(2) less by unat_arith
    then show ?thesis
      using vs.view_commit_new [OF ready, of v ops k] vs.changed_new [OF ready, of v ops k] less
        rmw_shD(1) [OF rmw]
      by (simp add: cur ops unat)
  qed
  then show ?thesis
    using rmw_shD(1) [OF rmw] by (simp add: rmw_sh_def unat)
qed

text \<open>The value a transaction without writes reads is the one at its snapshot.\<close>

lemma rmw_read:
  assumes rmw: "rmw_sh k f x c sh" and pc: "rmw_pc k f x (In_txn t)" and "write_set t = []"
    and "agree_from sh (snapshot_version t)" "snapshot_version t \<le> cur sh"
    and "vs_inv (sh_store sh)" "txn_state t = kActive" "k \<noteq> []"
    and "Txn_Get (sh_store sh) t k out = (OK, y)"
  shows "f y = (f ^^ unat (snapshot_version t)) x"
proof -
  have "visible (sh_store sh) k (snapshot_version t) = Some y"
    using Txn_Get_iff(1) [OF assms(6-8), of out y] assms(3,9) by (simp add: txn_view_def)
  then have "y = (f ^^ (unat (snapshot_version t) - 1)) x"
    using vs.agree_view [OF assms(4) order_refl, of k] rmw_shD(3) [OF rmw _ assms(5)] pc by simp
  moreover have "unat (snapshot_version t) = Suc (unat (snapshot_version t) - 1)"
    using pc by (simp add: word_le_nat_alt)
  ultimately show ?thesis
    by (metis comp_apply funpow.simps(2))
qed

lemma rmw_txn_step:
  assumes rmw: "rmw_sh k f x c sh" and inv: "sh_inv (Suc r) sh" and pc: "pc_inv {} sh (In_txn t)"
    and rpc: "rmw_pc k f x (In_txn t)" and k: "k \<noteq> []"
    and step: "agent_step sh (In_txn t) sh' p'" and ok: "rmw_ok k f sh (In_txn t) p'"
  shows "rmw_pc k f x p' \<and> rmw_sh k f x (if commits (In_txn t) p' then Suc c else c) sh'"
proof -
  have t: "agree_from sh (snapshot_version t)" "snapshot_version t \<le> cur sh" "txn_state t = kActive"
      "vs_inv (sh_store sh)"
    using pc inv by (simp_all add: sh_inv_def vs_ready_def)
  have inner: "rmw_pc k f x p'" if "p' = In_txn t'" for t'
  proof -
    have "t' = t \<or> write_set t = [] \<and>
        (\<exists>y. Txn_Get (sh_store sh) t k '''' = (OK, y) \<and> t' = snd (Txn_Put t k (f y)))"
      using ok that by (simp add: rmw_ok_def)
    then show ?thesis
    proof (elim disjE conjE exE)
      fix y
      assume "write_set t = []" "Txn_Get (sh_store sh) t k '''' = (OK, y)" "t' = snd (Txn_Put t k (f y))"
      with rmw_read [OF rmw rpc _ t(1,2,4,3) k] that rpc k t(3) show ?thesis
        by (simp add: Txn_Put_def um_assign_def)
    qed (use that rpc in simp)
  qed
  from step show ?thesis
  proof (cases rule: agent_step.cases)
    case (commit_apply out_keys store' out')
    note ok = VS_ABINC_OK [OF commit_apply(4)]
    have "txn_conflicts (sh_store sh) t = []"
      using ok(3) by (simp add: find_conflicts_txn)
    note cur = rmw_commit_current [OF rmw rpc commit_apply(3) t(1,2) this]
    from rmw_sh_commit [OF rmw inv cur(2)] commit_apply ok(1) show ?thesis
      by (simp add: sh_commit_def)
  next
    case (commit_fail out_keys s store' out')
    then show ?thesis
      using VS_ABINC_fail [OF commit_fail(4,5)] rmw by simp
  qed (use rmw inner t(3) in auto)
qed

text \<open>The other steps change neither the ideal store nor the current version.\<close>

lemma rmw_other_step:
  assumes rmw: "rmw_sh k f x c sh" and rpc: "rmw_pc k f x p" and p: "p \<notin> range In_txn"
    and step: "agent_step sh p sh' p'" and ok: "rmw_ok k f sh p p'"
  shows "rmw_pc k f x p' \<and> rmw_sh k f x (if commits p p' then Suc c else c) sh'"
proof -
  have "\<not> commits p p'"
    using p by (cases p) auto
  moreover have "rmw_sh k f x c sh'"
    using step
  proof (cases rule: agent_step.cases)
    case (gc_collect b st store')
    then have "cur sh' = cur sh"
      using vs.current_collect [of "sh_store sh" b] by (simp add: vs_collect_def)
    with gc_collect show ?thesis
      using rmw_sh_cong [OF rmw] by simp
  qed (use ok p in \<open>auto simp: rmw_ok_def intro: rmw_sh_cong [OF rmw]\<close>)
  moreover have "rmw_pc k f x p'"
    using step
    by (cases rule: agent_step.cases) (use p rpc rmw_shD(2) [OF rmw] in auto)
  ultimately show ?thesis by simp
qed

lemma rmw_sh_init:
  assumes "k \<noteq> []"
  shows "rmw_sh k f x 0 (shared (Rmw_init k x))"
proof -
  have ready: "vs_ready (Suc 0) VS_init" and cur: "VS_CurrentVersion VS_init = 0"
    by (simp_all add: vs_ready_def vs_room_def) (simp_all add: VS_init_def VS_CurrentVersion_def)
  have "visible (vs_commit VS_init ops) k 1 = Some x \<and> \<not> newer_than (vs_table (vs_commit VS_init ops)) 1 k"
    if "ops = [\<lparr>op_key = k, op_value = Some x\<rparr>]" for ops
    using vs.view_commit_new [OF ready, of 1 ops k] vs.changed_new [OF ready, of 1 ops k] that
    by (simp add: cur)
  moreover have "v = 1" if "1 \<le> v" "v \<le> (1 :: u64)" for v
    using that by simp
  ultimately show ?thesis
    using assms by (auto simp: Rmw_init_def Sys_init_def set_store_def rmw_sh_def VS_Put_commit cur)
qed

lemma rmw_invariant:
  assumes "rmw_reach k f x n c \<sigma>" "k \<noteq> []" "n + 2 < 2 ^ 64" "raced \<sigma> = {}"
  shows "rmw_sh k f x c (shared \<sigma>) \<and> (\<forall>i. rmw_pc k f x (agents \<sigma> i))"
  using assms(1,3,4)
proof (induction rule: rmw_reach.induct)
  case rmw_start
  show ?case
    using rmw_sh_init [OF assms(2)] by (simp add: Rmw_init_def Sys_init_def)
next
  case (rmw_step n c \<sigma> i sh' p')
  then have raced: "raced \<sigma> = {}" by simp
  with rmw_step have IH: "rmw_sh k f x c (shared \<sigma>)" "\<And>j. rmw_pc k f x (agents \<sigma> j)" by simp_all
  have inv: "sys_inv (Suc 0) \<sigma>"
    using reach_sys_inv [OF rmw_reach_reach [OF rmw_step.hyps(1) assms(2)], of "Suc 0"] rmw_step.prems
    by simp
  have "rmw_pc k f x p' \<and> rmw_sh k f x (if commits (agents \<sigma> i) p' then Suc c else c) sh'"
  proof (cases "agents \<sigma> i \<in> range In_txn")
    case True
    then obtain t where t: "agents \<sigma> i = In_txn t" by blast
    from rmw_txn_step [OF IH(1) sys_invD(1) [OF inv] _ _ assms(2), of t sh' p']
    show ?thesis
      using sys_invD(2) [OF inv, of i] IH(2) [of i] rmw_step.hyps(2,3) raced by (simp add: t)
  next
    case False
    from rmw_other_step [OF IH(1,2) False rmw_step.hyps(2,3)] show ?thesis .
  qed
  with IH(2) show ?case by simp
qed

section \<open>The counter\<close>

text \<open>\<open>std::to_string(std::stoi(current) + 1)\<close>.\<close>

definition increment :: "val \<Rightarrow> val" where
  "increment v = to_string (Suc (parse_dec v))"

lemma increment_funpow: "(increment ^^ c) (to_string n) = to_string (n + c)"
  by (induction c) (simp_all add: increment_def parse_dec_to_string)

text \<open>Building runs of one agent without a scan.\<close>

definition rmw_at :: "nat \<Rightarrow> nat \<Rightarrow> Shared \<Rightarrow> pc \<Rightarrow> bool" where
  "rmw_at n c sh p \<longleftrightarrow>
     (\<exists>\<sigma>. rmw_reach ''k'' increment ''0'' n c \<sigma> \<and>
        \<sigma> = \<lparr>shared = sh, agents = (\<lambda>_. Idle)(1 := p), raced = {}\<rparr>)"

lemma rmw_at_step:
  assumes "rmw_at n c sh p" "agent_step sh p sh' p'" "rmw_ok ''k'' increment sh p p'" "\<not> scanning p"
    and "c' = (if commits p p' then Suc c else c)"
  shows "rmw_at (Suc n) c' sh' p'"
proof -
  let ?\<sigma> = "\<lparr>shared = sh, agents = (\<lambda>_ :: nat. Idle)(1 := p), raced = {} :: u64 set\<rparr>"
  have "\<not> scanning (agents ?\<sigma> j)" for j
    using assms(4) by simp
  then have "newly_raced (\<exists>j. scanning (agents ?\<sigma> j)) p = {}"
    by (cases p) simp_all
  with rmw_step [of "''k''" increment "''0''" n c ?\<sigma> 1 sh' p'] assms show ?thesis
    by (simp add: rmw_at_def)
qed

definition count0 :: Shared where
  "count0 = shared (Rmw_init ''k'' ''0'')"

definition count1 :: Shared where
  "count1 = count0\<lparr>sh_mgr := record_snapshot (record_snapshot
     (snd (fetch_txn_id (sh_mgr count0))) 1 0) 1 1\<rparr>"

definition counting :: Transaction where
  "counting = snd (Txn_Put (new_Transaction 1 1) ''k'' ''1'')"

lemma count_facts:
  "fetch_txn_id (sh_mgr count0) = (1, snd (fetch_txn_id (sh_mgr count0)))" "cur count0 = 1"
  "Txn_Get (sh_store count1) (new_Transaction 1 1) ''k'' '''' = (OK, ''0'')"
  "increment ''0'' = ''1''" "write_set counting \<noteq> []"
  "fst (VS_ApplyBatchIfNoConflict (sh_store count1) (ops_of (write_set counting))
     (snapshot_version counting) (Some 0) None) = OK"
  "to_string 0 = ''0''"
  by code_simp+

lemma rmw_one_commit: "\<exists>sh p. rmw_at 6 1 sh p"
proof -
  let ?m1 = "snd (fetch_txn_id (sh_mgr count0))"
  let ?sh1 = "count0\<lparr>sh_mgr := ?m1\<rparr>"
  let ?sh2 = "?sh1\<lparr>sh_mgr := record_snapshot ?m1 1 0\<rparr>"
  have "rmw_at 0 0 count0 Idle"
    using rmw_start [of "''k''" increment "''0''"]
    by (simp add: rmw_at_def count0_def fun_upd_idem) (simp add: Rmw_init_def Sys_init_def)
  from rmw_at_step [OF this begin_fetch [OF count_facts(1)]]
  have "rmw_at (Suc 0) 0 ?sh1 (Begin_id 1)" by (simp add: rmw_ok_def)
  from rmw_at_step [OF this begin_place] have "rmw_at 2 0 ?sh2 (Begin_placed 1)"
    by (simp add: rmw_ok_def numeral_2_eq_2)
  from rmw_at_step [OF this begin_read] have "rmw_at 3 0 ?sh2 (Begin_read 1 1)"
    by (simp add: rmw_ok_def count_facts(2))
  from rmw_at_step [OF this begin_refine] have "rmw_at 4 0 count1 (In_txn (new_Transaction 1 1))"
    by (simp add: rmw_ok_def count1_def)
  from rmw_at_step [OF this txn_put [of _ _ "''k''" "''1''"]] have "rmw_at 5 0 count1 (In_txn counting)"
    using count_facts(3,4) by (simp add: rmw_ok_def counting_def)
  moreover obtain store' out' where "VS_ApplyBatchIfNoConflict (sh_store count1) (ops_of (write_set counting))
      (snapshot_version counting) (Some 0) None = (OK, store', out')"
    using count_facts(6) by (metis prod.collapse)
  ultimately have "rmw_at 6 1 (set_store count1 store' (vs_commit (sh_ideal count1) (ops_of (write_set counting))))
      (Ending (counting\<lparr>txn_state := kCommitted\<rparr>))"
    using rmw_at_step [OF _ commit_apply, of 5 0 count1 counting None store' out' 1] count_facts(5)
    by (simp add: rmw_ok_def)
  then show ?thesis by blast
qed

section \<open>Properties\<close>

text \<open>C2: No update is lost, in any interleaving. Let any number of agents read a key that
  was set to \<open>x\<close>, write \<open>f\<close> of what they read and commit, again and again, with collections
  running at any time (and no transaction registering under a scan): if \<open>c\<close> commits have
  reported success, the key holds \<open>f\<close> applied \<open>c\<close> times to \<open>x\<close>, and exactly \<open>c\<close> versions were
  added. In particular a counter that starts at 0 shows the number of successful commits.\<close>

theorem rmw_no_update_lost:
  assumes "rmw_reach k f x n c \<sigma>" and "k \<noteq> []" and "n + 2 < 2 ^ 64" and "raced \<sigma> = {}"
  shows "vs_get (sh_store (shared \<sigma>)) k out = (OK, (f ^^ c) x) \<and>
    unat (VS_CurrentVersion (sh_store (shared \<sigma>))) = Suc c \<and>
    (f = increment \<longrightarrow> x = ''0'' \<longrightarrow> (f ^^ c) x = to_string c)"
proof -
  note rmw = conjunct1 [OF rmw_invariant [OF assms]]
  have inv: "sys_inv 0 \<sigma>"
    using reach_sys_inv [OF rmw_reach_reach [OF assms(1,2)], of 0] assms(3) by simp
  then have ready: "vs_ready 0 (sh_store (shared \<sigma>))" and agree: "agree_from (shared \<sigma>) (cur (shared \<sigma>))"
    using sys_invD(1) by (simp_all add: sh_inv_def)
  have "visible (sh_store (shared \<sigma>)) k (cur (shared \<sigma>)) = Some ((f ^^ c) x)"
    using vs.agree_view [OF agree order_refl, of k] rmw_shD(3) [OF rmw rmw_shD(2) [OF rmw] order_refl]
      rmw_shD(1) [OF rmw] by simp
  from vs_latest.get_hit [OF ready assms(2) this] have "vs_get (sh_store (shared \<sigma>)) k out = (OK, (f ^^ c) x)" .
  moreover have "(increment ^^ c) ''0'' = to_string c"
    using increment_funpow [of c 0] count_facts(7) by simp
  ultimately show ?thesis
    using rmw_shD(1) [OF rmw] by simp
qed

theorem rmw_no_update_lost_witness:
  "\<exists>\<sigma>. rmw_reach ''k'' increment ''0'' 6 1 \<sigma> \<and> vs_get (sh_store (shared \<sigma>)) ''k'' '''' = (OK, ''1'')"
proof -
  obtain \<sigma> where \<sigma>: "rmw_reach ''k'' increment ''0'' 6 1 \<sigma>" "raced \<sigma> = {}"
    using rmw_one_commit by (auto simp: rmw_at_def)
  have "vs_get (sh_store (shared \<sigma>)) ''k'' '''' = (OK, (increment ^^ 1) ''0'')"
    using rmw_no_update_lost [OF \<sigma>(1) _ _ \<sigma>(2), of "''''"] by simp
  with \<sigma>(1) count_facts(4) show ?thesis by auto
qed

end
