(* ===== verification/Kv_Clients.thy ===== *)
theory Kv_Clients
  imports Rmw_Client Kv_Store
begin

text \<open>
  Clients of the baseline store: any number of threads that increment a counter with \<open>Get\<close>
  and \<open>Put\<close> (\<open>tests/stress_test_kv_store.cpp\<close>). Each call holds the store's mutex, but
  nothing is held between the two, so increments can be lost; \<open>Rmw_Client\<close> has the same
  client on transactions, where none is.
\<close>

section \<open>The machine\<close>






section \<open>The counter is bounded by the increments\<close>






section \<open>All but one increment can be lost\<close>



section \<open>Properties\<close>



end
