(* ===== verification/Contention.thy ===== *)
theory Contention
  imports Concurrency
begin

text \<open>
  How transactions of the interleaved system get in each other's way. A run is observed by a
  client: a condition on the steps its agents make and a ghost state updated at every step.
  Two clients are looked at. The first counts, for each agent, the commits that were refused
  and the versions it wrote: every refusal is paid for by a version somebody else wrote. The
  second gives every key an owner, who alone writes it (as in
  \<open>tests/stress_test_transaction.cpp\<close>): no commit is ever refused. Neither result needs the
  restriction to transactions that did not register under a scan.
\<close>

section \<open>Observed runs\<close>

definition after :: "Sys \<Rightarrow> nat \<Rightarrow> Shared \<Rightarrow> pc \<Rightarrow> Sys" where
  "after \<sigma> i sh' p' =
     \<lparr>shared = sh', agents = (agents \<sigma>)(i := p'),
      raced = raced \<sigma> \<union> newly_raced (\<exists>j. scanning (agents \<sigma> j)) (agents \<sigma> i)\<rparr>"

text \<open>\<open>observed ok upd c0 n c \<sigma>\<close>: after \<open>n\<close> steps that all satisfy \<open>ok\<close> (of the agent, the
  shared state and its program counter before and after) the system can be in \<open>\<sigma>\<close>, with the
  ghost state \<open>c\<close>.\<close>

inductive observed :: "(nat \<Rightarrow> Shared \<Rightarrow> pc \<Rightarrow> Shared \<Rightarrow> pc \<Rightarrow> bool) \<Rightarrow>
    (nat \<Rightarrow> Shared \<Rightarrow> pc \<Rightarrow> Shared \<Rightarrow> pc \<Rightarrow> 'c \<Rightarrow> 'c) \<Rightarrow> 'c \<Rightarrow> nat \<Rightarrow> 'c \<Rightarrow> Sys \<Rightarrow> bool"
  for ok upd c0 where
  obs_init: "observed ok upd c0 0 c0 Sys_init"
| obs_step: "observed ok upd c0 n c \<sigma> \<Longrightarrow> agent_step (shared \<sigma>) (agents \<sigma> i) sh' p' \<Longrightarrow>
    ok i (shared \<sigma>) (agents \<sigma> i) sh' p' \<Longrightarrow>
    observed ok upd c0 (Suc n) (upd i (shared \<sigma>) (agents \<sigma> i) sh' p' c) (after \<sigma> i sh' p')"

lemma observed_reach: "observed ok upd c0 n c \<sigma> \<Longrightarrow> reach n \<sigma>"
proof (induction rule: observed.induct)
  case (obs_step n c \<sigma> i sh' p')
  then show ?case
    using sys_stepI [OF obs_step.hyps(2)] reach_step by (simp add: after_def)
qed (rule reach_init)

text \<open>The rule for invariants of observed runs; the invariant of the system is at hand.\<close>

lemma observed_invariant:
  assumes "observed ok upd c0 n c \<sigma>" "Suc n < 2 ^ 64" "P c0 Sys_init"
    and step: "\<And>r c \<sigma> i sh' p'. sys_inv (Suc r) \<sigma> \<Longrightarrow> P c \<sigma> \<Longrightarrow>
      agent_step (shared \<sigma>) (agents \<sigma> i) sh' p' \<Longrightarrow> ok i (shared \<sigma>) (agents \<sigma> i) sh' p' \<Longrightarrow>
      P (upd i (shared \<sigma>) (agents \<sigma> i) sh' p' c) (after \<sigma> i sh' p')"
  shows "P c \<sigma>"
  using assms(1,2)
proof (induction rule: observed.induct)
  case obs_init
  show ?case by (rule assms(3))
next
  case (obs_step n c \<sigma> i sh' p')
  have "sys_inv (Suc 0) \<sigma>"
    using reach_sys_inv [OF observed_reach [OF obs_step.hyps(1)], of 1] obs_step.prems by simp
  moreover have "P c \<sigma>"
    using obs_step.IH obs_step.prems by simp
  ultimately show ?case
    using obs_step.hyps(2,3) by (rule step)
qed

section \<open>What a step does to the store\<close>

text \<open>The snapshot of a transaction that can still commit.\<close>

fun reading :: "pc \<Rightarrow> u64 option" where
  "reading (Begin_read i v) = Some v"
| "reading (In_txn t) = Some (snapshot_version t)"
| "reading _ = None"

lemma agent_step_effect:
  assumes "agent_step sh p sh' p'"
  obtains
    (wrote) ops where "valid_batch ops" "sh_store sh' = vs_commit (sh_store sh) ops" "reading p' = None"
      "p = Idle \<and> p' = Idle \<or>
       (\<exists>t. p = In_txn t \<and> ops = ops_of (write_set t) \<and> p' = Ending (t\<lparr>txn_state := kCommitted\<rparr>))"
  | (collected) b where "sh_store sh' = vs_collect (sh_store sh) b" "reading p = None" "reading p' = None"
      "\<And>t. p \<noteq> In_txn t"
  | (kept) "sh_store sh' = sh_store sh" "reading p' \<in> {None, reading p}"
  | (began) "sh_store sh' = sh_store sh" "reading p' = Some (cur sh)" "\<And>t. p \<noteq> In_txn t"
  using assms
proof (cases rule: agent_step.cases)
  case (direct_put k x)
  then show ?thesis
    using wrote [OF VS_Put_OK(2)] VS_Put_OK(1) by (simp add: set_store_def)
next
  case (direct_delete k)
  then show ?thesis
    using wrote [OF VS_Delete_OK(2)] VS_Delete_OK(1) by (simp add: set_store_def)
next
  case (direct_batch ops)
  then show ?thesis
    using wrote [OF VS_ApplyBatch_OK(2)] VS_ApplyBatch_OK(1) by (simp add: set_store_def)
next
  case (commit_apply t out_keys store' out')
  then show ?thesis
    using wrote [of "ops_of (write_set t)"] VS_ABINC_OK [OF commit_apply(5)]
    by (simp add: set_store_def)
next
  case (commit_fail t out_keys s store' out')
  then show ?thesis
    using kept VS_ABINC_fail [OF commit_fail(5,6)] by simp
next
  case (gc_collect b st store')
  then show ?thesis
    using collected [of b] by (simp add: vs_collect_def)
qed (use kept began in \<open>auto simp: new_Transaction_def\<close>)

lemma next_version_effect [simp]:
  "next_version (vs_collect s b) = next_version s"
  by (simp add: vs_collect_def)

lemma unat_cur_commit:
  "vs_ready (Suc r) s \<Longrightarrow> unat (VS_CurrentVersion (vs_commit s ops)) = Suc (unat (VS_CurrentVersion s))"
  using unat_succ [of "VS_CurrentVersion s"] vs_inv_next_pos [of s]
  by (simp add: VS_CurrentVersion_def vs_ready_def)

section \<open>Counting refusals\<close>

text \<open>The step ends a transaction whose commit is refused, or would be.\<close>

fun refused :: "Shared \<Rightarrow> pc \<Rightarrow> pc \<Rightarrow> bool" where
  "refused sh (In_txn t) (Ending t') = (txn_state t' = kAborted \<and> txn_conflicts (sh_store sh) t \<noteq> [])"
| "refused sh _ _ = False"

text \<open>For each agent, the refusals and the versions written so far.\<close>

type_synonym tally = "(nat \<Rightarrow> nat) \<times> (nat \<Rightarrow> nat)"

definition count_step :: "nat \<Rightarrow> Shared \<Rightarrow> pc \<Rightarrow> Shared \<Rightarrow> pc \<Rightarrow> tally \<Rightarrow> tally" where
  "count_step i sh p sh' p' c =
     ((if refused sh p p' then (fst c)(i := Suc (fst c i)) else fst c),
      (if next_version (sh_store sh') \<noteq> next_version (sh_store sh)
       then (snd c)(i := Suc (snd c i)) else snd c))"

definition counted :: "nat \<Rightarrow> tally \<Rightarrow> Sys \<Rightarrow> bool" where
  "counted n c \<sigma> \<longleftrightarrow> observed (\<lambda>_ _ _ _ _. True) count_step (\<lambda>_. 0, \<lambda>_. 0) n c \<sigma>"

text \<open>Refusals and own versions together never exceed the current version, nor, for a
  transaction under way, its snapshot; every version has been written by somebody.\<close>

definition tally_inv :: "tally \<Rightarrow> Sys \<Rightarrow> bool" where
  "tally_inv c \<sigma> \<longleftrightarrow>
     (\<forall>i. fst c i + snd c i \<le> unat (cur (shared \<sigma>))) \<and>
     (\<forall>i v. reading (agents \<sigma> i) = Some v \<longrightarrow> fst c i + snd c i \<le> unat v) \<and>
     finite {j. snd c j \<noteq> 0} \<and> (\<Sum>j | snd c j \<noteq> 0. snd c j) = unat (cur (shared \<sigma>))"

lemma sum_support_Suc:
  assumes "finite {j. W j \<noteq> (0 :: nat)}"
  shows "finite {j. (W(i := Suc (W i))) j \<noteq> 0}"
    and "(\<Sum>j | (W(i := Suc (W i))) j \<noteq> 0. (W(i := Suc (W i))) j) = Suc (\<Sum>j | W j \<noteq> 0. W j)"
proof -
  let ?A = "insert i {j. W j \<noteq> 0}"
  have A: "{j. (W(i := Suc (W i))) j \<noteq> 0} = ?A" by auto
  show "finite {j. (W(i := Suc (W i))) j \<noteq> 0}"
    unfolding A using assms by simp
  have "(\<Sum>j | W j \<noteq> 0. W j) = sum W ?A"
    using assms by (intro sum.mono_neutral_left) auto
  also have "\<dots> = W i + sum W (?A - {i})"
    using assms by (intro sum.remove) auto
  moreover have "sum (W(i := Suc (W i))) ?A = Suc (W i) + sum W (?A - {i})"
    using assms by (subst sum.remove [of _ i]) auto
  ultimately show "(\<Sum>j | (W(i := Suc (W i))) j \<noteq> 0. (W(i := Suc (W i))) j) = Suc (\<Sum>j | W j \<noteq> 0. W j)"
    unfolding A by simp
qed

lemma refused_newer:
  assumes "refused sh p p'" "vs_inv (sh_store sh)"
  obtains t where "p = In_txn t" "snapshot_version t < cur sh"
proof -
  obtain t t' where p: "p = In_txn t" "p' = Ending t'" "txn_conflicts (sh_store sh) t \<noteq> []"
    using assms(1) by (cases "(sh, p, p')" rule: refused.cases) auto
  then obtain k where "newer_than (vs_table (sh_store sh)) (snapshot_version t) k"
    by (auto simp: txn_conflicts_def filter_empty_conv)
  with assms(2) p(1) newer_than_le_current that show thesis by blast
qed

lemma refused_Ending: "refused sh p p' \<Longrightarrow> reading p' = None"
  by (cases "(sh, p, p')" rule: refused.cases) auto

lemma tally_inv_step:
  assumes inv: "sys_inv (Suc r) \<sigma>" and c: "tally_inv c \<sigma>"
    and step: "agent_step (shared \<sigma>) (agents \<sigma> i) sh' p'"
  shows "tally_inv (count_step i (shared \<sigma>) (agents \<sigma> i) sh' p' c) (after \<sigma> i sh' p')"
proof -
  let ?sh = "shared \<sigma>" and ?p = "agents \<sigma> i"
  have ready: "vs_ready (Suc r) (sh_store ?sh)" and vs: "vs_inv (sh_store ?sh)"
    using sys_invD(1) [OF inv] by (simp_all add: sh_inv_def vs_ready_def)
  have total: "\<And>j. fst c j + snd c j \<le> unat (cur ?sh)"
    and own: "\<And>j v. reading (agents \<sigma> j) = Some v \<Longrightarrow> fst c j + snd c j \<le> unat v"
    and sums: "finite {j. snd c j \<noteq> 0}" "(\<Sum>j | snd c j \<noteq> 0. snd c j) = unat (cur ?sh)"
    using c by (auto simp: tally_inv_def)
  have paid: "Suc (fst c i + snd c i) \<le> unat (cur ?sh)" if "refused ?sh ?p p'"
  proof -
    from that vs obtain t where t: "?p = In_txn t" "snapshot_version t < cur ?sh"
      by (rule refused_newer)
    then show ?thesis
      using own [of i "snapshot_version t"] by (simp add: word_less_nat_alt)
  qed
  from step show ?thesis
  proof (cases rule: agent_step_effect)
    case (wrote ops)
    have "\<not> refused ?sh ?p p'"
      using wrote(4) by auto
    moreover have nv: "next_version (sh_store sh') \<noteq> next_version (sh_store ?sh)"
      using wrote(2) by simp
    moreover have "unat (cur sh') = Suc (unat (cur ?sh))"
      unfolding wrote(2) by (rule unat_cur_commit [OF ready])
    moreover have "fst c j + snd c j \<le> Suc (unat (cur ?sh))" for j
      using total le_SucI by blast
    ultimately show ?thesis
      using total own sums sum_support_Suc [OF sums(1), of i] wrote(3)
      by (auto simp: tally_inv_def count_step_def after_def simp del: fun_upd_apply)
        (auto split: if_splits)
  next
    case (collected b)
    then have "\<not> refused ?sh ?p p'"
      by (cases "(?sh, ?p, p')" rule: refused.cases) auto
    with collected total own sums show ?thesis
      by (auto simp: tally_inv_def count_step_def after_def VS_CurrentVersion_def split: if_splits)
  next
    case kept
    then show ?thesis
      using total own sums paid refused_Ending [of ?sh ?p p']
      by (auto simp: tally_inv_def count_step_def after_def split: if_splits)
  next
    case began
    then have "\<not> refused ?sh ?p p'"
      by (cases "(?sh, ?p, p')" rule: refused.cases) auto
    with began total own sums show ?thesis
      by (auto simp: tally_inv_def count_step_def after_def split: if_splits)
  qed
qed

lemma counted_inv:
  assumes "counted n c \<sigma>" "Suc n < 2 ^ 64"
  shows "tally_inv c \<sigma>"
proof (rule observed_invariant [where P = tally_inv])
  show "observed (\<lambda>_ _ _ _ _. True) count_step (\<lambda>_. 0, \<lambda>_. 0) n c \<sigma>"
    using assms(1) by (simp add: counted_def)
  show "tally_inv (\<lambda>_. 0, \<lambda>_. 0) Sys_init"
    by (simp add: tally_inv_def Sys_init_def VS_CurrentVersion_def VS_init_def)
qed (use assms(2) in \<open>auto intro: tally_inv_step\<close>)

section \<open>Keys with owners\<close>

text \<open>The steps of a client in which agent \<open>i\<close> writes only keys it owns, in transactions or
  directly.\<close>

definition owner_ok :: "(key \<Rightarrow> nat) \<Rightarrow> nat \<Rightarrow> Shared \<Rightarrow> pc \<Rightarrow> Shared \<Rightarrow> pc \<Rightarrow> bool" where
  "owner_ok owner i sh p sh' p' \<longleftrightarrow>
     (\<forall>t. p' = In_txn t \<longrightarrow> list_all (\<lambda>(k, x). owner k = i) (write_set t)) \<and>
     (p = Idle \<longrightarrow> (\<forall>k. owner k \<noteq> i \<longrightarrow>
        hist_of (vs_table (sh_store sh')) k = hist_of (vs_table (sh_store sh)) k))"

definition owned_run :: "(key \<Rightarrow> nat) \<Rightarrow> nat \<Rightarrow> Sys \<Rightarrow> bool" where
  "owned_run owner n \<sigma> \<longleftrightarrow> observed (owner_ok owner) (\<lambda>_ _ _ _ _ c. c) () n () \<sigma>"

definition owner_inv :: "(key \<Rightarrow> nat) \<Rightarrow> Sys \<Rightarrow> bool" where
  "owner_inv owner \<sigma> \<longleftrightarrow>
     (\<forall>i v k. reading (agents \<sigma> i) = Some v \<longrightarrow> owner k = i \<longrightarrow>
        \<not> newer_than (vs_table (sh_store (shared \<sigma>))) v k) \<and>
     (\<forall>i t. agents \<sigma> i = In_txn t \<longrightarrow> list_all (\<lambda>(k, x). owner k = i) (write_set t))"

lemma gc_history_newer_mono:
  assumes "hist_inv m h" "last_newer (case fst (gc_history b h) of None \<Rightarrow> [] | Some h' \<Rightarrow> h') v"
  shows "last_newer h v"
  using hist_inv_partitioned [OF assms(1), of b]
proof (cases rule: gc_history_cases)
  case (trimmed n)
  have "n < length h"
    using trimmed(1) length_filter_le by (metis Suc_le_lessD)
  with trimmed assms(2) show ?thesis by (auto simp: last_newer_def)
qed (use assms(2) in \<open>simp_all add: last_newer_def\<close>)

text \<open>No collection, whatever its boundary, makes a key look newer.\<close>

lemma newer_than_collect_mono:
  assumes "vs_inv s" "newer_than (vs_table (vs_collect s b)) v k"
  shows "newer_than (vs_table s) v k"
proof (cases "um_find (vs_table s) k")
  case None
  with assms show ?thesis
    by (simp add: newer_than_hist_of vs_collect_def hist_of_collect last_newer_def)
next
  case (Some h)
  have "hist_inv (next_version s) h"
    using vs_inv_find [OF assms(1) Some] by simp
  then have "last_newer h v"
    by (rule gc_history_newer_mono)
      (use assms Some in \<open>simp add: newer_than_hist_of vs_collect_def hist_of_collect\<close>)
  with Some show ?thesis
    by (simp add: newer_than_hist_of hist_of_def)
qed

lemma newer_than_same_hist:
  "hist_of (vs_table s') k = hist_of (vs_table s) k \<Longrightarrow>
   newer_than (vs_table s') v k = newer_than (vs_table s) v k"
  by (simp add: newer_than_hist_of)

lemma hist_of_commit_other:
  "k \<notin> op_key ` set ops \<Longrightarrow> hist_of (vs_table (vs_commit s ops)) k = hist_of (vs_table s) k"
  by (simp add: vs_commit_def hist_of_push_ops filter_key_Nil)

lemma owner_inv_step:
  assumes inv: "sys_inv (Suc r) \<sigma>" and o: "owner_inv owner \<sigma>"
    and step: "agent_step (shared \<sigma>) (agents \<sigma> i) sh' p'"
    and ok: "owner_ok owner i (shared \<sigma>) (agents \<sigma> i) sh' p'"
  shows "owner_inv owner (after \<sigma> i sh' p')"
proof -
  let ?sh = "shared \<sigma>" and ?p = "agents \<sigma> i"
  have vs: "vs_inv (sh_store ?sh)"
    using sys_invD(1) [OF inv] by (simp add: sh_inv_def vs_ready_def)
  have old: "\<And>j v k. reading (agents \<sigma> j) = Some v \<Longrightarrow> owner k = j \<Longrightarrow>
      \<not> newer_than (vs_table (sh_store ?sh)) v k"
    and keys: "\<And>j t. agents \<sigma> j = In_txn t \<Longrightarrow> list_all (\<lambda>(k, x). owner k = j) (write_set t)"
    using o by (auto simp: owner_inv_def)
  have keys': "list_all (\<lambda>(k, x). owner k = j) (write_set t)" if "((agents \<sigma>)(i := p')) j = In_txn t" for j t
    using that ok keys by (auto simp: owner_ok_def split: if_splits)
  have "\<not> newer_than (vs_table (sh_store sh')) v k"
    if v: "reading (((agents \<sigma>)(i := p')) j) = Some v" "owner k = j" for j v k
    using step
  proof (cases rule: agent_step_effect)
    case (wrote ops)
    then have j: "j \<noteq> i" "reading (agents \<sigma> j) = Some v"
      using v(1) by (auto split: if_splits)
    have "hist_of (vs_table (sh_store sh')) k = hist_of (vs_table (sh_store ?sh)) k"
      using wrote(4)
    proof
      assume "?p = Idle \<and> p' = Idle"
      with ok v(2) j(1) show ?thesis by (simp add: owner_ok_def)
    next
      assume "\<exists>t. ?p = In_txn t \<and> ops = ops_of (write_set t) \<and> p' = Ending (t\<lparr>txn_state := kCommitted\<rparr>)"
      then have "k \<notin> op_key ` set ops"
        using keys [of i] v(2) j(1) by (fastforce simp: ops_of_def list_all_iff)
      then show ?thesis unfolding wrote(2) by (rule hist_of_commit_other)
    qed
    then show ?thesis
      using old [OF j(2) v(2)] newer_than_same_hist by blast
  next
    case (collected b)
    with v old [of j v k] newer_than_collect_mono [OF vs, of b v k] show ?thesis
      by (auto split: if_splits)
  next
    case kept
    with v old [of j v k] show ?thesis by (auto split: if_splits)
  next
    case began
    with v old [of j v k] newer_than_le_current [OF vs, of "cur ?sh" k] show ?thesis
      by (auto split: if_splits)
  qed
  with keys' show ?thesis
    by (auto simp: owner_inv_def after_def simp del: fun_upd_apply)
qed

lemma owned_run_inv:
  assumes "owned_run owner n \<sigma>" "Suc n < 2 ^ 64"
  shows "owner_inv owner \<sigma>"
proof (rule observed_invariant [where P = "\<lambda>_. owner_inv owner"])
  show "observed (owner_ok owner) (\<lambda>_ _ _ _ _ c. c) () n () \<sigma>"
    using assms(1) by (simp add: owned_run_def)
  show "owner_inv owner Sys_init"
    by (simp add: owner_inv_def Sys_init_def)
qed (use assms(2) in \<open>auto intro: owner_inv_step\<close>)

section \<open>A run\<close>

text \<open>Agent 1 begins a transaction, agent 2 writes the key \<open>k\<close>, and agent 1 buffers a write of
  \<open>a\<close>.\<close>

definition con1 :: Shared where
  "con1 = (shared Sys_init)\<lparr>sh_mgr := w_mgr (snd (Begin World_init))\<rparr>"

definition con2 :: "key \<Rightarrow> Shared" where
  "con2 k = set_store con1 (fst (snd (VS_Put VS_init k ''x'' None)))
     (vs_commit VS_init [\<lparr>op_key = k, op_value = Some ''x''\<rparr>])"

definition con_txn :: Transaction where
  "con_txn = snd (Txn_Put (new_Transaction 1 0) ''a'' ''y'')"

definition obs_at :: "(nat \<Rightarrow> Shared \<Rightarrow> pc \<Rightarrow> Shared \<Rightarrow> pc \<Rightarrow> bool) \<Rightarrow>
    (nat \<Rightarrow> Shared \<Rightarrow> pc \<Rightarrow> Shared \<Rightarrow> pc \<Rightarrow> 'c \<Rightarrow> 'c) \<Rightarrow> 'c \<Rightarrow> nat \<Rightarrow> 'c \<Rightarrow> Shared \<Rightarrow> (nat \<Rightarrow> pc) \<Rightarrow> bool" where
  "obs_at ok upd c0 n c sh a \<longleftrightarrow> (\<exists>\<sigma>. observed ok upd c0 n c \<sigma> \<and> shared \<sigma> = sh \<and> agents \<sigma> = a)"

lemma obs_at_step:
  assumes "obs_at ok upd c0 n c sh a" "agent_step sh (a i) sh' p'"
    and "ok i sh (a i) sh' p'" "upd i sh (a i) sh' p' c = c'" "a(i := p') = a'"
  shows "obs_at ok upd c0 (Suc n) c' sh' a'"
proof -
  obtain \<sigma> where "observed ok upd c0 n c \<sigma>" "shared \<sigma> = sh" "agents \<sigma> = a"
    using assms(1) by (auto simp: obs_at_def)
  with obs_step [of ok upd c0 n c \<sigma> i sh' p'] assms(2-5) show ?thesis
    by (auto simp: obs_at_def after_def intro!: exI [of _ "after \<sigma> i sh' p'"])
qed

lemma con_begin_steps:
  "agent_step (shared Sys_init) Idle (con1\<lparr>sh_mgr := TM_init\<lparr>next_txn_id := 2\<rparr>\<rparr>) (Begin_id 1)"
  "agent_step (con1\<lparr>sh_mgr := TM_init\<lparr>next_txn_id := 2\<rparr>\<rparr>) (Begin_id 1) con1 (Begin_placed 1)"
  "agent_step con1 (Begin_placed 1) con1 (Begin_read 1 0)"
  "agent_step con1 (Begin_read 1 0) con1 (In_txn (new_Transaction 1 0))"
proof -
  have m: "record_snapshot (TM_init\<lparr>next_txn_id := 2\<rparr>) 1 0 = w_mgr (snd (Begin World_init))"
    "record_snapshot (w_mgr (snd (Begin World_init))) 1 0 = w_mgr (snd (Begin World_init))"
    "fetch_txn_id TM_init = (1, TM_init\<lparr>next_txn_id := 2\<rparr>)" "VS_CurrentVersion VS_init = 0"
    by code_simp+
  show "agent_step (shared Sys_init) Idle (con1\<lparr>sh_mgr := TM_init\<lparr>next_txn_id := 2\<rparr>\<rparr>) (Begin_id 1)"
    using begin_fetch [of "shared Sys_init"] m(3) by (simp add: con1_def Sys_init_def)
  show "agent_step (con1\<lparr>sh_mgr := TM_init\<lparr>next_txn_id := 2\<rparr>\<rparr>) (Begin_id 1) con1 (Begin_placed 1)"
    using begin_place [of "con1\<lparr>sh_mgr := TM_init\<lparr>next_txn_id := 2\<rparr>\<rparr>" 1] m(1)
    by (simp add: con1_def)
  show "agent_step con1 (Begin_placed 1) con1 (Begin_read 1 0)"
    using begin_read [of con1 1] m(4) by (simp add: con1_def Sys_init_def)
  show "agent_step con1 (Begin_read 1 0) con1 (In_txn (new_Transaction 1 0))"
    using begin_refine [of con1 1 0] m(2) by (simp add: con1_def)
qed

lemma con_store [simp]: "sh_store con1 = VS_init" "sh_ideal con1 = VS_init"
  by (simp_all add: con1_def Sys_init_def)

lemma con_run:
  assumes quiet: "\<And>sh p sh' p'. sh_store sh' = sh_store sh \<Longrightarrow>
      p' \<in> {Begin_id 1, Begin_placed 1, Begin_read 1 0, In_txn (new_Transaction 1 0), In_txn con_txn} \<Longrightarrow>
      ok 1 sh p sh' p' \<and> upd 1 sh p sh' p' c = c \<and> upd 1 sh p sh' p' c' = c'"
    and put: "k \<noteq> []" "ok 2 con1 Idle (con2 k) Idle" "upd 2 con1 Idle (con2 k) Idle c = c'"
  shows "obs_at ok upd c 6 c' (con2 k) ((\<lambda>_. Idle)(1 := In_txn con_txn))"
proof -
  let ?a = "\<lambda>p. (\<lambda>_ :: nat. Idle)(1 := p)" and ?t = "new_Transaction 1 0"
  note own = obs_at_step [where i = 1]
  have s0: "obs_at ok upd c 0 c (shared Sys_init) (?a Idle)"
    unfolding obs_at_def by (rule exI [of _ Sys_init]) (simp add: obs_init, simp add: Sys_init_def fun_upd_idem)
  have s1: "obs_at ok upd c (Suc 0) c (con1\<lparr>sh_mgr := TM_init\<lparr>next_txn_id := 2\<rparr>\<rparr>) (?a (Begin_id 1))"
    by (rule own [OF s0]) (use con_begin_steps(1) quiet in \<open>auto simp: Sys_init_def\<close>)
  have s2: "obs_at ok upd c (Suc (Suc 0)) c con1 (?a (Begin_placed 1))"
    by (rule own [OF s1]) (use con_begin_steps(2) quiet in auto)
  have s3: "obs_at ok upd c (Suc (Suc (Suc 0))) c con1 (?a (Begin_read 1 0))"
    by (rule own [OF s2]) (use con_begin_steps(3) quiet in auto)
  have s4: "obs_at ok upd c (Suc (Suc (Suc (Suc 0)))) c con1 (?a (In_txn ?t))"
    by (rule own [OF s3]) (use con_begin_steps(4) quiet in auto)
  have "agent_step con1 Idle (con2 k) Idle"
    using direct_put [of con1 k "''x''"] put(1) by (simp add: con2_def VS_Put_commit)
  then have s5: "obs_at ok upd c (Suc (Suc (Suc (Suc (Suc 0))))) c' (con2 k) (?a (In_txn ?t))"
    by (intro obs_at_step [where i = 2, OF s4]) (use put in \<open>auto simp: fun_upd_idem\<close>)
  have "agent_step (con2 k) (In_txn ?t) (con2 k) (In_txn con_txn)"
    unfolding con_txn_def by (rule txn_put)
  then have "obs_at ok upd c (Suc (Suc (Suc (Suc (Suc (Suc 0)))))) c' (con2 k) (?a (In_txn con_txn))"
    by (intro own [OF s5]) (use quiet in auto)
  then show ?thesis
    by (simp add: eval_nat_numeral)
qed

section \<open>Properties\<close>

text \<open>C11: Every refused commit is paid for by somebody else's write, in every interleaving. Count
  for each agent the transactions that ended refused and the versions it wrote (by commits or
  directly): the refusals of an agent never exceed the versions the other agents have written,
  and the versions written add up to the store's current version. So while conflicts occur the
  system as a whole commits, and an agent that retries \<open>m\<close> times in vain has seen \<open>m\<close> commits
  of others.\<close>

theorem conflicts_paid_by_others:
  assumes "counted n c \<sigma>" and "Suc n < 2 ^ 64"
  shows "fst c i \<le> (\<Sum>j \<in> {j. snd c j \<noteq> 0} - {i}. snd c j) \<and>
    (\<Sum>j | snd c j \<noteq> 0. snd c j) = unat (VS_CurrentVersion (sh_store (shared \<sigma>)))"
proof -
  have inv: "fst c i + snd c i \<le> (\<Sum>j | snd c j \<noteq> 0. snd c j)" "finite {j. snd c j \<noteq> 0}"
    "(\<Sum>j | snd c j \<noteq> 0. snd c j) = unat (cur (shared \<sigma>))"
    using counted_inv [OF assms] by (auto simp: tally_inv_def)
  have "(\<Sum>j | snd c j \<noteq> 0. snd c j) = snd c i + (\<Sum>j \<in> {j. snd c j \<noteq> 0} - {i}. snd c j)"
    using inv(2) sum.remove [of "{j. snd c j \<noteq> 0}" i "snd c"] by (cases "snd c i = 0") simp_all
  with inv show ?thesis by simp
qed

text \<open>Agent 2 writes \<open>a\<close> while agent 1 is about to, and the commit of agent 1 is refused.\<close>

lemma con_refused: "\<exists>c \<sigma>. counted 7 c \<sigma> \<and> fst c 1 = 1"
proof -
  let ?ok = "\<lambda>_ _ _ _ _. True" and ?c = "(\<lambda>_. 0, \<lambda>_. 0) :: tally"
  let ?r = "VS_ApplyBatchIfNoConflict (sh_store (con2 ''a'')) (ops_of (write_set con_txn))
    (snapshot_version con_txn) (Some 0) None"
  have facts: "\<not> st_ok (fst ?r)" "write_set con_txn \<noteq> []" "txn_conflicts (sh_store (con2 ''a'')) con_txn \<noteq> []"
    by code_simp+
  have "obs_at ?ok count_step ?c 6 (count_step 2 con1 Idle (con2 ''a'') Idle ?c) (con2 ''a'')
      ((\<lambda>_. Idle)(1 := In_txn con_txn))"
    by (rule con_run) (auto simp: count_step_def)
  moreover have "agent_step (con2 ''a'') (In_txn con_txn) (set_store (con2 ''a'') (fst (snd ?r)) (sh_ideal (con2 ''a'')))
      (Ending (con_txn\<lparr>write_set := [], txn_state := kAborted\<rparr>))"
    by (rule commit_fail [where out_keys = None and out' = "snd (snd ?r)", OF facts(2) _ facts(1)]) simp
  ultimately have "\<exists>c sh a. obs_at ?ok count_step ?c 7 c sh a \<and> fst c 1 = 1"
    using obs_at_step [where i = 1 and n = 6 and a = "(\<lambda>_. Idle)(1 := In_txn con_txn)"] facts(3)
    by (fastforce simp: count_step_def)
  then show ?thesis
    by (auto simp: obs_at_def counted_def)
qed

theorem conflicts_paid_by_others_witness:
  "\<exists>c \<sigma>. counted 7 c \<sigma> \<and> fst c 1 = 1 \<and> 1 \<le> (\<Sum>j \<in> {j. snd c j \<noteq> 0} - {1}. snd c j)"
proof -
  obtain c \<sigma> where c: "counted 7 c \<sigma>" "fst c 1 = 1"
    using con_refused by blast
  with conflicts_paid_by_others [OF c(1), of 1] show ?thesis
    by (intro exI [of _ c] exI [of _ \<sigma>]) simp
qed

text \<open>C10: Transactions on disjoint keys never conflict, in any interleaving. If every key has an
  owner and agents write only keys they own, then at any moment, whatever the other agents and
  the collector have done, the commit of an active transaction finds no conflict and returns
  OK.\<close>

theorem owned_keys_never_conflict:
  assumes "owned_run owner n \<sigma>" and "Suc n < 2 ^ 64" and "agents \<sigma> i = In_txn t"
  shows "txn_conflicts (sh_store (shared \<sigma>)) t = [] \<and>
    fst (Txn_Commit (world_of (shared \<sigma>)) t ov ok) = OK"
proof -
  have inv: "owner_inv owner \<sigma>"
    by (rule owned_run_inv [OF assms(1,2)])
  have t: "txn_wf t" "txn_state t = kActive"
    using reach_in_txn(5,6) [OF observed_reach assms(2,3)] assms(1) by (auto simp: owned_run_def)
  have "reading (agents \<sigma> i) = Some (snapshot_version t)"
    using assms(3) by simp
  then have "\<not> newer_than (vs_table (sh_store (shared \<sigma>))) (snapshot_version t) k" if "owner k = i" for k
    using inv that unfolding owner_inv_def by blast
  moreover have "\<forall>(k, x) \<in> set (write_set t). owner k = i"
    using inv assms(3) by (simp add: owner_inv_def list_all_iff)
  ultimately have c: "txn_conflicts (sh_store (shared \<sigma>)) t = []"
    by (auto simp: txn_conflicts_def filter_empty_conv)
  then have "fst (Txn_Commit (world_of (shared \<sigma>)) t ov ok) = OK"
    using t Txn_Commit_ok [of t "world_of (shared \<sigma>)" ov ok] Txn_Commit_readonly [of t _ ov ok]
    by (cases "write_set t = []") (simp_all add: world_of_def)
  with c show ?thesis by simp
qed

theorem owned_keys_never_conflict_witness:
  "fst (Txn_Commit (world_of (con2 ''b'')) con_txn None None) = OK"
proof -
  let ?owner = "\<lambda>k. if k = ''b'' then 2 else (1 :: nat)"
  have ws: "write_set con_txn = [(''a'', Some ''y'')]"
    by code_simp
  have "hist_of (vs_table (sh_store (con2 ''b''))) k = hist_of (vs_table (sh_store con1)) k" if "k \<noteq> ''b''" for k
    using that by (simp add: con2_def set_store_def VS_Put_commit hist_of_commit_other)
  then have "obs_at (owner_ok ?owner) (\<lambda>_ _ _ _ _ c. c) () 6 () (con2 ''b'')
      ((\<lambda>_. Idle)(1 := In_txn con_txn))"
    by (intro con_run) (auto simp: owner_ok_def new_Transaction_def ws)
  then obtain \<sigma> where "owned_run ?owner 6 \<sigma>" "agents \<sigma> 1 = In_txn con_txn" "shared \<sigma> = con2 ''b''"
    by (auto simp: obs_at_def owned_run_def)
  with owned_keys_never_conflict [of ?owner 6 \<sigma> 1 con_txn None None] show ?thesis
    by simp
qed

end
