(* ===== verification/Progress.thy ===== *)
theory Progress
  imports Concurrency
begin

text \<open>
  Progress of the interleaved system. No critical section waits for another one, so an agent
  that is inside \<open>Begin\<close>, inside a collection or about to unregister can always make its next
  step, and needs only a bounded number of its own steps, whatever the others do.
\<close>







section \<open>Properties\<close>






end
