(* ===== verification/Iteration_Order.thy ===== *)
theory Iteration_Order
  imports Garbage_Collector "HOL-Library.Multiset"
begin

text \<open>
  The iteration order of \<open>std::unordered_map\<close> is unspecified; in the model it is the order of
  the association list. Three loops depend on it: the batch a commit builds from its write
  set, the sweep of a collection over the table, and the scan of the registry's shards. Here
  two states that differ only in that order are shown to give the same results and to stay
  that way, so nothing a caller can see depends on it (except the order in which conflicting
  keys are listed).
\<close>

section \<open>States up to order\<close>

definition same_map :: "('k \<times> 'v) list \<Rightarrow> ('k \<times> 'v) list \<Rightarrow> bool" where
  "same_map m m' \<longleftrightarrow> um_wf m \<and> um_wf m' \<and> um_find m = um_find m'"

definition same_store :: "VersionStore \<Rightarrow> VersionStore \<Rightarrow> bool" where
  "same_store s s' \<longleftrightarrow> same_map (vs_table s) (vs_table s') \<and> next_version s = next_version s'"

definition same_mgr :: "TransactionManager \<Rightarrow> TransactionManager \<Rightarrow> bool" where
  "same_mgr m m' \<longleftrightarrow>
     tm_wf m \<and> tm_wf m' \<and> active_snapshots m = active_snapshots m' \<and> next_txn_id m = next_txn_id m'"

definition same_world :: "World \<Rightarrow> World \<Rightarrow> bool" where
  "same_world w w' \<longleftrightarrow> same_store (w_store w) (w_store w') \<and> same_mgr (w_mgr w) (w_mgr w')"

definition same_txn :: "Transaction \<Rightarrow> Transaction \<Rightarrow> bool" where
  "same_txn t t' \<longleftrightarrow>
     txn_id t = txn_id t' \<and> snapshot_version t = snapshot_version t' \<and> txn_state t = txn_state t' \<and>
     same_map (write_set t) (write_set t')"

lemma same_map_set: "same_map m m' \<Longrightarrow> set m = set m'"
  by (metis same_map_def um_find_eq_Some_iff surj_pair subsetI subset_antisym)

lemma same_map_mset: "same_map m m' \<Longrightarrow> mset m = mset m'"
  using same_map_set [of m m']
  by (auto simp: same_map_def um_wf_def distinct_map set_eq_iff_mset_eq_distinct)

lemma same_map_refl: "um_wf m \<Longrightarrow> same_map m m"
  by (simp add: same_map_def)

lemma same_map_assign: "same_map m m' \<Longrightarrow> same_map (um_assign m k v) (um_assign m' k v)"
  by (simp add: same_map_def)

lemma same_map_Nil: "same_map m m' \<Longrightarrow> m = [] \<longleftrightarrow> m' = []"
  using same_map_set by fastforce

lemma same_map_size: "same_map m m' \<Longrightarrow> um_size m = um_size m'"
  by (metis same_map_mset size_mset um_size_def)

text \<open>Two lists with the same elements stand for the same map.\<close>

lemma permuted_same_map:
  assumes "um_wf m" "mset m' = mset m"
  shows "same_map m m'"
proof -
  have "mset (map fst m') = mset (map fst m)"
    unfolding mset_map by (rule arg_cong [OF assms(2)])
  then have wf': "um_wf m'"
    using assms(1) mset_eq_imp_distinct_iff unfolding um_wf_def by blast
  have "um_find m k = um_find m' k" for k
    using um_find_eq_Some_iff [OF assms(1)] um_find_eq_Some_iff [OF wf'] mset_eq_setD [OF assms(2)]
    by (metis option.exhaust)
  with assms(1) wf' show ?thesis
    unfolding same_map_def by (blast intro: ext)
qed

section \<open>Reads\<close>

lemma same_storeD:
  assumes "same_store s s'"
  shows "um_find (vs_table s) = um_find (vs_table s')" "next_version s = next_version s'"
    and "VS_CurrentVersion s = VS_CurrentVersion s'"
    and "hist_of (vs_table s) = hist_of (vs_table s')" "newer_than (vs_table s) = newer_than (vs_table s')"
  using assms
  by (auto simp: same_store_def same_map_def VS_CurrentVersion_def hist_of_def newer_than_def fun_eq_iff)

lemma same_store_reads:
  assumes "same_store s s'"
  shows "VS_Get s k out ov = VS_Get s' k out ov" "VS_GetAsOf s k v out = VS_GetAsOf s' k v out"
    and "VS_KeyCount s = VS_KeyCount s'" "VS_VersionCount s k = VS_VersionCount s' k"
  using same_storeD [OF assms] assms same_map_size
  by (auto simp: VS_Get_def VS_GetAsOf_def VS_KeyCount_def VS_VersionCount_def same_store_def)

lemma same_mgr_oldest:
  assumes "same_mgr m m'" "same_store s s'"
  shows "OldestActiveSnapshot s m = OldestActiveSnapshot s' m'"
    and "ActiveTransactionCount m = ActiveTransactionCount m'"
  using assms same_storeD(3) [OF assms(2)] reg.oldest_none reg.oldest_Min reg.count_active
  by (auto simp: same_mgr_def OldestActiveSnapshot_eq) (metis reg.oldest_Min reg.oldest_none)+

section \<open>Writes\<close>

lemma same_map_push_ops:
  assumes "same_map t t'" "same_map ws ws'"
  shows "same_map (push_ops v (ops_of ws) t) (push_ops v (ops_of ws') t')"
proof -
  have hist: "hist_of t = hist_of t'"
    using assms(1) by (auto simp: same_map_def hist_of_def fun_eq_iff)
  have one: "filter (\<lambda>op. op_key op = k) (ops_of ws) = filter (\<lambda>op. op_key op = k) (ops_of ws')" for k
  proof -
    have filter: "filter (\<lambda>op. op_key op = k) (ops_of xs) =
        (case um_find xs k of None \<Rightarrow> [] | Some x \<Rightarrow> [\<lparr>op_key = k, op_value = x\<rparr>])" if "um_wf xs" for xs
      using that
    proof (induction xs)
      case (Cons kx xs)
      then show ?case
        by (cases kx) (auto simp: ops_of_def um_wf_Cons split: option.splits)
    qed (simp add: ops_of_def)
    then show ?thesis
      using assms(2) by (simp add: same_map_def)
  qed
  have "op_key ` set (ops_of ws) = op_key ` set (ops_of ws')"
    using same_map_set [OF assms(2)] by (simp add: ops_of_def)
  then have "um_find (push_ops v (ops_of ws) t) k = um_find (push_ops v (ops_of ws') t') k" for k
    using assms(1) one [of k] hist by (simp add: um_find_push_ops hist_of_push_ops same_map_def)
  then show ?thesis
    using assms(1) by (auto simp: same_map_def)
qed

lemma same_mgr_unregister: "same_mgr m m' \<Longrightarrow> same_mgr (Unregister m i) (Unregister m' i)"
  by (auto simp: same_mgr_def mvcc_inv active_Unregister)

lemma same_world_unregister:
  "same_world w w' \<Longrightarrow> txn_id t = txn_id t' \<Longrightarrow> same_world (w_unregister w t) (w_unregister w' t')"
  by (simp add: same_world_def w_unregister_def same_mgr_unregister)

lemma same_Begin:
  assumes "same_world w w'"
  shows "fst (Begin w) = fst (Begin w')" "same_world (snd (Begin w)) (snd (Begin w'))"
  using assms same_storeD(3) [of "w_store w" "w_store w'"] Begin_spec [of w] Begin_spec [of w']
  by (simp_all add: same_world_def same_mgr_def)

lemma same_conflicts:
  assumes "same_store s s'" "same_txn t t'"
  shows "mset (txn_conflicts s t) = mset (txn_conflicts s' t')"
proof -
  have "mset (map fst (write_set t)) = mset (map fst (write_set t'))"
    using assms(2) same_map_mset [of "write_set t" "write_set t'"] by (simp add: same_txn_def)
  then show ?thesis
    using assms same_storeD(5) [OF assms(1)] by (simp add: txn_conflicts_def same_txn_def)
qed

section \<open>The sweep\<close>

lemma gc_loop_stats:
  "snd (gc_loop b t st) = st + sum_mset (image_mset (\<lambda>(k, h). snd (gc_history b h)) (mset t))"
proof (induction t arbitrary: st)
  case (Cons kh t)
  then show ?case
    by (cases kh) (simp add: gc_loop_Cons case_prod_beta add.assoc split: option.split)
qed simp

lemma same_store_collect:
  assumes "same_store s s'"
  shows "fst (VS_CollectGarbage s b) = fst (VS_CollectGarbage s' b)"
    and "same_store (snd (VS_CollectGarbage s b)) (snd (VS_CollectGarbage s' b))"
proof -
  have m: "same_map (vs_table s) (vs_table s')"
    using assms by (simp add: same_store_def)
  show "fst (VS_CollectGarbage s b) = fst (VS_CollectGarbage s' b)"
    using same_map_mset [OF m] by (simp add: VS_CollectGarbage_def case_prod_beta gc_loop_stats)
  show "same_store (snd (VS_CollectGarbage s b)) (snd (VS_CollectGarbage s' b))"
    using assms m
    by (auto simp: same_store_def same_map_def snd_VS_CollectGarbage um_wf_gc_loop um_find_gc_loop fun_eq_iff)
qed

section \<open>Transactions\<close>

lemma same_txnD:
  assumes "same_txn t t'"
  shows "txn_id t = txn_id t'" "snapshot_version t = snapshot_version t'" "txn_state t = txn_state t'"
    and "um_find (write_set t) = um_find (write_set t')" "write_set t = [] \<longleftrightarrow> write_set t' = []"
  using assms same_map_Nil by (auto simp: same_txn_def same_map_def)

lemma same_txn_assign:
  "same_txn t t' \<Longrightarrow>
   same_txn (t\<lparr>write_set := um_assign (write_set t) k x\<rparr>) (t'\<lparr>write_set := um_assign (write_set t') k x\<rparr>)"
  by (simp add: same_txn_def same_map_assign)

lemma same_Txn_Get:
  "same_store s s' \<Longrightarrow> same_txn t t' \<Longrightarrow> Txn_Get s t k out = Txn_Get s' t' k out"
  using same_txnD [of t t'] same_store_reads(2) [of s s']
  by (simp add: Txn_Get_def split: option.split)

lemma same_Txn_Put:
  assumes "same_txn t t'"
  shows "fst (Txn_Put t k x) = fst (Txn_Put t' k x)" "same_txn (snd (Txn_Put t k x)) (snd (Txn_Put t' k x))"
  using assms same_txnD [OF assms] same_txn_assign [OF assms] by (simp_all add: Txn_Put_def)

lemma same_Txn_Delete:
  assumes "same_store s s'" "same_txn t t'"
  shows "fst (Txn_Delete s t k) = fst (Txn_Delete s' t' k)"
    and "same_txn (snd (Txn_Delete s t k)) (snd (Txn_Delete s' t' k))"
  using assms same_txnD [OF assms(2)] same_txn_assign [OF assms(2)] same_store_reads(2) [OF assms(1)]
  by (simp_all add: Txn_Delete_def case_prod_beta split: option.split)

text \<open>A transaction after its end, and the list of conflicting keys up to its order.\<close>

lemma same_txn_end:
  assumes "same_txn t t'"
  shows "same_txn (t\<lparr>txn_state := x\<rparr>) (t'\<lparr>txn_state := x\<rparr>)"
    and "same_txn (t\<lparr>write_set := [], txn_state := x\<rparr>) (t'\<lparr>write_set := [], txn_state := x\<rparr>)"
  using assms by (simp_all add: same_txn_def same_map_def)

definition same_commit ::
  "Status \<times> World \<times> Transaction \<times> u64 option \<times> key list option \<Rightarrow>
   Status \<times> World \<times> Transaction \<times> u64 option \<times> key list option \<Rightarrow> bool" where
  "same_commit r r' \<longleftrightarrow>
     (case (r, r') of ((st, w, t, ov, ok), (st', w', t', ov', ok')) \<Rightarrow>
        st = st' \<and> same_world w w' \<and> same_txn t t' \<and> ov = ov' \<and>
        map_option mset ok = map_option mset ok')"

lemma same_batch:
  assumes "same_store s s'" "same_map ws ws'"
  shows "same_store (vs_commit s (ops_of ws)) (vs_commit s' (ops_of ws'))"
  using assms same_map_push_ops by (simp add: same_store_def vs_commit_def)

lemma same_Txn_Commit:
  assumes w: "same_world w w'" and t: "same_txn t t'" and wf: "txn_wf t"
  shows "same_commit (Txn_Commit w t ov ok) (Txn_Commit w' t' ov ok)"
proof -
  let ?c = "txn_conflicts (w_store w) t" and ?c' = "txn_conflicts (w_store w') t'"
  have s: "same_store (w_store w) (w_store w')" and ws: "same_map (write_set t) (write_set t')"
    using w t by (simp_all add: same_world_def same_txn_def)
  note d = same_txnD [OF t]
  have c: "mset ?c = mset ?c'"
    by (rule same_conflicts [OF s t])
  then have c0: "?c = [] \<longleftrightarrow> ?c' = []" and cl: "length ?c = length ?c'"
    by (metis mset_zero_iff) (metis c size_mset)
  have un: "same_world (w_unregister (w\<lparr>w_store := x\<rparr>) t) (w_unregister (w'\<lparr>w_store := x'\<rparr>) t')"
    if "same_store x x'" for x x'
    using that w same_world_unregister [of "w\<lparr>w_store := x\<rparr>" "w'\<lparr>w_store := x'\<rparr>" t t'] d(1)
    by (simp add: same_world_def)
  have wf': "txn_wf t'"
    using wf d(4) ws by (simp add: txn_wf_def same_map_def)
  consider "txn_state t \<noteq> kActive" | "txn_state t = kActive" "write_set t = []"
    | "txn_state t = kActive" "write_set t \<noteq> []" "?c = []"
    | "txn_state t = kActive" "write_set t \<noteq> []" "?c \<noteq> []"
    by blast
  then show ?thesis
  proof cases
    case 1
    then show ?thesis
      using w t d(3) by (simp add: same_commit_def Txn_Commit_inactive)
  next
    case 2
    then show ?thesis
      using d same_txn_end(1) [OF t] same_world_unregister [OF w d(1)]
      by (simp add: same_commit_def Txn_Commit_readonly)
  next
    case 3
    then show ?thesis
      using d c0 wf wf' same_txn_end(1) [OF t] un [OF same_batch [OF s ws]] same_storeD(2) [OF s]
      by (simp add: same_commit_def Txn_Commit_ok)
  next
    case 4
    have "write_set t' \<noteq> []" "um_find (write_set t) [] = None" "um_find (write_set t') [] = None"
      using 4(2) d(5) wf wf' by (simp_all add: txn_wf_def)
    then show ?thesis
      using 4 d(2,3) c c0 cl same_txn_end(2) [OF t] same_world_unregister [OF w d(1)]
      by (cases ok) (simp_all add: same_commit_def Txn_Commit_def VS_ApplyBatchIfNoConflict_def
          find_conflicts_txn find_conflicts_txn [of _ t, unfolded d(2)])
  qed
qed

lemma same_Txn_Abort:
  assumes "same_world w w'" "same_txn t t'"
  shows "fst (Txn_Abort w t) = fst (Txn_Abort w' t')"
    and "same_world (fst (snd (Txn_Abort w t))) (fst (snd (Txn_Abort w' t')))"
    and "same_txn (snd (snd (Txn_Abort w t))) (snd (snd (Txn_Abort w' t')))"
  using assms same_txnD [OF assms(2)] same_txn_end [OF assms(2)] same_world_unregister [OF assms(1)]
  by (simp_all add: Txn_Abort_def)

section \<open>A collection\<close>

lemma same_RunOnce:
  assumes "same_world w w'"
  shows "fst (RunOnce w cs) = fst (RunOnce w' cs)" "snd (snd (RunOnce w cs)) = snd (snd (RunOnce w' cs))"
    and "same_world (fst (snd (RunOnce w cs))) (fst (snd (RunOnce w' cs)))"
proof -
  let ?b = "OldestActiveSnapshot (w_store w) (w_mgr w)"
  have s: "same_store (w_store w) (w_store w')" "same_mgr (w_mgr w) (w_mgr w')"
    using assms by (simp_all add: same_world_def)
  note b = same_mgr_oldest(1) [OF s(2,1)]
  show eq: "fst (RunOnce w cs) = fst (RunOnce w' cs)"
    using same_store_collect(1) [OF s(1), of ?b] b by (simp add: RunOnce_def case_prod_beta Let_def)
  then show "snd (snd (RunOnce w cs)) = snd (snd (RunOnce w' cs))"
    by simp
  show "same_world (fst (snd (RunOnce w cs))) (fst (snd (RunOnce w' cs)))"
    using same_store_collect(2) [OF s(1), of ?b] b s(2) by (simp add: same_world_def vs_collect_def)
qed

section \<open>The order cannot be observed\<close>

text \<open>C24: No result depends on the iteration order of a hash table. Take two worlds, and two
  transactions, that hold the same entries in any two orders (of the table, of every shard of
  the registry and of the write set). Reads, the counters, \<open>Put\<close>, \<open>Delete\<close>, \<open>Begin\<close>,
  \<open>Abort\<close> and a collection return the same in both; \<open>Commit\<close> returns the same status,
  commit version and conflicting keys (up to their order); and after each of them the two
  worlds and transactions again differ in order only.\<close>

theorem iteration_order_unobservable:
  assumes "same_world w w'" "same_txn t t'" "txn_wf t"
  shows "Txn_Get (w_store w) t k out = Txn_Get (w_store w') t' k out \<and>
    VS_Get (w_store w) k out ov = VS_Get (w_store w') k out ov \<and>
    VS_GetAsOf (w_store w) k v out = VS_GetAsOf (w_store w') k v out \<and>
    VS_KeyCount (w_store w) = VS_KeyCount (w_store w') \<and>
    VS_VersionCount (w_store w) k = VS_VersionCount (w_store w') k \<and>
    ActiveTransactionCount (w_mgr w) = ActiveTransactionCount (w_mgr w') \<and>
    OldestActiveSnapshot (w_store w) (w_mgr w) = OldestActiveSnapshot (w_store w') (w_mgr w') \<and>
    rel_prod (=) same_txn (Txn_Put t k x) (Txn_Put t' k x) \<and>
    rel_prod (=) same_txn (Txn_Delete (w_store w) t k) (Txn_Delete (w_store w') t' k) \<and>
    rel_prod (=) same_world (Begin w) (Begin w') \<and>
    rel_prod (=) (rel_prod same_world same_txn) (Txn_Abort w t) (Txn_Abort w' t') \<and>
    rel_prod (=) (rel_prod same_world (=)) (RunOnce w cs) (RunOnce w' cs) \<and>
    same_commit (Txn_Commit w t ov ok) (Txn_Commit w' t' ov ok)"
proof -
  have s: "same_store (w_store w) (w_store w')" and m: "same_mgr (w_mgr w) (w_mgr w')"
    using assms(1) by (simp_all add: same_world_def)
  note reads = same_Txn_Get [OF s assms(2)] same_store_reads [OF s] same_mgr_oldest [OF m s]
  show ?thesis
    unfolding rel_prod_sel
    by (intro conjI reads same_Txn_Put same_Txn_Delete same_Begin same_Txn_Abort same_RunOnce
        same_Txn_Commit assms s)
qed

text \<open>A transaction that buffered two writes, committed from its write set in either order:
  the two tables differ, what they answer does not.\<close>

definition order_txn :: "(key \<times> val option) list \<Rightarrow> Transaction" where
  "order_txn ws = (fst (Begin World_init))\<lparr>write_set := ws\<rparr>"

theorem iteration_order_unobservable_witness:
  "let ws = [(''a'', Some ''1''), (''b'', Some ''2'')]; w = snd (Begin World_init);
       r = Txn_Commit w (order_txn ws) None None; r' = Txn_Commit w (order_txn (rev ws)) None None
   in same_commit r r' \<and> vs_table (w_store (fst (snd r))) \<noteq> vs_table (w_store (fst (snd r')))"
proof -
  let ?ws = "[(''a'', Some ''1''), (''b'', Some ''2'')]" and ?w = "snd (Begin World_init)"
  let ?r = "\<lambda>ws. Txn_Commit ?w (order_txn ws) None None"
  have wf: "um_wf ?ws" "um_find ?ws '''' = None"
    by code_simp+
  have t: "same_txn (order_txn ?ws) (order_txn (rev ?ws))"
    using permuted_same_map [OF wf(1), of "rev ?ws"] by (simp add: same_txn_def order_txn_def)
  have "w_inv ?w"
    using w_inv_Begin [OF w_inv_init] by code_simp
  then have "same_world ?w ?w"
    by (simp add: w_inv_def same_world_def same_store_def same_mgr_def same_map_refl)
  note same = iteration_order_unobservable [OF this t, of _ _ None _ _ _ None]
  have "txn_wf (order_txn ?ws)"
    using wf by (simp add: txn_wf_def order_txn_def)
  with same have "same_commit (?r ?ws) (?r (rev ?ws))"
    by blast
  moreover have "vs_table (w_store (fst (snd (?r ?ws)))) \<noteq> vs_table (w_store (fst (snd (?r (rev ?ws)))))"
    by code_simp
  ultimately show ?thesis
    by simp
qed

end
