(* ===== verification/Alloc_Failure.thy ===== *)
theory Alloc_Failure
  imports Iteration_Order Kv_Store
begin

text \<open>
  What the operations leave behind when an allocation throws \<open>std::bad_alloc\<close>. The other
  theories assume that memory suffices; here every operation that changes state takes one
  more argument that says which of its allocations fails, and returns \<open>None\<close> in place of
  its status when the exception leaves it. The locks are released by the guards' destructors
  and the containers give the guarantees of the standard: \<open>operator[]\<close> and \<open>push_back\<close>
  have no effect when they throw, and the object expression of a member call is evaluated
  before its argument. What an operation has already done is not undone, so a failure is not
  always without effect:
  \<^item> an insertion \<open>m[key] = value\<close> that fails after \<open>operator[]\<close> leaves the key with
    a default value: an empty string in a \<open>KVStore\<close>, an empty history in a
    \<open>VersionStore\<close>, a buffered delete in a write set;
  \<^item> a batch that fails at its \<open>i\<close>-th operation leaves the operations before it;
  \<^item> a \<open>Begin\<close> that cannot allocate its \<open>Transaction\<close> leaves its registration.
  Garbage collection allocates nothing. An allocation that fails in a read, or while a message
  is built, leaves every state as it was; only that of the conflict's message is included,
  since the list of keys has then already been handed to the caller.
\<close>

section \<open>Insertions\<close>

text \<open>The two allocating steps of \<open>m[key] = value\<close> and \<open>m[key].push_back(value)\<close>: the node
  of a key that is not yet there, and the copy of the value.\<close>

datatype fault = fNode | fValue

text \<open>\<open>m[key]\<close>: the entry is created with the default value when it is missing.\<close>

definition um_touch :: "('k \<times> 'v) list \<Rightarrow> 'k \<Rightarrow> 'v \<Rightarrow> ('k \<times> 'v) list" where
  "um_touch m key dflt = (case um_find m key of None \<Rightarrow> um_assign m key dflt | Some _ \<Rightarrow> m)"

text \<open>The fault, if it happens on this path: no node is allocated for a key that is there.\<close>

definition fault_hits :: "('k \<times> 'v) list \<Rightarrow> 'k \<Rightarrow> fault option \<Rightarrow> fault option" where
  "fault_hits m key f = (if f = Some fNode \<and> um_find m key \<noteq> None then None else f)"

text \<open>What a failed insertion leaves.\<close>

definition um_fail :: "('k \<times> 'v) list \<Rightarrow> 'k \<Rightarrow> 'v \<Rightarrow> fault \<Rightarrow> ('k \<times> 'v) list" where
  "um_fail m key dflt f = (case f of fNode \<Rightarrow> m | fValue \<Rightarrow> um_touch m key dflt)"

section \<open>The stores\<close>

definition KV_Put_alloc :: "fault option \<Rightarrow> KVStore \<Rightarrow> key \<Rightarrow> val \<Rightarrow> Status option \<times> KVStore" where
  "KV_Put_alloc f s key value =
     (if key = [] then (Some (InvalidArgument ''key must not be empty''), s)
      else case fault_hits (kv_table s) key f of
        Some f' \<Rightarrow> (None, s\<lparr>kv_table := um_fail (kv_table s) key '''' f'\<rparr>)
      | None \<Rightarrow> (Some OK, s\<lparr>kv_table := um_assign (kv_table s) key value\<rparr>))"

definition VS_Put_alloc :: "fault option \<Rightarrow> VersionStore \<Rightarrow> key \<Rightarrow> val \<Rightarrow> u64 option \<Rightarrow>
    Status option \<times> VersionStore \<times> u64 option" where
  "VS_Put_alloc f s key value out_version =
     (if key = [] then (Some (InvalidArgument ''key must not be empty''), s, out_version)
      else let version = next_version s; s1 = s\<lparr>next_version := version + 1\<rparr> in
        case fault_hits (vs_table s) key f of
          Some f' \<Rightarrow> (None, s1\<lparr>vs_table := um_fail (vs_table s) key [] f'\<rparr>, out_version)
        | None \<Rightarrow>
            (Some OK,
             s1\<lparr>vs_table := um_push (vs_table s) key \<lparr>vv_version = version, vv_value = Some value\<rparr>\<rparr>,
             write_out out_version version))"

text \<open>\<open>Delete\<close> appends to a history it has found: only \<open>push_back\<close> can fail.\<close>

definition VS_Delete_alloc :: "bool \<Rightarrow> VersionStore \<Rightarrow> key \<Rightarrow> u64 option \<Rightarrow>
    Status option \<times> VersionStore \<times> u64 option" where
  "VS_Delete_alloc fails s key out_version =
     (if key = [] then (Some (InvalidArgument ''key must not be empty''), s, out_version)
      else if \<not> currently_visible (vs_table s) key
        then (Some (NotFound (''key not present: '' @ key)), s, out_version)
      else let version = next_version s; s1 = s\<lparr>next_version := version + 1\<rparr> in
        if fails then (None, s1, out_version)
        else
          (Some OK,
           s1\<lparr>vs_table := um_push (vs_table s) key \<lparr>vv_version = version, vv_value = None\<rparr>\<rparr>,
           write_out out_version version))"

text \<open>The appending loop of a batch; the \<open>i\<close>-th element of the first argument is the fault of
  the \<open>i\<close>-th iteration. The flag says whether the loop ran to its end.\<close>

fun push_ops_alloc :: "fault option list \<Rightarrow> u64 \<Rightarrow> WriteOp list \<Rightarrow> table \<Rightarrow> bool \<times> table" where
  "push_ops_alloc fs version [] t = (True, t)"
| "push_ops_alloc [] version (op # ops) t = (True, push_ops version (op # ops) t)"
| "push_ops_alloc (f # fs) version (op # ops) t =
     (case fault_hits t (op_key op) f of
        Some f' \<Rightarrow> (False, um_fail t (op_key op) [] f')
      | None \<Rightarrow>
          push_ops_alloc fs version ops
            (um_push t (op_key op) \<lparr>vv_version = version, vv_value = op_value op\<rparr>))"

definition VS_ApplyBatch_alloc :: "fault option list \<Rightarrow> VersionStore \<Rightarrow> WriteOp list \<Rightarrow> u64 option \<Rightarrow>
    Status option \<times> VersionStore \<times> u64 option" where
  "VS_ApplyBatch_alloc fs s ops out_version =
     (if ops = [] then (Some (InvalidArgument ''ops must not be empty''), s, out_version)
      else if has_empty_key ops then (Some (InvalidArgument ''key must not be empty''), s, out_version)
      else let version = next_version s; (done, t) = push_ops_alloc fs version ops (vs_table s);
               s' = s\<lparr>vs_table := t, next_version := version + 1\<rparr> in
        if done then (Some OK, s', write_out out_version version) else (None, s', out_version))"

text \<open>The validating batch can also fail while it collects the conflicting keys and, after they
  have been moved to the caller, while it builds the message of the conflict.\<close>

datatype batch_fault = fCollect | fMessage | fApply "fault option list"

definition VS_ApplyBatchIfNoConflict_alloc ::
  "batch_fault \<Rightarrow> VersionStore \<Rightarrow> WriteOp list \<Rightarrow> u64 \<Rightarrow> u64 option \<Rightarrow> key list option \<Rightarrow>
   Status option \<times> VersionStore \<times> u64 option \<times> key list option" where
  "VS_ApplyBatchIfNoConflict_alloc f s ops snapshot out_version out_conflicting_keys =
     (if ops = []
      then (Some (InvalidArgument ''ops must not be empty''), s, out_version, out_conflicting_keys)
      else if has_empty_key ops
      then (Some (InvalidArgument ''key must not be empty''), s, out_version, out_conflicting_keys)
      else
        let conflicts = find_conflicts (vs_table s) snapshot ops in
        if conflicts \<noteq> [] then
          let remaining = (if out_conflicting_keys \<noteq> None then [] else conflicts);
              msg = ''write-write conflict on '' @ to_string (length remaining) @ '' key(s)''
          in if f = fCollect then (None, s, out_version, out_conflicting_keys)
             else (if f = fMessage then None else Some (Conflict msg), s, out_version,
                   write_out out_conflicting_keys conflicts)
        else
          let version = next_version s;
              (done, t) = push_ops_alloc (case f of fApply fs \<Rightarrow> fs | _ \<Rightarrow> []) version ops (vs_table s);
              s' = s\<lparr>vs_table := t, next_version := version + 1\<rparr>
          in if done then (Some OK, s', write_out out_version version, out_conflicting_keys)
             else (None, s', out_version, out_conflicting_keys))"

section \<open>Transactions\<close>

text \<open>A value of type \<open>std::optional<std::string>\<close> is empty by default, and in a write set the
  empty optional is a delete.\<close>

definition Txn_Put_alloc :: "fault option \<Rightarrow> Transaction \<Rightarrow> key \<Rightarrow> val \<Rightarrow> Status option \<times> Transaction" where
  "Txn_Put_alloc f t key value =
     (if txn_state t \<noteq> kActive then (Some (InvalidArgument ''transaction is not active''), t)
      else if key = [] then (Some (InvalidArgument ''key must not be empty''), t)
      else case fault_hits (write_set t) key f of
        Some f' \<Rightarrow> (None, t\<lparr>write_set := um_fail (write_set t) key None f'\<rparr>)
      | None \<Rightarrow> (Some OK, t\<lparr>write_set := um_assign (write_set t) key (Some value)\<rparr>))"

text \<open>\<open>Delete\<close> can fail while it reads the snapshot or while it adds the node; assigning
  \<open>nullopt\<close> to an entry of the write set cannot.\<close>

definition Txn_Delete_alloc :: "bool \<Rightarrow> VersionStore \<Rightarrow> Transaction \<Rightarrow> key \<Rightarrow>
    Status option \<times> Transaction" where
  "Txn_Delete_alloc fails store t key =
     (if fails \<and> txn_state t = kActive \<and> key \<noteq> [] \<and> um_find (write_set t) key = None then (None, t)
      else let (s, t') = Txn_Delete store t key in (Some s, t'))"

text \<open>\<open>Commit\<close> can fail while it copies its write set or in the store. In both cases the
  exception leaves the transaction active and registered, with its write set.\<close>

datatype commit_fault = fCopy | fBatch batch_fault

definition Txn_Commit_alloc :: "commit_fault \<Rightarrow> World \<Rightarrow> Transaction \<Rightarrow> u64 option \<Rightarrow> key list option \<Rightarrow>
    Status option \<times> World \<times> Transaction \<times> u64 option \<times> key list option" where
  "Txn_Commit_alloc f w t out_commit_version out_conflicting_keys =
     (if txn_state t \<noteq> kActive
      then (Some (InvalidArgument ''transaction is not active''), w, t,
            out_commit_version, out_conflicting_keys)
      else if write_set t = [] then
        (Some OK, w_unregister w t, t\<lparr>txn_state := kCommitted\<rparr>,
         write_out out_commit_version (snapshot_version t), out_conflicting_keys)
      else case f of
        fCopy \<Rightarrow> (None, w, t, out_commit_version, out_conflicting_keys)
      | fBatch bf \<Rightarrow>
          let (s, store', commit_version, out_keys) =
                VS_ApplyBatchIfNoConflict_alloc bf (w_store w) (ops_of (write_set t))
                  (snapshot_version t) (Some 0) out_conflicting_keys;
              w' = w\<lparr>w_store := store'\<rparr>
          in (case s of
                None \<Rightarrow> (None, w', t, out_commit_version, out_keys)
              | Some st \<Rightarrow>
                  if \<not> st_ok st
                  then (Some st, w_unregister w' t, t\<lparr>write_set := [], txn_state := kAborted\<rparr>,
                        out_commit_version, out_keys)
                  else (Some OK, w_unregister w' t, t\<lparr>txn_state := kCommitted\<rparr>,
                        write_out out_commit_version (case commit_version of Some v \<Rightarrow> v | None \<Rightarrow> 0),
                        out_keys)))"

text \<open>\<open>Begin\<close> allocates the node of its placeholder and, after both phases of the registration,
  the \<open>Transaction\<close> object.\<close>

datatype begin_fault = fPlaceholder | fObject

definition Begin_alloc :: "begin_fault option \<Rightarrow> World \<Rightarrow> Transaction option \<times> World" where
  "Begin_alloc f w =
     (let (i, m1) = fetch_txn_id (w_mgr w) in
      if f = Some fPlaceholder then (None, w\<lparr>w_mgr := m1\<rparr>)
      else
        let m2 = record_snapshot m1 i 0;
            snapshot = VS_CurrentVersion (w_store w);
            m3 = record_snapshot m2 i snapshot;
            w' = w\<lparr>w_mgr := m3\<rparr>
        in if f = Some fObject then (None, w') else (Some (new_Transaction i snapshot), w'))"

section \<open>With enough memory\<close>

lemma fault_hits_None [simp]: "fault_hits m k None = None"
  by (simp add: fault_hits_def)

lemma fault_hits_value [simp]: "fault_hits m k (Some fValue) = Some fValue"
  by (simp add: fault_hits_def)

text \<open>Without a fault the operations are those of the other theories.\<close>

lemma no_fault_stores:
  "KV_Put_alloc None kv k x = map_prod Some id (KV_Put kv k x)"
  "VS_Put_alloc None s k x ov = map_prod Some id (VS_Put s k x ov)"
  "VS_Delete_alloc False s k ov = map_prod Some id (VS_Delete s k ov)"
  "VS_ApplyBatch_alloc [] s ops ov = map_prod Some id (VS_ApplyBatch s ops ov)"
  "VS_ApplyBatchIfNoConflict_alloc (fApply []) s ops v ov ok =
     map_prod Some id (VS_ApplyBatchIfNoConflict s ops v ov ok)"
  by (auto simp: KV_Put_alloc_def KV_Put_def VS_Put_alloc_def VS_Put_def VS_Delete_alloc_def
      VS_Delete_def VS_ApplyBatch_alloc_def VS_ApplyBatch_def VS_ApplyBatchIfNoConflict_alloc_def
      VS_ApplyBatchIfNoConflict_def Let_def neq_Nil_conv)

lemma no_fault_txns:
  "Txn_Put_alloc None t k x = map_prod Some id (Txn_Put t k x)"
  "Txn_Delete_alloc False s t k = map_prod Some id (Txn_Delete s t k)"
  "Txn_Commit_alloc (fBatch (fApply [])) w t ov ok = map_prod Some id (Txn_Commit w t ov ok)"
  "Begin_alloc None w = map_prod Some id (Begin w)"
  by (auto simp: Txn_Put_alloc_def Txn_Put_def Txn_Delete_alloc_def Txn_Commit_alloc_def
      Txn_Commit_def no_fault_stores Begin_alloc_def Begin_def Let_def case_prod_beta map_prod_def)

section \<open>Failed insertions\<close>

lemma um_wf_touch [simp]: "um_wf m \<Longrightarrow> um_wf (um_touch m k d)"
  by (simp add: um_touch_def split: option.split)

lemma um_wf_fail [simp]: "um_wf m \<Longrightarrow> um_wf (um_fail m k d f)"
  by (simp add: um_fail_def split: fault.split)

lemma um_find_touch:
  "um_find (um_touch m k d) = (if um_find m k = None then (um_find m)(k \<mapsto> d) else um_find m)"
  by (auto simp: um_touch_def split: option.split)

text \<open>An empty history reads like no history.\<close>

lemma hist_of_fail [simp]: "hist_of (um_fail t k [] f) = hist_of t"
  by (auto simp: um_fail_def hist_of_def um_find_touch fun_eq_iff split: fault.split)

lemmas newer_than_hist = newer_than_hist_of [unfolded last_newer_def]

lemma visible_cong:
  "hist_of (vs_table s) = hist_of (vs_table s') \<Longrightarrow> visible s = visible s'"
  by (simp add: visible_def fun_eq_iff)

section \<open>Failed batches\<close>

text \<open>A batch whose \<open>i\<close>-th operation is the first to fail has appended the operations before it.\<close>

lemma push_ops_alloc_fault:
  assumes "i < length ops"
  shows "push_ops_alloc (replicate i None @ Some fValue # fs) v ops t =
    (False, um_touch (push_ops v (take i ops) t) (op_key (ops ! i)) [])"
  using assms
proof (induction i arbitrary: ops t)
  case 0
  then show ?case by (cases ops) (simp_all add: um_fail_def)
next
  case (Suc i)
  then show ?case by (cases ops) simp_all
qed

lemma push_ops_alloc_done:
  "fst (push_ops_alloc fs v ops t) \<Longrightarrow> snd (push_ops_alloc fs v ops t) = push_ops v ops t"
  by (induction fs v ops t rule: push_ops_alloc.induct) (auto split: option.splits)

lemma push_ops_alloc_failed:
  assumes "\<not> fst (push_ops_alloc fs v ops t)"
  shows "\<exists>i<length ops. \<exists>f. snd (push_ops_alloc fs v ops t) =
    um_fail (push_ops v (take i ops) t) (op_key (ops ! i)) [] f"
  using assms
proof (induction fs v ops t rule: push_ops_alloc.induct)
  case (3 f fs v op ops t)
  show ?case
  proof (cases "fault_hits t (op_key op) f")
    case None
    with 3 obtain i f' where "i < length ops"
      "snd (push_ops_alloc (f # fs) v (op # ops) t) =
         um_fail (push_ops v (take (Suc i) (op # ops)) t) (op_key ((op # ops) ! Suc i)) [] f'"
      by auto
    then show ?thesis
      by (metis Suc_less_eq length_Cons)
  next
    case (Some f')
    then show ?thesis by fastforce
  qed
qed simp_all

text \<open>The store after a batch that failed at operation \<open>i\<close>.\<close>

definition vs_partial :: "VersionStore \<Rightarrow> WriteOp list \<Rightarrow> nat \<Rightarrow> VersionStore" where
  "vs_partial s ops i =
     s\<lparr>vs_table := um_touch (push_ops (next_version s) (take i ops) (vs_table s)) (op_key (ops ! i)) [],
       next_version := next_version s + 1\<rparr>"

lemma hist_of_touch [simp]: "hist_of (um_touch t k []) = hist_of t"
  using hist_of_fail [of t k fValue] by (simp add: um_fail_def)

lemma vs_partial_simps [simp]:
  "next_version (vs_partial s ops i) = next_version s + 1"
  "hist_of (vs_table (vs_partial s ops i)) = hist_of (vs_table (vs_commit s (take i ops)))"
  "visible (vs_partial s ops i) = visible (vs_commit s (take i ops))"
  by (auto simp: vs_partial_def vs_commit_def intro!: visible_cong)

lemma Txn_Commit_alloc_partial:
  assumes "txn_state t = kActive" "txn_wf t" "txn_conflicts (w_store w) t = []"
    and "i < length (write_set t)"
  shows "Txn_Commit_alloc (fBatch (fApply (replicate i None @ Some fValue # fs))) w t ov ok =
    (None, w\<lparr>w_store := vs_partial (w_store w) (ops_of (write_set t)) i\<rparr>, t, ov, ok)"
proof -
  have "write_set t \<noteq> []" "i < length (ops_of (write_set t))"
    using assms(4) by (auto simp: ops_of_def)
  then show ?thesis
    using assms by (simp add: Txn_Commit_alloc_def VS_ApplyBatchIfNoConflict_alloc_def txn_wf_def
        find_conflicts_txn push_ops_alloc_fault vs_partial_def Let_def)
qed

text \<open>What the transaction then finds newer than its snapshot is what it published itself.\<close>

lemma txn_conflicts_partial:
  assumes "txn_wf t" "txn_conflicts s t = []" "snapshot_version t < next_version s"
  shows "txn_conflicts (vs_partial s (ops_of (write_set t)) i) t = map fst (take i (write_set t))"
proof -
  let ?ops = "take i (ops_of (write_set t))" and ?ws = "write_set t"
  let ?new = "newer_than (vs_table (vs_partial s (ops_of ?ws) i)) (snapshot_version t)"
  have keys: "op_key ` set ?ops = fst ` set (take i ?ws)"
    by (simp add: ops_of_def take_map image_image case_prod_beta)
  have new: "?new k \<longleftrightarrow> k \<in> fst ` set (take i ?ws)" if "k \<in> fst ` set ?ws" for k
  proof -
    have old: "\<not> newer_than (vs_table s) (snapshot_version t) k"
      using assms(2) that by (auto simp: txn_conflicts_def filter_empty_conv)
    have "?new k \<longleftrightarrow> filter (\<lambda>op. op_key op = k) ?ops \<noteq> []"
      using old assms(3)
      by (auto simp: newer_than_hist vs_commit_def hist_of_push_ops last_map)
    also have "\<dots> \<longleftrightarrow> k \<in> op_key ` set ?ops"
      by (auto simp: filter_empty_conv)
    finally show ?thesis by (simp only: keys)
  qed
  have "distinct (map fst ?ws)"
    using assms(1) by (simp add: txn_wf_def um_wf_def)
  then have d: "distinct (map fst (take i ?ws) @ map fst (drop i ?ws))"
    by (simp add: map_append [symmetric] del: map_append)
  moreover have "filter ?new (map fst ?ws) = filter ?new (map fst (take i ?ws) @ map fst (drop i ?ws))"
    by (simp add: map_append [symmetric] del: map_append)
  moreover have "filter ?new (map fst (take i ?ws)) = map fst (take i ?ws)"
    using new by (simp add: filter_id_conv) (meson image_iff in_set_takeD)
  ultimately have "filter ?new (map fst ?ws) =
      map fst (take i ?ws) @ filter ?new (map fst (drop i ?ws))"
    by simp
  also have "filter ?new (map fst (drop i ?ws)) = []"
    using d new by (simp add: filter_empty_conv disjoint_iff) (meson image_eqI in_set_dropD)
  finally show ?thesis
    by (simp add: txn_conflicts_def)
qed

section \<open>Failed puts of a transaction\<close>

lemma Txn_Put_alloc_value:
  assumes "txn_state t = kActive" "k \<noteq> []"
  shows "Txn_Put_alloc (Some fValue) t k x = (None, t\<lparr>write_set := um_touch (write_set t) k None\<rparr>)"
  using assms by (simp add: Txn_Put_alloc_def um_fail_def)

lemma txn_wf_touch: "txn_wf t \<Longrightarrow> k \<noteq> [] \<Longrightarrow> txn_wf (t\<lparr>write_set := um_touch (write_set t) k None\<rparr>)"
  by (simp add: txn_wf_def um_find_touch)

lemma txn_view_touch:
  "um_find (write_set t) k = None \<Longrightarrow>
   txn_view s (t\<lparr>write_set := um_touch (write_set t) k None\<rparr>) = (txn_view s t)(k := None)"
  by (auto simp: txn_view_def um_find_touch fun_eq_iff split: option.split)

text \<open>A buffered delete that is committed hides the key from its version on.\<close>

lemma commit_buffered_delete:
  assumes "txn_state t = kActive" "txn_wf t" "txn_conflicts (w_store w) t = []"
    and "um_find (write_set t) k = Some None" "next_version (w_store w) \<le> v"
  shows "fst (Txn_Commit w t ov ok) = OK \<and>
    visible (w_store (fst (snd (Txn_Commit w t ov ok)))) k v = None"
proof -
  have "write_set t \<noteq> []"
    using assms(4) by auto
  moreover have "batch_value (ops_of (write_set t)) k = Some None"
    using assms(2,4) by (simp add: batch_value_ops_of txn_wf_def)
  ultimately show ?thesis
    using assms by (simp add: Txn_Commit_ok visible_commit_new)
qed

section \<open>Failed begins\<close>

lemma Begin_alloc_object: "Begin_alloc (Some fObject) w = (None, snd (Begin w))"
  by (simp add: Begin_alloc_def Begin_def Let_def fetch_txn_id_def)

lemma Begin_alloc_cases:
  "snd (Begin_alloc f w) = snd (Begin w) \<or>
   snd (Begin_alloc f w) = w\<lparr>w_mgr := w_mgr w\<lparr>next_txn_id := next_txn_id (w_mgr w) + 1\<rparr>\<rparr>"
  by (simp add: Begin_alloc_def Begin_def fetch_txn_id_def Let_def)

text \<open>What the rest of the program can do while no \<open>Transaction\<close> object has the id \<open>i\<close>: begin
  transactions (or fail to), end those that exist, change the store in any way, collect.\<close>

inductive others_step :: "u64 \<Rightarrow> World \<Rightarrow> World \<Rightarrow> bool" for i where
  os_begin: "next_txn_id (w_mgr w) + 1 \<noteq> 0 \<Longrightarrow> others_step i w (snd (Begin_alloc f w))"
| os_commit: "txn_id t \<noteq> i \<Longrightarrow> others_step i w (fst (snd (Txn_Commit_alloc f w t ov ok)))"
| os_abort: "txn_id t \<noteq> i \<Longrightarrow> others_step i w (fst (snd (Txn_Abort w t)))"
| os_destroy: "txn_id t \<noteq> i \<Longrightarrow> others_step i w (Txn_destroy w t)"
| os_store: "others_step i w (w\<lparr>w_store := s\<rparr>)"
| os_collect: "others_step i w (fst (snd (RunOnce w cs)))"

text \<open>A registration that no object owns stays: the id was handed out, so no later
  \<open>Begin\<close> reuses it, and nobody unregisters it.\<close>

definition pinned :: "u64 \<Rightarrow> u64 \<Rightarrow> World \<Rightarrow> bool" where
  "pinned i v w \<longleftrightarrow>
     tm_wf (w_mgr w) \<and> active_snapshots (w_mgr w) i = Some v \<and> i < next_txn_id (w_mgr w)"

lemma Txn_Commit_alloc_mgr:
  "w_mgr (fst (snd (Txn_Commit_alloc f w t ov ok))) = w_mgr w \<or>
   w_mgr (fst (snd (Txn_Commit_alloc f w t ov ok))) = Unregister (w_mgr w) (txn_id t)"
  by (auto simp: Txn_Commit_alloc_def case_prod_beta Let_def split: commit_fault.split option.split)

lemma pinned_Unregister:
  "pinned i v w \<Longrightarrow> j \<noteq> i \<Longrightarrow> w_mgr w' = Unregister (w_mgr w) j \<Longrightarrow> pinned i v w'"
  by (simp add: pinned_def mvcc_inv active_Unregister)

lemma pinned_Begin:
  assumes "pinned i v w" "next_txn_id (w_mgr w) + 1 \<noteq> 0"
  shows "pinned i v (snd (Begin_alloc f w))"
proof -
  have act: "active_snapshots (m\<lparr>next_txn_id := n\<rparr>) = active_snapshots m" for m n
    by (rule ext) (simp add: active_snapshots_def)
  have wf: "tm_wf (w_mgr w\<lparr>next_txn_id := n\<rparr>)" for n
    using assms(1) by (simp add: pinned_def tm_wf_def)
  show ?thesis
    using Begin_alloc_cases [of f w] assms u64_less_succ [OF assms(2)] Begin_spec [of w]
    by (auto simp: pinned_def act wf)
qed

lemma pinned_step: "others_step i w w' \<Longrightarrow> pinned i v w \<Longrightarrow> pinned i v w'"
proof (induction rule: others_step.induct)
  case (os_begin w f)
  then show ?case by (simp add: pinned_Begin)
next
  case (os_commit t w f ov ok)
  then show ?case
    using Txn_Commit_alloc_mgr [of f w t ov ok] pinned_Unregister by (auto simp: pinned_def)
next
  case (os_abort t w)
  then show ?case by (auto simp: Txn_Abort_def intro: pinned_Unregister)
next
  case (os_destroy t w)
  then show ?case by (auto simp: Txn_destroy_def intro: pinned_Unregister)
qed (simp_all add: pinned_def)

lemma pinned_run: "(others_step i)\<^sup>*\<^sup>* w w' \<Longrightarrow> pinned i v w \<Longrightarrow> pinned i v w'"
  by (induction rule: rtranclp_induct) (auto intro: pinned_step)

lemma pinned_oldest: "pinned i v w \<Longrightarrow> OldestActiveSnapshot (w_store w) (w_mgr w) \<le> v"
  by (auto simp: pinned_def OldestActiveSnapshot_eq intro: reg.oldest_le)

lemma pinned_count: "pinned i v w \<Longrightarrow> 0 < ActiveTransactionCount (w_mgr w)"
  by (auto simp: pinned_def reg.count_active card_gt_0_iff reg.finite_active)

section \<open>Empty histories\<close>

text \<open>A store that has lost an insertion behaves as if the entry were not there: dropping the
  empty histories is a simulation, up to the order of the table.\<close>

definition prune :: "table \<Rightarrow> table" where
  "prune t = filter (\<lambda>(k, h). h \<noteq> []) t"

definition vs_prune :: "VersionStore \<Rightarrow> VersionStore" where
  "vs_prune s = s\<lparr>vs_table := prune (vs_table s)\<rparr>"

lemma prune_simps [simp]:
  "prune [] = []" "prune ((k, h) # t) = (if h = [] then prune t else (k, h) # prune t)"
  by (simp_all add: prune_def)

lemma um_find_prune:
  "um_wf t \<Longrightarrow> um_find (prune t) k = (if hist_of t k = [] then None else Some (hist_of t k))"
proof (induction t)
  case (Cons kh t)
  then show ?case
    by (cases kh) (auto simp: um_wf_Cons hist_of_def split: option.splits)
qed (simp add: hist_of_def)

lemma um_wf_prune [simp]: "um_wf t \<Longrightarrow> um_wf (prune t)"
  by (simp add: um_wf_def prune_def distinct_map_filter)

lemma same_map_pruneI:
  assumes "um_wf t" "um_wf t'" "hist_of t = hist_of t'" "\<And>k. um_find t' k \<noteq> Some []"
  shows "same_map (prune t) t'"
proof -
  have "um_find (prune t) k = um_find t' k" for k
    using assms(3) assms(4) [of k]
    by (cases "um_find t' k") (auto simp: um_find_prune [OF assms(1)] hist_of_def)
  then show ?thesis
    using assms(1,2) by (auto simp: same_map_def)
qed

lemma hist_of_prune [simp]: "um_wf t \<Longrightarrow> hist_of (prune t) = hist_of t"
  by (auto simp: hist_of_def [of "prune t"] um_find_prune fun_eq_iff)

lemma um_find_prune_Nil: "um_wf t \<Longrightarrow> um_find (prune t) k \<noteq> Some []"
  by (simp add: um_find_prune)

lemma prune_push_ops:
  assumes "um_wf t"
  shows "same_map (prune (push_ops v ops t)) (push_ops v ops (prune t))"
  using assms um_find_prune_Nil [OF assms]
  by (intro same_map_pruneI)
    (auto simp: hist_of_push_ops fun_eq_iff um_find_push_ops filter_empty_conv)

lemma gc_history_Nil [simp]: "gc_history b [] = (Some [], 0)"
  by (simp add: gc_history_def partition_point_def pp_loop.simps)




text \<open>\<open>ghosts s s'\<close>: \<open>s\<close> is \<open>s'\<close> with empty histories added.\<close>

definition ghosts :: "VersionStore \<Rightarrow> VersionStore \<Rightarrow> bool" where
  "ghosts s s' \<longleftrightarrow> um_wf (vs_table s) \<and> same_store (vs_prune s) s'"

lemma ghosts_iff:
  "ghosts s s' \<longleftrightarrow>
     um_wf (vs_table s) \<and> um_wf (vs_table s') \<and> next_version s = next_version s' \<and>
     hist_of (vs_table s) = hist_of (vs_table s') \<and> (\<forall>k. um_find (vs_table s') k \<noteq> Some [])"
proof
  assume g: "ghosts s s'"
  then have wf: "um_wf (vs_table s)" and "same_map (prune (vs_table s)) (vs_table s')"
    and "next_version s = next_version s'"
    by (simp_all add: ghosts_def same_store_def vs_prune_def)
  moreover from this have "um_find (vs_table s') = um_find (prune (vs_table s))"
    by (simp add: same_map_def)
  ultimately show "um_wf (vs_table s) \<and> um_wf (vs_table s') \<and> next_version s = next_version s' \<and>
     hist_of (vs_table s) = hist_of (vs_table s') \<and> (\<forall>k. um_find (vs_table s') k \<noteq> Some [])"
    by (auto simp: same_map_def um_find_prune hist_of_def [of "vs_table s'"] fun_eq_iff)
qed (simp add: ghosts_def same_store_def vs_prune_def same_map_pruneI)


lemma ghosts_fail: "ghosts s s' \<Longrightarrow>
   ghosts (s\<lparr>vs_table := um_fail (vs_table s) k [] f, next_version := n\<rparr>) (s'\<lparr>next_version := n\<rparr>)"
  by (auto simp: ghosts_iff)

lemma ghosts_find:
  assumes "ghosts s s'"
  shows "um_find (vs_table s') k =
    (if um_find (vs_table s) k = Some [] then None else um_find (vs_table s) k)"
proof -
  have "hist_of (vs_table s) k = hist_of (vs_table s') k" "um_find (vs_table s') k \<noteq> Some []"
    using assms by (simp_all add: ghosts_iff)
  then show ?thesis
    by (auto simp: hist_of_def split: option.splits)
qed

lemma ghosts_reads:
  assumes "ghosts s s'"
  shows "VS_Get s k out ov = VS_Get s' k out ov" "VS_VersionCount s k = VS_VersionCount s' k"
    and "st_code (fst (VS_GetAsOf s k v out)) = st_code (fst (VS_GetAsOf s' k v out))"
    and "snd (VS_GetAsOf s k v out) = snd (VS_GetAsOf s' k v out)"
    and "find_conflicts (vs_table s) v ops = find_conflicts (vs_table s') v ops"
    and "currently_visible (vs_table s) k = currently_visible (vs_table s') k"
proof -
  have pp: "partition_point p [] = 0" for p :: "VersionedValue \<Rightarrow> bool"
    by (simp add: partition_point_def pp_loop.simps)
  note f = ghosts_find [OF assms]
  show "VS_Get s k out ov = VS_Get s' k out ov" "VS_VersionCount s k = VS_VersionCount s' k"
    "currently_visible (vs_table s) k = currently_visible (vs_table s') k"
    by (auto simp: VS_Get_def VS_VersionCount_def currently_visible_def f split: option.split)
  show "st_code (fst (VS_GetAsOf s k v out)) = st_code (fst (VS_GetAsOf s' k v out))"
    "snd (VS_GetAsOf s k v out) = snd (VS_GetAsOf s' k v out)"
    by (auto simp: VS_GetAsOf_def NotFound_def f pp Let_def split: option.split)
  show "find_conflicts (vs_table s) v ops = find_conflicts (vs_table s') v ops"
    using assms by (simp add: find_conflicts_filter newer_than_hist [abs_def] ghosts_iff)
qed




lemma ghosts_refl: "vs_inv s \<Longrightarrow> ghosts s s"
  by (auto simp: ghosts_iff hist_inv_def dest: vs_inv_find)

section \<open>Properties\<close>

text \<open>C25: A commit is not atomic when memory runs out. If the append of the \<open>i\<close>-th buffered
  write throws, \<open>Commit\<close> passes the exception on with the transaction still active and
  registered, the version counter advanced, and exactly the first \<open>i\<close> writes visible to
  every reader at the new version. If the caller tries again, the transaction conflicts with
  the writes it published itself.\<close>

theorem failed_commit_exposes_prefix:
  assumes "txn_state t = kActive" "txn_wf t" "txn_conflicts (w_store w) t = []"
    and "snapshot_version t < next_version (w_store w)" "i < length (write_set t)"
  shows "\<exists>w'. Txn_Commit_alloc (fBatch (fApply (replicate i None @ [Some fValue]))) w t ov ok =
      (None, w', t, ov, ok) \<and>
    w_mgr w' = w_mgr w \<and> next_version (w_store w') = next_version (w_store w) + 1 \<and>
    visible (w_store w') = visible (vs_commit (w_store w) (take i (ops_of (write_set t)))) \<and>
    txn_conflicts (w_store w') t = map fst (take i (write_set t)) \<and>
    (0 < i \<longrightarrow> (\<exists>m. fst (Txn_Commit w' t ov ok) = Conflict m))"
proof -
  let ?w = "w\<lparr>w_store := vs_partial (w_store w) (ops_of (write_set t)) i\<rparr>"
  have c: "txn_conflicts (w_store ?w) t = map fst (take i (write_set t))"
    using txn_conflicts_partial [OF assms(2-4)] by simp
  have "\<exists>m. fst (Txn_Commit ?w t ov ok) = Conflict m" if "0 < i"
  proof -
    have "txn_conflicts (w_store ?w) t \<noteq> []"
      unfolding c using that assms(5) by auto
    from Txn_Commit_conflict [OF assms(1,2) this, of ov ok] show ?thesis
      by auto
  qed
  with c show ?thesis
    using Txn_Commit_alloc_partial [OF assms(1-3,5), of "[]" ov ok] by simp
qed

theorem failed_commit_exposes_prefix_witness:
  "let w = snd (Begin World_init); t = order_txn [(''a'', Some ''1''), (''b'', Some ''2'')];
       w' = fst (snd (Txn_Commit_alloc (fBatch (fApply [None, Some fValue])) w t None None))
   in visible (w_store w') ''a'' 1 = Some ''1'' \<and> visible (w_store w') ''b'' 1 = None \<and>
      (\<exists>m. fst (Txn_Commit w' t None None) = Conflict m)"
proof -
  let ?t = "order_txn [(''a'', Some ''1''), (''b'', Some ''2'')]" and ?w = "snd (Begin World_init)"
  have h: "txn_state ?t = kActive" "txn_wf ?t" "txn_conflicts (w_store ?w) ?t = []"
    "snapshot_version ?t < next_version (w_store ?w)" "1 < length (write_set ?t)"
    by code_simp+
  have "visible (vs_commit (w_store ?w) (take 1 (ops_of (write_set ?t)))) ''a'' 1 = Some ''1''"
    "visible (vs_commit (w_store ?w) (take 1 (ops_of (write_set ?t)))) ''b'' 1 = None"
    by code_simp+
  with failed_commit_exposes_prefix [OF h, of None None] show ?thesis
    by (auto simp: Let_def)
qed

text \<open>C26: A put that fails can delete. \<open>Put\<close> of a key the transaction has not touched first
  inserts the key with an empty optional and then assigns the value. If that assignment
  throws, the write set holds a delete of the key: the transaction itself no longer sees the
  key, and if it goes on and commits, the key is gone for everybody.\<close>

theorem failed_put_buffers_delete:
  assumes "txn_state t = kActive" "txn_wf t" "k \<noteq> []" "um_find (write_set t) k = None"
  shows "\<exists>t'. Txn_Put_alloc (Some fValue) t k x = (None, t') \<and> txn_wf t' \<and>
    txn_state t' = kActive \<and> snapshot_version t' = snapshot_version t \<and>
    txn_view s t' = (txn_view s t)(k := None) \<and>
    (\<forall>w v. txn_conflicts (w_store w) t' = [] \<and> next_version (w_store w) \<le> v \<longrightarrow>
       fst (Txn_Commit w t' ov ok) = OK \<and>
       visible (w_store (fst (snd (Txn_Commit w t' ov ok)))) k v = None)"
proof -
  let ?t = "t\<lparr>write_set := um_touch (write_set t) k None\<rparr>"
  have "um_find (write_set ?t) k = Some None" "txn_state ?t = kActive"
    using assms by (simp_all add: um_find_touch)
  with Txn_Put_alloc_value [OF assms(1,3), of x] txn_wf_touch [OF assms(2,3)]
    txn_view_touch [OF assms(4), of s] show ?thesis
    by (auto simp: commit_buffered_delete)
qed

text \<open>A key holds a committed value; a transaction fails to overwrite it, and commits.\<close>

definition fp_world :: World where
  "fp_world = snd (Begin (World_init\<lparr>w_store := fst (snd (VS_Put VS_init ''k'' ''old'' None))\<rparr>))"

definition fp_txn :: Transaction where
  "fp_txn = new_Transaction 1 1"

theorem failed_put_buffers_delete_witness:
  "visible (w_store fp_world) ''k'' 2 = Some ''old'' \<and>
   (\<exists>t'. Txn_Put_alloc (Some fValue) fp_txn ''k'' ''new'' = (None, t') \<and>
     visible (w_store (fst (snd (Txn_Commit fp_world t' None None)))) ''k'' 2 = None)"
proof -
  have h: "txn_state fp_txn = kActive" "txn_wf fp_txn" "''k'' \<noteq> ''''"
    "um_find (write_set fp_txn) ''k'' = None"
    by code_simp+
  have "txn_conflicts (w_store fp_world) (snd (Txn_Put_alloc (Some fValue) fp_txn ''k'' ''new'')) = []"
    "next_version (w_store fp_world) \<le> 2" "visible (w_store fp_world) ''k'' 2 = Some ''old''"
    by code_simp+
  with failed_put_buffers_delete [OF h, of "''new''" "w_store fp_world" None None] show ?thesis
    by auto
qed

text \<open>C27: A \<open>Begin\<close> that cannot allocate its \<open>Transaction\<close> pins the garbage collector for
  good. It throws after both phases of the registration, so the registry keeps an entry that
  belongs to no object. Whatever the rest of the program does from then on (until the id
  counter is used up), a transaction is counted as active, and no collection gets a boundary
  beyond the version that was current when \<open>Begin\<close> failed.\<close>

theorem failed_begin_pins_gc:
  assumes "w_inv w" "next_txn_id (w_mgr w) + 1 \<noteq> 0"
    and "(others_step (next_txn_id (w_mgr w)))\<^sup>*\<^sup>* (snd (Begin_alloc (Some fObject) w)) w'"
  shows "fst (Begin_alloc (Some fObject) w) = None \<and>
    active_snapshots (w_mgr w') (next_txn_id (w_mgr w)) = Some (VS_CurrentVersion (w_store w)) \<and>
    0 < ActiveTransactionCount (w_mgr w') \<and>
    OldestActiveSnapshot (w_store w') (w_mgr w') \<le> VS_CurrentVersion (w_store w)"
proof -
  let ?i = "next_txn_id (w_mgr w)" and ?v = "VS_CurrentVersion (w_store w)"
  have "pinned ?i ?v (snd (Begin_alloc (Some fObject) w))"
    using assms(1,2) Begin_spec [of w] u64_less_succ [OF assms(2)]
    by (simp add: Begin_alloc_object pinned_def w_inv_iff)
  then have "pinned ?i ?v w'"
    using pinned_run [OF assms(3)] by simp
  then show ?thesis
    using pinned_count [of ?i ?v w'] pinned_oldest [of ?i ?v w']
    by (simp add: Begin_alloc_object) (simp add: pinned_def)
qed

theorem failed_begin_pins_gc_witness:
  "let w1 = snd (Begin_alloc (Some fObject) World_init);
       w2 = w1\<lparr>w_store := fst (snd (VS_Put VS_init ''k'' ''v'' None))\<rparr>
   in VS_CurrentVersion (w_store w2) = 1 \<and> OldestActiveSnapshot (w_store w2) (w_mgr w2) \<le> 0"
proof -
  let ?w = "snd (Begin_alloc (Some fObject) World_init)"
  have i: "next_txn_id (w_mgr World_init) = 1" "VS_CurrentVersion (w_store World_init) = 0"
    by code_simp+
  let ?w' = "?w\<lparr>w_store := fst (snd (VS_Put VS_init ''k'' ''v'' None))\<rparr>"
  have run: "(others_step 1)\<^sup>*\<^sup>* ?w ?w'"
    by (rule r_into_rtranclp, rule os_store)
  have "OldestActiveSnapshot (w_store ?w') (w_mgr ?w') \<le> 0"
    using failed_begin_pins_gc [of World_init ?w', unfolded i, OF w_inv_init _ run] by simp
  moreover have "VS_CurrentVersion (fst (snd (VS_Put VS_init ''k'' ''v'' None))) = 1"
    by code_simp
  ultimately show ?thesis by simp
qed

text \<open>C29: A failed insertion leaves the versioned store readable and the baseline store wrong.
  When the copy of the value throws in a \<open>Put\<close> of a new key, \<open>VersionStore\<close> is left with an
  empty history: every read answers as before, only a version number is skipped and
  \<open>KeyCount\<close> counts one key too many. \<open>KVStore\<close> is left with an entry whose value is the
  empty string, and \<open>Get\<close> returns it.\<close>

theorem failed_store_puts:
  assumes "vs_inv s" "kv_inv kv" "k \<noteq> []"
    and "um_find (vs_table s) k = None" "um_find (kv_table kv) k = None"
  shows "(\<exists>s'. VS_Put_alloc (Some fValue) s k x ov = (None, s', ov) \<and>
      ghosts s' (s\<lparr>next_version := next_version s + 1\<rparr>) \<and> visible s' = visible s \<and>
      VS_Get s' k' out ov' = VS_Get s k' out ov' \<and> VS_KeyCount s' = Suc (VS_KeyCount s)) \<and>
    (\<exists>kv'. KV_Put_alloc (Some fValue) kv k x = (None, kv') \<and>
      KV_Get kv' k out = (OK, '''') \<and> KV_Size kv' = Suc (KV_Size kv))"
proof -
  let ?s = "s\<lparr>next_version := next_version s + 1\<rparr>"
  let ?s' = "s\<lparr>vs_table := um_fail (vs_table s) k [] fValue, next_version := next_version s + 1\<rparr>"
  have "ghosts ?s' ?s"
    by (rule ghosts_fail [OF ghosts_refl [OF assms(1)]])
  moreover from this have "VS_Get ?s' k' out ov' = VS_Get ?s k' out ov'"
    by (rule ghosts_reads(1))
  then have "VS_Get ?s' k' out ov' = VS_Get s k' out ov'"
    by (simp add: VS_Get_def)
  moreover have "visible ?s' = visible s"
    by (rule visible_cong) simp
  moreover have "VS_KeyCount ?s' = Suc (VS_KeyCount s)"
    using assms(1,4) by (simp add: VS_KeyCount_def um_fail_def um_touch_def um.size_assign)
  moreover have "VS_Put_alloc (Some fValue) s k x ov = (None, ?s', ov)"
    using assms(3) by (simp add: VS_Put_alloc_def Let_def)
  moreover have "KV_Put_alloc (Some fValue) kv k x = (None, snd (KV_Put kv k ''''))"
    using assms(3,5) by (simp add: KV_Put_alloc_def KV_Put_def um_fail_def um_touch_def)
  moreover have "KV_Get (snd (KV_Put kv k '''')) k out = (OK, '''')"
    "KV_Size (snd (KV_Put kv k '''')) = Suc (KV_Size kv)"
    using assms by (simp_all add: KV_Size_Put KV_Contains_def) (simp add: KV_Get_def KV_Put_def)
  ultimately show ?thesis by blast
qed

theorem failed_store_puts_witness:
  "VS_KeyCount (fst (snd (VS_Put_alloc (Some fValue) VS_init ''k'' ''v'' None))) = 1 \<and>
   KV_Get (snd (KV_Put_alloc (Some fValue) KV_init ''k'' ''v'')) ''k'' ''out'' = (OK, '''')"
proof -
  have "um_find (vs_table VS_init) ''k'' = None" "um_find (kv_table KV_init) ''k'' = None"
    "VS_KeyCount VS_init = 0"
    by code_simp+
  with failed_store_puts [OF vs_inv_init kv_inv_init, of "''k''" "''v''" None "''k''" "''out''" None]
  show ?thesis by auto
qed



end
