(* ===== verification/Background_GC.thy ===== *)
theory Background_GC
  imports Garbage_Collector
begin

text \<open>
  The background thread of \<open>GarbageCollector\<close> (\<open>StartBackground\<close>, \<open>StopBackground\<close>,
  \<open>BackgroundLoop\<close>, the destructor; \<open>src/gc.cpp\<close>) as a machine of two threads: the
  controller, which calls start and stop one after the other, and the background thread.
  One atomic access to \<open>running_\<close>, one critical section of \<open>cv_mutex_\<close>, one notification
  or one thread operation is one step. Anybody may run \<open>RunOnce\<close> or change the world (commit
  transactions, write) at any time.

  \<open>wait_for\<close> with a predicate tests the predicate, and while it is false gives up the mutex
  and blocks; it wakes up on a notification, spuriously or at the end of the interval, takes
  the mutex, and tests the predicate again. \<open>Bg_wait notified\<close> is the blocked thread.
\<close>

section \<open>The machine\<close>

text \<open>The background thread: \<open>No_thread\<close> is a \<open>std::thread\<close> that is not joinable.\<close>

datatype bg_pc =
    No_thread
  | Bg_pass
  | Bg_lock
  | Bg_wait bool
  | Bg_exited

definition joinable :: "bg_pc \<Rightarrow> bool" where
  "joinable b \<longleftrightarrow> b \<noteq> No_thread"

datatype ctl_pc =
    Ctl_idle
  | Start_checked
  | Start_cleared
  | Start_running
  | Stop_checked
  | Stop_flagged
  | Stop_notified
  | Stop_joining
  | Stop_joined
  | Terminated

record Collector =
  gc_world :: World
  cumulative_stats :: GCStats
  background_thread :: bg_pc
  running :: bool
  stop_requested :: bool

definition Collector_init :: "World \<Rightarrow> Collector" where
  "Collector_init w =
     \<lparr>gc_world = w, cumulative_stats = 0, background_thread = No_thread, running = False,
      stop_requested = False\<rparr>"

definition run_pass :: "Collector \<Rightarrow> Collector" where
  "run_pass g =
     (let (pass_stats, w', cs') = RunOnce (gc_world g) (cumulative_stats g)
      in g\<lparr>gc_world := w', cumulative_stats := cs'\<rparr>)"

text \<open>Notifying wakes the thread if it is blocked, and is lost otherwise.\<close>

fun notify :: "bg_pc \<Rightarrow> bg_pc" where
  "notify (Bg_wait n) = Bg_wait True"
| "notify b = b"

text \<open>The wait, once it holds the mutex: \<open>timed_out\<close> says that the interval is over.\<close>

definition wait_test :: "bool \<Rightarrow> bool \<Rightarrow> bg_pc" where
  "wait_test stop timed_out =
     (if stop then Bg_exited else if timed_out then Bg_pass else Bg_wait False)"

inductive bg_step :: "Collector \<Rightarrow> Collector \<Rightarrow> bool" where
  bg_pass: "background_thread g = Bg_pass \<Longrightarrow>
    bg_step g ((run_pass g)\<lparr>background_thread := Bg_lock\<rparr>)"
| bg_lock: "background_thread g = Bg_lock \<Longrightarrow>
    bg_step g (g\<lparr>background_thread := wait_test (stop_requested g) False\<rparr>)"
| bg_notified: "background_thread g = Bg_wait True \<Longrightarrow>
    bg_step g (g\<lparr>background_thread := wait_test (stop_requested g) False\<rparr>)"
| bg_spurious: "background_thread g = Bg_wait n \<Longrightarrow>
    bg_step g (g\<lparr>background_thread := wait_test (stop_requested g) False\<rparr>)"
| bg_timeout: "background_thread g = Bg_wait n \<Longrightarrow>
    bg_step g (g\<lparr>background_thread := wait_test (stop_requested g) True\<rparr>)"

text \<open>Starting a thread in a joinable \<open>std::thread\<close> terminates the program, and so does
  destroying one. A join blocks until the thread has exited.\<close>

inductive ctl_step :: "Collector \<Rightarrow> ctl_pc \<Rightarrow> Collector \<Rightarrow> ctl_pc \<Rightarrow> bool" where
  start_noop: "running g \<Longrightarrow> ctl_step g Ctl_idle g Ctl_idle"
| start_check: "\<not> running g \<Longrightarrow> ctl_step g Ctl_idle g Start_checked"
| start_clear: "ctl_step g Start_checked (g\<lparr>stop_requested := False\<rparr>) Start_cleared"
| start_mark: "ctl_step g Start_cleared (g\<lparr>running := True\<rparr>) Start_running"
| start_thread: "\<not> joinable (background_thread g) \<Longrightarrow>
    ctl_step g Start_running (g\<lparr>background_thread := Bg_pass\<rparr>) Ctl_idle"
| start_terminate: "joinable (background_thread g) \<Longrightarrow> ctl_step g Start_running g Terminated"
| stop_noop: "\<not> running g \<Longrightarrow> ctl_step g Ctl_idle g Ctl_idle"
| stop_check: "running g \<Longrightarrow> ctl_step g Ctl_idle g Stop_checked"
| stop_flag: "ctl_step g Stop_checked (g\<lparr>stop_requested := True\<rparr>) Stop_flagged"
| stop_notify: "ctl_step g Stop_flagged
    (g\<lparr>background_thread := notify (background_thread g)\<rparr>) Stop_notified"
| stop_joinable: "joinable (background_thread g) \<Longrightarrow> ctl_step g Stop_notified g Stop_joining"
| stop_not_joinable: "\<not> joinable (background_thread g) \<Longrightarrow> ctl_step g Stop_notified g Stop_joined"
| stop_join: "background_thread g = Bg_exited \<Longrightarrow>
    ctl_step g Stop_joining (g\<lparr>background_thread := No_thread\<rparr>) Stop_joined"
| stop_done: "ctl_step g Stop_joined (g\<lparr>running := False\<rparr>) Ctl_idle"

inductive gc_step :: "Collector \<times> ctl_pc \<Rightarrow> Collector \<times> ctl_pc \<Rightarrow> bool" where
  gc_ctl: "ctl_step g c g' c' \<Longrightarrow> gc_step (g, c) (g', c')"
| gc_bg: "bg_step g g' \<Longrightarrow> gc_step (g, c) (g', c)"
| gc_manual: "gc_step (g, c) (run_pass g, c)"
| gc_env: "gc_step (g, c) (g\<lparr>gc_world := w\<rparr>, c)"

inductive gc_reach :: "Collector \<times> ctl_pc \<Rightarrow> bool" where
  gc_reach_init: "gc_reach (Collector_init w, Ctl_idle)"
| gc_reach_step: "gc_reach x \<Longrightarrow> gc_step x y \<Longrightarrow> gc_reach y"

inductive_simps bg_step_simps: "bg_step g g'"

section \<open>The invariant\<close>

text \<open>What holds at each point of the controller.\<close>

fun gc_inv :: "Collector \<Rightarrow> ctl_pc \<Rightarrow> bool" where
  "gc_inv g Ctl_idle =
     (running g = joinable (background_thread g) \<and> (running g \<longrightarrow> \<not> stop_requested g) \<and>
      background_thread g \<noteq> Bg_exited)"
| "gc_inv g Start_checked = (\<not> running g \<and> \<not> joinable (background_thread g))"
| "gc_inv g Start_cleared =
     (\<not> running g \<and> \<not> joinable (background_thread g) \<and> \<not> stop_requested g)"
| "gc_inv g Start_running =
     (running g \<and> \<not> joinable (background_thread g) \<and> \<not> stop_requested g)"
| "gc_inv g Stop_checked =
     (running g \<and> joinable (background_thread g) \<and> \<not> stop_requested g \<and>
      background_thread g \<noteq> Bg_exited)"
| "gc_inv g Stop_flagged = (running g \<and> joinable (background_thread g) \<and> stop_requested g)"
| "gc_inv g Stop_notified =
     (running g \<and> joinable (background_thread g) \<and> stop_requested g \<and>
      background_thread g \<noteq> Bg_wait False)"
| "gc_inv g Stop_joining =
     (running g \<and> joinable (background_thread g) \<and> stop_requested g \<and>
      background_thread g \<noteq> Bg_wait False)"
| "gc_inv g Stop_joined = (running g \<and> \<not> joinable (background_thread g) \<and> stop_requested g)"
| "gc_inv g Terminated = False"

lemma run_pass_simps [simp]:
  "background_thread (run_pass g) = background_thread g" "running (run_pass g) = running g"
  "stop_requested (run_pass g) = stop_requested g"
  by (simp_all add: run_pass_def case_prod_beta Let_def)

lemma gc_inv_cong:
  "background_thread g' = background_thread g \<Longrightarrow> running g' = running g \<Longrightarrow>
   stop_requested g' = stop_requested g \<Longrightarrow> gc_inv g' c = gc_inv g c"
  by (cases c) simp_all

lemma notify_simps [simp]:
  "notify b = No_thread \<longleftrightarrow> b = No_thread" "notify b \<noteq> Bg_wait False"
  by (cases b; simp add: joinable_def)+

lemma ctl_step_inv: "ctl_step g c g' c' \<Longrightarrow> gc_inv g c \<Longrightarrow> gc_inv g' c'"
  by (induction rule: ctl_step.induct) (auto simp: joinable_def)

lemma bg_step_inv:
  assumes "bg_step g g'" "gc_inv g c"
  shows "gc_inv g' c"
  using assms by (cases c) (auto simp: bg_step_simps joinable_def wait_test_def)

lemma gc_reach_inv: "gc_reach x \<Longrightarrow> gc_inv (fst x) (snd x)"
proof (induction rule: gc_reach.induct)
  case (gc_reach_init w)
  then show ?case by (simp add: Collector_init_def joinable_def)
next
  case (gc_reach_step x y)
  from gc_reach_step.hyps(2) gc_reach_step.IH show ?case
    by (cases rule: gc_step.cases)
      (auto intro: ctl_step_inv bg_step_inv simp: gc_inv_cong [of "run_pass _"]
        gc_inv_cong [of "_\<lparr>gc_world := _\<rparr>"])
qed

section \<open>Stopping\<close>

text \<open>How many steps the thread is from its exit, once it has been asked to stop.\<close>

fun bg_distance :: "bg_pc \<Rightarrow> nat" where
  "bg_distance Bg_pass = 2"
| "bg_distance Bg_lock = 1"
| "bg_distance (Bg_wait n) = 1"
| "bg_distance Bg_exited = 0"
| "bg_distance No_thread = 0"

lemma bg_step_stopping:
  assumes "bg_step g g'" "stop_requested g"
  shows "stop_requested g'" and "bg_distance (background_thread g') < bg_distance (background_thread g)"
    and "joinable (background_thread g')" and "background_thread g' \<noteq> Bg_wait False"
  using assms by (auto simp: bg_step_simps wait_test_def joinable_def)

lemma bg_run_stopping:
  assumes "(bg_step ^^ n) g g'" "stop_requested g" "joinable (background_thread g)"
    "background_thread g \<noteq> Bg_wait False"
  shows "stop_requested g' \<and> joinable (background_thread g') \<and>
    background_thread g' \<noteq> Bg_wait False \<and>
    n + bg_distance (background_thread g') \<le> bg_distance (background_thread g)"
  using assms(1)
proof (induction n arbitrary: g')
  case 0
  with assms show ?case by simp
next
  case (Suc n)
  then obtain h where "(bg_step ^^ n) g h" "bg_step h g'" by auto
  with Suc.IH [of h] bg_step_stopping [of h g'] show ?case by fastforce
qed

lemma bg_distance_le: "bg_distance b \<le> 2"
  by (cases b) simp_all

text \<open>A thread that has not exited can take a step, and waits for nothing but a blocked
  wait.\<close>

lemma bg_step_exists:
  assumes "joinable (background_thread g)" "background_thread g \<noteq> Bg_exited"
  shows "\<exists>g'. bg_step g g'"
  using assms
  by (cases "background_thread g") (auto simp: joinable_def intro: bg_step.intros exI)

section \<open>Several controllers\<close>

definition IsBackgroundRunning :: "Collector \<Rightarrow> bool" where
  "IsBackgroundRunning g = running g"

text \<open>The invariant above is about one controller at a time. The class has no lock around
  \<open>StartBackground\<close>: the test of \<open>running_\<close> and its assignment are separate accesses. Here any
  number of threads call start and stop.\<close>

inductive gcs_step :: "Collector \<times> (nat \<Rightarrow> ctl_pc) \<Rightarrow> Collector \<times> (nat \<Rightarrow> ctl_pc) \<Rightarrow> bool" where
  gcs_ctl: "ctl_step g (cs i) g' c' \<Longrightarrow> gcs_step (g, cs) (g', cs(i := c'))"
| gcs_bg: "bg_step g g' \<Longrightarrow> gcs_step (g, cs) (g', cs)"

text \<open>Two starts at once: both find that nothing is running, and the second assigns to a
  joinable thread, which terminates the program.\<close>

lemma concurrent_starts_terminate:
  "\<exists>g cs. gcs_step\<^sup>*\<^sup>* (Collector_init w, \<lambda>_. Ctl_idle) (g, cs) \<and> cs 1 = Terminated"
proof -
  define two :: "ctl_pc \<Rightarrow> ctl_pc \<Rightarrow> nat \<Rightarrow> ctl_pc" where "two c d = (\<lambda>_. Ctl_idle)(0 := c, 1 := d)" for c d
  define reach2 where "reach2 = gcs_step\<^sup>*\<^sup>* (Collector_init w, \<lambda>_. Ctl_idle)"
  have first: "reach2 (g', two c' d)" if "ctl_step g c g' c'" "reach2 (g, two c d)" for g g' c c' d
    using gcs_ctl [of g "two c d" 0 g' c'] that
    by (auto simp: two_def reach2_def fun_upd_twist intro: rtranclp.rtrancl_into_rtrancl)
  have second: "reach2 (g', two c d')" if "ctl_step g d g' d'" "reach2 (g, two c d)" for g g' c d d'
    using gcs_ctl [of g "two c d" 1 g' d'] that
    by (auto simp: two_def reach2_def intro: rtranclp.rtrancl_into_rtrancl)
  let ?g1 = "(Collector_init w)\<lparr>stop_requested := False, running := True\<rparr>"
  let ?g2 = "?g1\<lparr>background_thread := Bg_pass, stop_requested := False, running := True\<rparr>"
  have "reach2 (Collector_init w, two Ctl_idle Ctl_idle)"
    by (simp add: reach2_def two_def fun_upd_idem)
  then have "reach2 (Collector_init w, two Start_checked Start_checked)"
    by (intro second [OF start_check] first [OF start_check]) (simp_all add: Collector_init_def)
  then have "reach2 (?g1\<lparr>background_thread := Bg_pass\<rparr>, two Ctl_idle Start_checked)"
    by (intro first [OF start_thread] first [OF start_mark] first [OF start_clear])
      (simp_all add: Collector_init_def joinable_def)
  then have "reach2 (?g2, two Ctl_idle Terminated)"
    by (intro second [OF start_terminate] second [OF start_mark] second [OF start_clear])
      (simp_all add: Collector_init_def joinable_def)
  then show ?thesis
    by (intro exI [of _ ?g2] exI [of _ "two Ctl_idle Terminated"]) (simp add: reach2_def two_def)
qed

section \<open>Complete calls\<close>

text \<open>From every state between two calls, \<open>StartBackground\<close> can be carried out and leaves the
  thread running, and \<open>StopBackground\<close> can be carried out, the background thread moving when
  it has to, and leaves none (\<open>tests/test_gc.cpp\<close>, \<open>GarbageCollectorBackground\<close>).\<close>

lemma ctl_run: "ctl_step g c g' c' \<Longrightarrow> gc_step\<^sup>*\<^sup>* (g', c') z \<Longrightarrow> gc_step\<^sup>*\<^sup>* (g, c) z"
  by (meson converse_rtranclp_into_rtranclp gc_ctl)

lemma start_completes:
  assumes "gc_reach (g, Ctl_idle)"
  shows "\<exists>g'. gc_step\<^sup>*\<^sup>* (g, Ctl_idle) (g', Ctl_idle) \<and> IsBackgroundRunning g' \<and>
    joinable (background_thread g') \<and> (IsBackgroundRunning g \<longrightarrow> g' = g)"
proof (cases "running g")
  case True
  then show ?thesis
    using gc_reach_inv [OF assms] by (intro exI [of _ g]) (auto simp: IsBackgroundRunning_def)
next
  case False
  let ?g = "g\<lparr>stop_requested := False, running := True\<rparr>"
  have "\<not> joinable (background_thread ?g)"
    using gc_reach_inv [OF assms] False by simp
  then have "gc_step\<^sup>*\<^sup>* (g, Ctl_idle) (?g\<lparr>background_thread := Bg_pass\<rparr>, Ctl_idle)"
    by (intro ctl_run [OF start_check [OF False]] ctl_run [OF start_clear] ctl_run [OF start_mark])
      (simp add: r_into_rtranclp gc_ctl start_thread)
  with False show ?thesis
    by (intro exI [of _ "?g\<lparr>background_thread := Bg_pass\<rparr>"]) (simp add: IsBackgroundRunning_def joinable_def)
qed

lemma bg_run_exits:
  assumes "stop_requested g" "joinable (background_thread g)"
  shows "\<exists>g'. gc_step\<^sup>*\<^sup>* (g, c) (g', c) \<and> background_thread g' = Bg_exited \<and> running g' = running g"
  using assms
proof (induction "bg_distance (background_thread g)" arbitrary: g rule: less_induct)
  case less
  show ?case
  proof (cases "background_thread g = Bg_exited")
    case False
    then obtain g1 where g1: "bg_step g g1"
      using bg_step_exists less.prems(2) by blast
    then have "running g1 = running g"
      by (auto simp: bg_step_simps)
    moreover obtain g' where "gc_step\<^sup>*\<^sup>* (g1, c) (g', c)" "background_thread g' = Bg_exited"
        "running g' = running g1"
      using less.hyps [of g1] bg_step_stopping [OF g1 less.prems(1)] by blast
    ultimately show ?thesis
      using gc_bg [OF g1, of c] by (metis converse_rtranclp_into_rtranclp)
  qed auto
qed

lemma stop_completes:
  assumes "gc_reach (g, Ctl_idle)"
  shows "\<exists>g'. gc_step\<^sup>*\<^sup>* (g, Ctl_idle) (g', Ctl_idle) \<and> \<not> IsBackgroundRunning g' \<and>
    \<not> joinable (background_thread g') \<and> (\<not> IsBackgroundRunning g \<longrightarrow> g' = g)"
proof (cases "running g")
  case False
  then show ?thesis
    using gc_reach_inv [OF assms] by (intro exI [of _ g]) (auto simp: IsBackgroundRunning_def)
next
  case True
  let ?g = "g\<lparr>stop_requested := True, background_thread := notify (background_thread g)\<rparr>"
  have j: "joinable (background_thread ?g)"
    using gc_reach_inv [OF assms] True by (auto simp: joinable_def)
  obtain g' where g': "gc_step\<^sup>*\<^sup>* (?g, Stop_joining) (g', Stop_joining)" "background_thread g' = Bg_exited"
    using bg_run_exits [of ?g Stop_joining] j by auto
  let ?g' = "g'\<lparr>background_thread := No_thread\<rparr>"
  have "gc_step\<^sup>*\<^sup>* (g', Stop_joining) (?g'\<lparr>running := False\<rparr>, Ctl_idle)"
    by (rule ctl_run [OF stop_join [OF g'(2)]]) (simp add: r_into_rtranclp gc_ctl stop_done)
  with g'(1) have "gc_step\<^sup>*\<^sup>* (?g, Stop_joining) (?g'\<lparr>running := False\<rparr>, Ctl_idle)"
    by (rule rtranclp_trans)
  moreover have "gc_step\<^sup>*\<^sup>* (g, Ctl_idle) (?g, Stop_joining)"
    using ctl_run [OF stop_check [OF True] ctl_run [OF stop_flag ctl_run [OF stop_notify]]]
      r_into_rtranclp [of gc_step, OF gc_ctl, OF stop_joinable [OF j]] by simp
  ultimately show ?thesis
    using True
    by (intro exI [of _ "?g'\<lparr>running := False\<rparr>"])
      (auto simp: IsBackgroundRunning_def joinable_def intro: rtranclp_trans)
qed

section \<open>A thread that cannot be started\<close>

text \<open>The constructor of \<open>std::thread\<close> throws when no thread can be created. \<open>StartBackground\<close>
  has then already set \<open>running_\<close>.\<close>

definition StartBackground_fails :: "Collector \<Rightarrow> Collector" where
  "StartBackground_fails g = (if running g then g else g\<lparr>stop_requested := False, running := True\<rparr>)"

text \<open>The collector reports that it runs, no pass is ever made by it, and further calls of
  \<open>StartBackground\<close> do nothing; \<open>StopBackground\<close> returns at once and repairs the state.\<close>

lemma failed_start_looks_running:
  assumes "gc_reach (g, Ctl_idle)" "\<not> IsBackgroundRunning g"
  defines "g1 \<equiv> StartBackground_fails g"
  shows "IsBackgroundRunning g1" "\<not> joinable (background_thread g1)" "\<not> bg_step g1 g'"
    and "ctl_step g1 Ctl_idle g' c \<Longrightarrow> g' = g1 \<and> (c = Ctl_idle \<or> c = Stop_checked)"
    and "gc_step\<^sup>*\<^sup>* (g1, Ctl_idle) (g\<lparr>stop_requested := True\<rparr>, Ctl_idle)"
proof -
  have r: "\<not> running g" and j: "background_thread g = No_thread"
    using assms(2) gc_reach_inv [OF assms(1)] by (auto simp: IsBackgroundRunning_def joinable_def)
  then have g1: "g1 = g\<lparr>stop_requested := False, running := True\<rparr>"
    by (simp add: g1_def StartBackground_fails_def)
  show "IsBackgroundRunning g1" "\<not> joinable (background_thread g1)" "\<not> bg_step g1 g'"
    using j by (auto simp: g1 IsBackgroundRunning_def joinable_def bg_step_simps)
  show "g' = g1 \<and> (c = Ctl_idle \<or> c = Stop_checked)" if "ctl_step g1 Ctl_idle g' c"
    using that by (cases rule: ctl_step.cases) (auto simp: g1)
  have "gc_step\<^sup>*\<^sup>* (g1, Ctl_idle)
      (g1\<lparr>stop_requested := True, background_thread := notify (background_thread g1), running := False\<rparr>, Ctl_idle)"
    by (rule ctl_run [OF stop_check], simp add: g1, rule ctl_run [OF stop_flag], rule ctl_run [OF stop_notify],
        rule ctl_run [OF stop_not_joinable], simp add: g1 j joinable_def)
      (use gc_ctl [OF stop_done] in \<open>auto intro: r_into_rtranclp\<close>)
  moreover have "g\<lparr>stop_requested := True, background_thread := No_thread, running := False\<rparr> =
      g\<lparr>stop_requested := True\<rparr>"
    using r j by (cases g) simp
  ultimately show "gc_step\<^sup>*\<^sup>* (g1, Ctl_idle) (g\<lparr>stop_requested := True\<rparr>, Ctl_idle)"
    using j by (simp add: g1)
qed

end
