(* ===== verification/Unit_Tests.thy ===== *)
theory Unit_Tests
  imports Retry Garbage_Collector Kv_Store
begin

text \<open>
  The repository's sequential unit tests (\<open>tests/test_kv_store.cpp\<close>,
  \<open>tests/test_version_store.cpp\<close>, \<open>tests/test_transaction.cpp\<close>, \<open>tests/test_gc.cpp\<close>) run
  on the model, as a check that the definitions behave as the authors of the code expect of
  the code. A test is a list of calls with the results it expects. The tests of the
  background thread depend on the scheduler; what they look for is in \<open>Background_GC\<close>
  (\<open>start_completes\<close>, \<open>stop_completes\<close>), except that one of them is run here with its passes
  at fixed points. What the stress tests look for is proved of all interleavings in
  \<open>Concurrency\<close>, \<open>Contention\<close>, \<open>Rmw_Client\<close> and \<open>Kv_Clients\<close>.
\<close>

section \<open>Tests of KVStore\<close>

text \<open>A call and what it must return: a code, and a value where it returns one.\<close>

datatype kv_call =
    KPut key val Code | KGet key Code val | KDelete key Code | KContains key bool | KSize nat

text \<open>\<open>Get\<close> is called with a location that holds \<open>unchanged\<close>.\<close>

fun kv_script :: "kv_call list \<Rightarrow> KVStore \<Rightarrow> bool" where
  "kv_script [] s = True"
| "kv_script (KPut k x c # cs) s = (let (st, s') = KV_Put s k x in st_code st = c \<and> kv_script cs s')"
| "kv_script (KGet k c x # cs) s =
     (let (st, out) = KV_Get s k ''unchanged'' in st_code st = c \<and> out = x \<and> kv_script cs s)"
| "kv_script (KDelete k c # cs) s = (let (st, s') = KV_Delete s k in st_code st = c \<and> kv_script cs s')"
| "kv_script (KContains k b # cs) s = (KV_Contains s k = b \<and> kv_script cs s)"
| "kv_script (KSize n # cs) s = (KV_Size s = n \<and> kv_script cs s)"

text \<open>A key with white space and bytes that are not ASCII, and a value with an embedded NUL.\<close>

definition weird_key :: key where
  "weird_key = ''weird key'' @ [CHR 0x09] @ ''with'' @ [CHR 0x0A] @ ''whitespace and '' @
     [CHR 0xE2, CHR 0x9C, CHR 0x93] @ '' utf8''"

definition weird_val :: val where
  "weird_val = ''bin'' @ [CHR 0x00] @ ''ary''"

definition kv_tests :: "(string \<times> kv_call list) list" where
  "kv_tests =
    [(''PutThenGetReturnsSameValue'', [KPut ''name'' ''gopal'' kOk, KGet ''name'' kOk ''gopal'']),
     (''PutOverwritesExistingValue'',
      [KPut ''k'' ''v1'' kOk, KPut ''k'' ''v2'' kOk, KGet ''k'' kOk ''v2'', KSize 1]),
     (''DeleteRemovesKey'', [KPut ''k'' ''v'' kOk, KDelete ''k'' kOk, KContains ''k'' False, KSize 0]),
     (''SizeTracksDistinctKeys'',
      [KSize 0, KPut ''a'' ''1'' kOk, KPut ''b'' ''2'' kOk, KPut ''a'' ''3'' kOk, KSize 2]),
     (''GetOnMissingKeyReturnsNotFound'', [KGet ''nope'' kNotFound ''unchanged'']),
     (''DeleteOnMissingKeyReturnsNotFound'', [KDelete ''nope'' kNotFound]),
     (''GetOnEmptyStoreReturnsNotFound'', [KGet ''anything'' kNotFound ''unchanged'']),
     (''EmptyKeyIsRejectedOnAllOperations'',
      [KPut '''' ''v'' kInvalidArgument, KGet '''' kInvalidArgument ''unchanged'',
       KDelete '''' kInvalidArgument]),
     (''EmptyValueIsAllowed'', [KPut ''k'' '''' kOk, KGet ''k'' kOk '''']),
     (''DeleteThenGetReturnsNotFound'',
      [KPut ''k'' ''v'' kOk, KDelete ''k'' kOk, KGet ''k'' kNotFound ''unchanged'']),
     (''ReinsertingAfterDeleteWorks'',
      [KPut ''k'' ''v1'' kOk, KDelete ''k'' kOk, KPut ''k'' ''v2'' kOk, KGet ''k'' kOk ''v2'']),
     (''KeysWithSpecialCharactersAndEmbeddedNulLikeBytes'',
      [KPut weird_key weird_val kOk, KGet weird_key kOk weird_val])]"

section \<open>Tests of VersionStore, transactions and collections\<close>

text \<open>The transactions of a test are numbered in the order of their \<open>Begin\<close>.\<close>

datatype call =
    SPut key val Code u64 | SDelete key Code u64 | SGet key Code val | SGetAsOf key u64 Code val
  | SKeyCount nat | SVersionCount key nat | SCurrent u64 | SCollect u64 u64 u64
  | TBegin | TGet nat key Code val | TPut nat key val Code | TDelete nat key Code
  | TCommit nat Code u64 "key list" | TAbort nat Code | TDrop nat | TActive nat bool | TSnapshot nat u64
  | MOldest u64 | MCount nat | GRunOnce u64 | GCumulative u64

record test_state =
  ts_world :: World
  ts_txns :: "Transaction list"
  ts_stats :: GCStats

definition test_start :: test_state where
  "test_start = \<lparr>ts_world = World_init, ts_txns = [], ts_stats = 0\<rparr>"

definition ts_store :: "test_state \<Rightarrow> VersionStore \<Rightarrow> test_state" where
  "ts_store \<sigma> s = \<sigma>\<lparr>ts_world := (ts_world \<sigma>)\<lparr>w_store := s\<rparr>\<rparr>"

definition ts_put :: "test_state \<Rightarrow> nat \<Rightarrow> Transaction \<Rightarrow> test_state" where
  "ts_put \<sigma> i t = \<sigma>\<lparr>ts_txns := (ts_txns \<sigma>)[i := t]\<rparr>"

text \<open>One call: whether it returned what the test expects, and the state after it. Versions
  are reported through an out-parameter that holds 0 before the call.\<close>

fun call_step :: "call \<Rightarrow> test_state \<Rightarrow> bool \<times> test_state" where
  "call_step (SPut k x c v) \<sigma> =
     (let (st, s, ov) = VS_Put (w_store (ts_world \<sigma>)) k x (Some 0)
      in (st_code st = c \<and> ov = Some v, ts_store \<sigma> s))"
| "call_step (SDelete k c v) \<sigma> =
     (let (st, s, ov) = VS_Delete (w_store (ts_world \<sigma>)) k (Some 0)
      in (st_code st = c \<and> ov = Some v, ts_store \<sigma> s))"
| "call_step (SGet k c x) \<sigma> =
     (let (st, out, ov) = VS_Get (w_store (ts_world \<sigma>)) k '''' None
      in (st_code st = c \<and> out = x, \<sigma>))"
| "call_step (SGetAsOf k v c x) \<sigma> =
     (let (st, out) = VS_GetAsOf (w_store (ts_world \<sigma>)) k v '''' in (st_code st = c \<and> out = x, \<sigma>))"
| "call_step (SKeyCount n) \<sigma> = (VS_KeyCount (w_store (ts_world \<sigma>)) = n, \<sigma>)"
| "call_step (SVersionCount k n) \<sigma> = (VS_VersionCount (w_store (ts_world \<sigma>)) k = n, \<sigma>)"
| "call_step (SCurrent v) \<sigma> = (VS_CurrentVersion (w_store (ts_world \<sigma>)) = v, \<sigma>)"
| "call_step (SCollect b n m) \<sigma> =
     (let (stats, s) = VS_CollectGarbage (w_store (ts_world \<sigma>)) b in (stats = GCStats n m, ts_store \<sigma> s))"
| "call_step TBegin \<sigma> =
     (let (t, w) = Begin (ts_world \<sigma>)
      in (\<not> list_ex (\<lambda>t'. txn_id t' = txn_id t) (ts_txns \<sigma>),
          \<sigma>\<lparr>ts_world := w, ts_txns := ts_txns \<sigma> @ [t]\<rparr>))"
| "call_step (TGet i k c x) \<sigma> =
     (let (st, out) = Txn_Get (w_store (ts_world \<sigma>)) (ts_txns \<sigma> ! i) k ''''
      in (st_code st = c \<and> out = x, \<sigma>))"
| "call_step (TPut i k x c) \<sigma> =
     (let (st, t) = Txn_Put (ts_txns \<sigma> ! i) k x in (st_code st = c, ts_put \<sigma> i t))"
| "call_step (TDelete i k c) \<sigma> =
     (let (st, t) = Txn_Delete (w_store (ts_world \<sigma>)) (ts_txns \<sigma> ! i) k
      in (st_code st = c, ts_put \<sigma> i t))"
| "call_step (TCommit i c v ks) \<sigma> =
     (let (st, w, t, ov, ok) = Txn_Commit (ts_world \<sigma>) (ts_txns \<sigma> ! i) (Some 0) (Some [])
      in (st_code st = c \<and> ov = Some v \<and> ok = Some ks, (ts_put \<sigma> i t)\<lparr>ts_world := w\<rparr>))"
| "call_step (TAbort i c) \<sigma> =
     (let (st, w, t) = Txn_Abort (ts_world \<sigma>) (ts_txns \<sigma> ! i)
      in (st_code st = c, (ts_put \<sigma> i t)\<lparr>ts_world := w\<rparr>))"
| "call_step (TDrop i) \<sigma> = (True, \<sigma>\<lparr>ts_world := Txn_destroy (ts_world \<sigma>) (ts_txns \<sigma> ! i)\<rparr>)"
| "call_step (TActive i b) \<sigma> = (is_active (ts_txns \<sigma> ! i) = b, \<sigma>)"
| "call_step (TSnapshot i v) \<sigma> = (snapshot_version (ts_txns \<sigma> ! i) = v, \<sigma>)"
| "call_step (MOldest v) \<sigma> = (OldestActiveSnapshot (w_store (ts_world \<sigma>)) (w_mgr (ts_world \<sigma>)) = v, \<sigma>)"
| "call_step (MCount n) \<sigma> = (ActiveTransactionCount (w_mgr (ts_world \<sigma>)) = n, \<sigma>)"
| "call_step (GRunOnce n) \<sigma> =
     (let (stats, w, cs) = RunOnce (ts_world \<sigma>) (ts_stats \<sigma>)
      in (versions_reclaimed stats = n, \<sigma>\<lparr>ts_world := w, ts_stats := cs\<rparr>))"
| "call_step (GCumulative n) \<sigma> = (versions_reclaimed (CumulativeStats (ts_stats \<sigma>)) = n, \<sigma>)"

primrec run_test :: "call list \<Rightarrow> test_state \<Rightarrow> bool" where
  "run_test [] \<sigma> = True"
| "run_test (c # cs) \<sigma> = (let (ok, \<sigma>') = call_step c \<sigma> in ok \<and> run_test cs \<sigma>')"

definition version_store_tests :: "(string \<times> call list) list" where
  "version_store_tests =
    [(''PutThenGetReturnsLatestValue'', [SPut ''k'' ''v1'' kOk 1, SGet ''k'' kOk ''v1'']),
     (''MultiplePutsCreateGrowingHistory'',
      [SPut ''k'' ''v1'' kOk 1, SPut ''k'' ''v2'' kOk 2, SPut ''k'' ''v3'' kOk 3,
       SVersionCount ''k'' 3, SGet ''k'' kOk ''v3'']),
     (''VersionNumbersAreGlobalNotPerKey'',
      [SPut ''a'' ''1'' kOk 1, SPut ''b'' ''1'' kOk 2, SPut ''a'' ''2'' kOk 3, SCurrent 3]),
     (''DeleteThenGetReturnsNotFound'',
      [SPut ''k'' ''v1'' kOk 1, SDelete ''k'' kOk 2, SGet ''k'' kNotFound '''']),
     (''ReinsertAfterDeleteWorks'',
      [SPut ''k'' ''v1'' kOk 1, SDelete ''k'' kOk 2, SPut ''k'' ''v2'' kOk 3, SGet ''k'' kOk ''v2'',
       SVersionCount ''k'' 3]),
     (''ReturnsValueVisibleAtGivenVersion'',
      [SPut ''k'' ''v1'' kOk 1, SPut ''k'' ''v2'' kOk 2, SPut ''k'' ''v3'' kOk 3,
       SGetAsOf ''k'' 1 kOk ''v1'', SGetAsOf ''k'' 2 kOk ''v2'', SGetAsOf ''k'' 3 kOk ''v3'']),
     (''VersionBetweenTwoWritesSeesTheOlderOne'',
      [SPut ''k'' ''v1'' kOk 1, SPut ''k'' ''v2'' kOk 2, SGetAsOf ''k'' 1 kOk ''v1'']),
     (''VersionBeforeKeyExistedReturnsNotFound'',
      [SPut ''other'' ''x'' kOk 1, SPut ''k'' ''v1'' kOk 2, SGetAsOf ''k'' 1 kNotFound '''']),
     (''AsOfZeroAlwaysReturnsNotFound'', [SPut ''k'' ''v1'' kOk 1, SGetAsOf ''k'' 0 kNotFound '''']),
     (''SnapshotBeforeDeleteStillSeesOldValue'',
      [SPut ''k'' ''v1'' kOk 1, SDelete ''k'' kOk 2, SGetAsOf ''k'' 1 kOk ''v1'']),
     (''SnapshotAtOrAfterDeleteSeesTombstone'',
      [SPut ''k'' ''v1'' kOk 1, SDelete ''k'' kOk 2, SGetAsOf ''k'' 2 kNotFound '''']),
     (''AsOfFarInFutureSeesLatestValue'',
      [SPut ''k'' ''v1'' kOk 1, SPut ''k'' ''v2'' kOk 2, SGetAsOf ''k'' 999999 kOk ''v2'']),
     (''DeletingNeverWrittenKeyReturnsNotFound'', [SDelete ''nope'' kNotFound 0]),
     (''DoubleDeleteReturnsNotFoundOnSecondCall'',
      [SPut ''k'' ''v1'' kOk 1, SDelete ''k'' kOk 2, SDelete ''k'' kNotFound 0]),
     (''EmptyKeyRejectedOnAllOperations'',
      [SPut '''' ''v'' kInvalidArgument 0, SGet '''' kInvalidArgument '''',
       SDelete '''' kInvalidArgument 0, SGetAsOf '''' 1 kInvalidArgument '''']),
     (''GetOnNeverWrittenKeyReturnsNotFound'', [SGet ''nope'' kNotFound '''']),
     (''GetAsOfOnNeverWrittenKeyReturnsNotFound'', [SGetAsOf ''nope'' 100 kNotFound '''']),
     (''KeyCountReflectsDistinctKeysIncludingTombstoned'',
      [SPut ''a'' ''1'' kOk 1, SPut ''b'' ''1'' kOk 2, SDelete ''a'' kOk 3, SKeyCount 2]),
     (''VersionCountZeroForUnknownKey'', [SVersionCount ''nope'' 0]),
     (''EmptyValueIsAllowed'', [SPut ''k'' '''' kOk 1, SGet ''k'' kOk '''']),
     (''ReclaimsVersionsStrictlyOlderThanBoundary'',
      [SPut ''k'' ''v1'' kOk 1, SPut ''k'' ''v2'' kOk 2, SPut ''k'' ''v3'' kOk 3, SCollect 2 1 0,
       SVersionCount ''k'' 2, SGetAsOf ''k'' 2 kOk ''v2'', SGetAsOf ''k'' 3 kOk ''v3'']),
     (''NeverTouchesVersionsAtOrAfterBoundary'',
      [SPut ''k'' ''v1'' kOk 1, SPut ''k'' ''v2'' kOk 2, SPut ''k'' ''v3'' kOk 3, SCollect 1 0 0,
       SGetAsOf ''k'' 1 kOk ''v1'', SGetAsOf ''k'' 2 kOk ''v2'', SGetAsOf ''k'' 3 kOk ''v3'',
       SGet ''k'' kOk ''v3'']),
     (''BoundaryOlderThanAllVersionsReclaimsNothing'',
      [SPut ''k'' ''v1'' kOk 1, SPut ''k'' ''v2'' kOk 2, SCollect 0 0 0, SVersionCount ''k'' 2]),
     (''FullyRemovesKeyWhoseOnlyRemainingVersionIsATombstone'',
      [SPut ''k'' ''v1'' kOk 1, SDelete ''k'' kOk 2, SCollect 2 2 1, SVersionCount ''k'' 0, SKeyCount 0]),
     (''KeepsTombstoneIfNewerVersionsExistAfterIt'',
      [SPut ''k'' ''v1'' kOk 1, SDelete ''k'' kOk 2, SPut ''k'' ''v3'' kOk 3, SCollect 2 1 0,
       SVersionCount ''k'' 2, SGet ''k'' kOk ''v3'']),
     (''RunningTwiceWithSameBoundaryIsIdempotent'',
      [SPut ''k'' ''v1'' kOk 1, SPut ''k'' ''v2'' kOk 2, SCollect 2 1 0, SCollect 2 0 0]),
     (''HandlesMultipleKeysIndependently'',
      [SPut ''a'' ''a1'' kOk 1, SPut ''a'' ''a2'' kOk 2, SPut ''b'' ''b1'' kOk 3, SCollect 3 1 0,
       SVersionCount ''a'' 1, SVersionCount ''b'' 1])]"

lemma kv_tests_pass: "list_all (\<lambda>(name, calls). kv_script calls KV_init) kv_tests"
  by code_simp

text \<open>\<open>LargeValueRoundTrips\<close> stores a million characters; it passes for every value.\<close>

definition large_value_test :: "val \<Rightarrow> kv_call list" where
  "large_value_test big = [KPut ''big'' big kOk, KGet ''big'' kOk big]"

lemma large_value_test_passes: "kv_script (large_value_test (replicate 1000000 (CHR ''x''))) KV_init"
proof -
  have "kv_script (large_value_test big) KV_init" for big
    by (simp add: large_value_test_def KV_Put_def KV_Get_def OK_def)
  then show ?thesis .
qed

lemma version_store_tests_pass: "list_all (\<lambda>(name, calls). run_test calls test_start) version_store_tests"
  by code_simp

definition transaction_tests :: "(string \<times> call list) list" where
  "transaction_tests =
    [(''SeesStateAsOfBeginNotLaterWrites'',
      [SPut ''k'' ''v1'' kOk 1, TBegin, SPut ''k'' ''v2'' kOk 2, TGet 0 ''k'' kOk ''v1'']),
     (''ReadOnlyTransactionSeesConsistentSnapshotAcrossKeys'',
      [SPut ''a'' ''a1'' kOk 1, SPut ''b'' ''b1'' kOk 2, TBegin, SPut ''a'' ''a2'' kOk 3,
       SPut ''b'' ''b2'' kOk 4, TGet 0 ''a'' kOk ''a1'', TGet 0 ''b'' kOk ''b1'']),
     (''ReadYourOwnUncommittedWrite'',
      [TBegin, TPut 0 ''k'' ''buffered'' kOk, TGet 0 ''k'' kOk ''buffered'', SGet ''k'' kNotFound '''']),
     (''ReadYourOwnBufferedDelete'',
      [SPut ''k'' ''v1'' kOk 1, TBegin, TDelete 0 ''k'' kOk, TGet 0 ''k'' kNotFound '''',
       SGet ''k'' kOk ''v1'']),
     (''PutThenDeleteSameKeyWithinTransaction'',
      [TBegin, TPut 0 ''newkey'' ''v'' kOk, TDelete 0 ''newkey'' kOk, TGet 0 ''newkey'' kNotFound '''']),
     (''CommitMakesWritesVisibleToEveryoneAfterward'',
      [TBegin, TPut 0 ''k'' ''v'' kOk, TCommit 0 kOk 1 [], SGet ''k'' kOk ''v'', TBegin,
       TGet 1 ''k'' kOk ''v'']),
     (''MultiKeyCommitIsAtomicAtOneVersion'',
      [TBegin, TPut 0 ''a'' ''1'' kOk, TPut 0 ''b'' ''2'' kOk, TCommit 0 kOk 1 [],
       SGetAsOf ''a'' 1 kOk ''1'', SGetAsOf ''b'' 1 kOk ''2'', SGetAsOf ''a'' 0 kNotFound '''',
       SGetAsOf ''b'' 0 kNotFound '''']),
     (''ReadOnlyCommitDoesNotAdvanceStoreVersion'',
      [SPut ''k'' ''v'' kOk 1, SCurrent 1, TBegin, TGet 0 ''k'' kOk ''v'', TCommit 0 kOk 1 [], SCurrent 1]),
     (''DeleteBufferedThenCommitRemovesKey'',
      [SPut ''k'' ''v1'' kOk 1, TBegin, TDelete 0 ''k'' kOk, TCommit 0 kOk 2 [], SGet ''k'' kNotFound '''']),
     (''AbortDiscardsBufferedWrites'',
      [TBegin, TPut 0 ''k'' ''should not persist'' kOk, TAbort 0 kOk, SGet ''k'' kNotFound '''']),
     (''DroppingTransactionWithoutCommitAutoAborts'',
      [TBegin, TPut 0 ''k'' ''should not persist'' kOk, TDrop 0, SGet ''k'' kNotFound '''', MCount 0]),
     (''OperationsAfterCommitAreRejected'',
      [TBegin, TCommit 0 kOk 0 [], TGet 0 ''k'' kInvalidArgument '''', TPut 0 ''k'' ''v'' kInvalidArgument,
       TDelete 0 ''k'' kInvalidArgument, TCommit 0 kInvalidArgument 0 [], TAbort 0 kInvalidArgument]),
     (''OperationsAfterAbortAreRejected'',
      [TBegin, TAbort 0 kOk, TGet 0 ''k'' kInvalidArgument '''', TCommit 0 kInvalidArgument 0 [],
       TAbort 0 kInvalidArgument]),
     (''DeleteOfKeyNotInSnapshotFails'', [TBegin, TDelete 0 ''nope'' kNotFound]),
     (''DoubleDeleteWithinSameTransactionFails'',
      [SPut ''k'' ''v'' kOk 1, TBegin, TDelete 0 ''k'' kOk, TDelete 0 ''k'' kNotFound]),
     (''DeleteValidatesAgainstOwnSnapshotNotLiveStoreState'',
      [SPut ''k'' ''v1'' kOk 1, TBegin, SDelete ''k'' kOk 2, TDelete 0 ''k'' kOk]),
     (''OldestActiveSnapshotTracksMinimum'',
      [SPut ''seed'' ''v'' kOk 1, TBegin, SPut ''x'' ''1'' kOk 2, TBegin, TSnapshot 0 1, TSnapshot 1 2,
       MOldest 1, TCommit 0 kOk 1 [], MOldest 2, TCommit 1 kOk 2 [], SCurrent 2, MOldest 2]),
     (''ActiveTransactionCountTracksLifecycle'',
      [MCount 0, TBegin, MCount 1, TBegin, MCount 2, TCommit 0 kOk 0 [], MCount 1, TAbort 1 kOk, MCount 0]),
     (''EachTransactionGetsAUniqueId'', [TBegin, TBegin]),
     (''CommitDetectsConflictWhenAnotherTxnCommittedNewerVersionOfWrittenKey'',
      [SPut ''k'' ''v1'' kOk 1, TBegin, TBegin, TPut 0 ''k'' ''from_a'' kOk, TCommit 0 kOk 2 [],
       TPut 1 ''k'' ''from_b'' kOk, TCommit 1 kConflict 0 [''k''], SGet ''k'' kOk ''from_a'']),
     (''CommitSucceedsWhenConcurrentWritesTouchDisjointKeys'',
      [TBegin, TBegin, TPut 0 ''a'' ''1'' kOk, TPut 1 ''b'' ''1'' kOk, TCommit 0 kOk 1 [],
       TCommit 1 kOk 2 []]),
     (''ConflictLeavesTransactionAbortedAndUnregistered'',
      [SPut ''k'' ''v1'' kOk 1, TBegin, TBegin, TPut 0 ''k'' ''from_a'' kOk, TCommit 0 kOk 2 [],
       TPut 1 ''k'' ''from_b'' kOk, TCommit 1 kConflict 0 [''k''], TActive 1 False, MCount 0,
       TGet 1 ''k'' kInvalidArgument '''', TCommit 1 kInvalidArgument 0 []]),
     (''ConflictOnAnyKeyAbortsEntireCommitNotJustThatKey'',
      [SPut ''a'' ''a1'' kOk 1, TBegin, TBegin, TPut 0 ''a'' ''a2'' kOk, TCommit 0 kOk 2 [],
       TPut 1 ''a'' ''a_from_b'' kOk, TPut 1 ''b'' ''b_from_b'' kOk, TCommit 1 kConflict 0 [''a''],
       SGet ''b'' kNotFound '''']),
     (''ReadOnlyCommitNeverConflictsRegardlessOfConcurrentWrites'',
      [SPut ''k'' ''v1'' kOk 1, TBegin, TBegin, TPut 1 ''k'' ''v2'' kOk, TCommit 1 kOk 2 [],
       TGet 0 ''k'' kOk ''v1'', TCommit 0 kOk 1 []]),
     (''ConflictReportsOffendingKeys'',
      [SPut ''k'' ''v1'' kOk 1, TBegin, TBegin, TPut 0 ''k'' ''from_a'' kOk, TCommit 0 kOk 2 [],
       TPut 1 ''k'' ''from_b'' kOk, TCommit 1 kConflict 0 [''k''] ])]"

text \<open>The tests that open more transactions than there are shards, so that some share a shard;
  here with twenty transactions, where the source has forty.\<close>

definition oldest_test :: "call list" where
  "oldest_test =
     SPut ''seed'' ''v'' kOk 1 #
     concat (map (\<lambda>i. [SPut ''k'' (CHR ''v'' # to_string i) kOk (of_nat i + 2), TBegin]) [0..<20]) @
     [TSnapshot 0 2, MOldest 2] @
     concat (map (\<lambda>i. [TCommit (19 - i) kOk (of_nat (21 - i)) [], MOldest 2]) [0..<19]) @
     [TCommit 0 kOk 2 [], SCurrent 21, MOldest 21]"

definition count_test :: "call list" where
  "count_test =
     replicate 20 TBegin @ [MCount 20] @ map (\<lambda>i. TCommit i kOk 0 []) [0..<10] @ [MCount 10]"

definition snapshots_test :: "call list" where
  "snapshots_test =
     concat (map (\<lambda>i. [SPut ''k'' (CHR ''v'' # to_string i) kOk (of_nat i + 1), TBegin]) [0..<20]) @
     map (\<lambda>i. TGet i ''k'' kOk (CHR ''v'' # to_string i)) [0..<20]"

definition sharding_tests :: "(string \<times> call list) list" where
  "sharding_tests =
    [(''OldestActiveSnapshotCorrectAcrossManyShards'', oldest_test),
     (''ActiveTransactionCountSumsAcrossShards'', count_test),
     (''ManyTransactionsAllReadTheirOwnCorrectSnapshot'', snapshots_test)]"

definition gc_tests :: "(string \<times> call list) list" where
  "gc_tests =
    [(''RunOnceReclaimsVersionsNotNeededByAnyActiveTransaction'',
      [SPut ''k'' ''v1'' kOk 1, SPut ''k'' ''v2'' kOk 2, SPut ''k'' ''v3'' kOk 3, GRunOnce 2,
       SVersionCount ''k'' 1, SGet ''k'' kOk ''v3'']),
     (''ActiveTransactionProtectsItsSnapshotFromCollection'',
      [SPut ''k'' ''v1'' kOk 1, TBegin, SPut ''k'' ''v2'' kOk 2, SPut ''k'' ''v3'' kOk 3, GRunOnce 0,
       TGet 0 ''k'' kOk ''v1'']),
     (''ReclaimsMoreOnceProtectingTransactionEnds'',
      [SPut ''k'' ''v1'' kOk 1, TBegin, SPut ''k'' ''v2'' kOk 2, SPut ''k'' ''v3'' kOk 3, GRunOnce 0,
       TCommit 0 kOk 1 [], GRunOnce 2, SVersionCount ''k'' 1]),
     (''CumulativeStatsAccumulateAcrossRuns'',
      [SPut ''a'' ''1'' kOk 1, SPut ''a'' ''2'' kOk 2, GRunOnce 1, SPut ''b'' ''1'' kOk 3,
       SPut ''b'' ''2'' kOk 4, GRunOnce 1, GCumulative 2]),
     (''PeriodicallyReclaimsGarbageOverTime'',
      [SPut ''k'' ''v0'' kOk 1, GRunOnce 0, SPut ''k'' ''v1'' kOk 2, SPut ''k'' ''v2'' kOk 3, GRunOnce 2,
       GRunOnce 0, SPut ''k'' ''v3'' kOk 4, GRunOnce 1, GCumulative 3, SVersionCount ''k'' 1])]"

lemma transaction_tests_pass: "list_all (\<lambda>(name, calls). run_test calls test_start) transaction_tests"
  by code_simp

lemma gc_tests_pass: "list_all (\<lambda>(name, calls). run_test calls test_start) gc_tests"
  by code_simp

lemma sharding_tests_pass: "list_all (\<lambda>(name, calls). run_test calls test_start) sharding_tests"
proof -
  have "run_test oldest_test test_start" by code_simp
  moreover have "run_test count_test test_start" by code_simp
  moreover have "run_test snapshots_test test_start" by code_simp
  ultimately show ?thesis by (simp add: sharding_tests_def)
qed

section \<open>Tests of RunWithRetry\<close>

text \<open>The bodies of the tests. A test's counter of attempts lives outside the program's state;
  the first attempt is recognised by the version it starts from.\<close>

definition put_test_body :: txn_body where
  "put_test_body w t = (let (st, t') = Txn_Put t ''k'' ''v'' in (Some st, w, t'))"

definition decline_body :: txn_body where
  "decline_body w t = (Some (InvalidArgument ''caller declined''), w, t)"

text \<open>Another transaction commits the key.\<close>

definition interloper :: "World \<Rightarrow> World" where
  "interloper w =
     (let (u, w1) = Begin w; (_, u1) = Txn_Put u ''k'' ''interloper'';
          (_, w2, u2, _) = Txn_Commit w1 u1 None None
      in Txn_destroy w2 u2)"

definition contended_update :: "(World \<Rightarrow> bool) \<Rightarrow> txn_body" where
  "contended_update contended w t =
     (let (_, current) = Txn_Get (w_store w) t ''k'' '''';
          w' = (if contended w then interloper w else w);
          (st, t') = Txn_Put t ''k'' (current @ ''-updated'')
      in (Some st, w', t'))"

definition retry_test_world :: World where
  "retry_test_world = World_init\<lparr>w_store := fst (snd (VS_Put VS_init ''k'' ''v0'' None))\<rparr>"

definition retry_tests :: "(string \<times> bool) list" where
  "retry_tests =
    [(''SucceedsImmediatelyWhenNoConflict'',
      let (st, w) = RunWithRetry World_init put_test_body 8
      in st = Some OK \<and> fst (snd (VS_Get (w_store w) ''k'' '''' None)) = ''v''),
     (''PropagatesNonConflictFailureFromBodyWithoutRetrying'',
      fst (RunWithRetry World_init decline_body 8) = Some (InvalidArgument ''caller declined'')),
     (''RetriesOnConflictAndEventuallySucceeds'',
      let (st, w) = RunWithRetry retry_test_world
            (contended_update (\<lambda>w. VS_CurrentVersion (w_store w) = 1)) 8
      in st = Some OK \<and>
         VS_Get (w_store w) ''k'' '''' (Some 0) = (OK, ''interloper-updated'', Some 3)),
     (''ReturnsConflictAfterExhaustingMaxAttempts'',
      case fst (RunWithRetry retry_test_world (contended_update (\<lambda>w. True)) 3) of
        Some st \<Rightarrow> is_conflict st | None \<Rightarrow> False),
     (''RejectsNonPositiveMaxAttempts'',
      case fst (RunWithRetry World_init put_test_body 0) of
        Some st \<Rightarrow> is_invalid_argument st | None \<Rightarrow> False)]"

lemma retry_tests_pass: "list_all snd retry_tests"
  by code_simp

section \<open>The tests pass\<close>

text \<open>The model passes the repository's unit tests: all tests of \<open>KVStore\<close>, of \<open>VersionStore\<close>,
  of transactions, of the sharded registry (with twenty transactions), of \<open>RunWithRetry\<close> and of
  \<open>RunOnce\<close> return what they expect.\<close>

lemma unit_tests_pass:
  "list_all (\<lambda>(name, calls). kv_script calls KV_init) kv_tests \<and>
   kv_script (large_value_test (replicate 1000000 (CHR ''x''))) KV_init \<and>
   list_all (\<lambda>(name, calls). run_test calls test_start)
     (version_store_tests @ transaction_tests @ sharding_tests @ gc_tests) \<and>
   list_all snd retry_tests"
  unfolding list_all_append
  by (intro conjI kv_tests_pass large_value_test_passes version_store_tests_pass transaction_tests_pass sharding_tests_pass
      gc_tests_pass retry_tests_pass)

end
