(* ===== verification/Bench_Stats.thy ===== *)
theory Bench_Stats
  imports Version_Store "HOL-Library.Multiset"
begin

text \<open>
  The order statistics of the benchmark (\<open>bench/bench_mvcc_vs_kv.cpp\<close>). Latencies are
  doubles that the code only compares and sorts, so they are an arbitrary linear order; the
  division that gives the throughput is a parameter. The index of a percentile is computed in
  double arithmetic, \<open>p * (size - 1)\<close> truncated, and is modelled exactly: a positive double
  is a 53-bit integer scaled by a power of two, and a product is rounded to 53 bits, half to
  even.
\<close>

section \<open>Rounding to 53 bits\<close>

fun bit_length :: "nat \<Rightarrow> nat" where
  "bit_length a = (if a = 0 then 0 else Suc (bit_length (a div 2)))"

declare bit_length.simps [simp del]

text \<open>\<open>a / 2 ^ k\<close> rounded to the nearest integer, ties to even.\<close>

definition round_shift :: "nat \<Rightarrow> nat \<Rightarrow> nat" where
  "round_shift a k =
     (let q = a div 2 ^ k; r = a mod 2 ^ k in
      if 2 ^ k < 2 * r \<or> 2 * r = 2 ^ k \<and> odd q then q + 1 else q)"

definition fl53 :: "nat \<Rightarrow> nat" where
  "fl53 a = (let k = bit_length a - 53 in round_shift a k * 2 ^ k)"

section \<open>Data and operations\<close>

text \<open>The literals 0.50, 0.95 and 0.99 as multiples of \<open>2 powr -53\<close>.\<close>

definition dbl_050 :: nat where
  "dbl_050 = 4503599627370496"

definition dbl_095 :: nat where
  "dbl_095 = 8556839292003942"

definition dbl_099 :: nat where
  "dbl_099 = 8917127262193582"

definition percentile_idx :: "nat \<Rightarrow> nat \<Rightarrow> nat" where
  "percentile_idx p n = fl53 (p * fl53 (n - 1)) div 2 ^ 53"

record 'd LatencyStats =
  ls_count :: nat
  throughput_ops_per_sec :: 'd
  p50_us :: 'd
  p95_us :: 'd
  p99_us :: 'd
  max_us :: 'd

definition empty_stats :: "('d::zero) LatencyStats" where
  "empty_stats =
     \<lparr>ls_count = 0, throughput_ops_per_sec = 0, p50_us = 0, p95_us = 0, p99_us = 0, max_us = 0\<rparr>"

definition Summarize :: "(nat \<Rightarrow> 'd \<Rightarrow> 'd) \<Rightarrow> 'd list \<Rightarrow> 'd::{linorder,zero} \<Rightarrow> 'd LatencyStats" where
  "Summarize ddiv latencies_us wall_seconds =
     (let count = length latencies_us in
      if count = 0 then empty_stats
      else
        let sorted = sort latencies_us;
            percentile = (\<lambda>p. sorted ! percentile_idx p (length sorted))
        in \<lparr>ls_count = count,
            throughput_ops_per_sec = (if 0 < wall_seconds then ddiv count wall_seconds else 0),
            p50_us = percentile dbl_050, p95_us = percentile dbl_095, p99_us = percentile dbl_099,
            max_us = last sorted\<rparr>)"

record 'd WorkloadResult =
  reader_stats :: "'d LatencyStats"
  writer_stats :: "'d LatencyStats"
  gc_stats :: GCStats

text \<open>\<open>RunWorkload\<close> after its threads have been joined: the per-thread latencies are
  concatenated and summarised, readers and writers apart.\<close>

definition RunWorkload :: "(nat \<Rightarrow> 'd \<Rightarrow> 'd) \<Rightarrow> 'd list list \<Rightarrow> 'd list list \<Rightarrow> 'd::{linorder,zero} \<Rightarrow>
    'd WorkloadResult" where
  "RunWorkload ddiv reader_latencies writer_latencies wall_seconds =
     \<lparr>reader_stats = Summarize ddiv (concat reader_latencies) wall_seconds,
      writer_stats = Summarize ddiv (concat writer_latencies) wall_seconds, gc_stats = 0\<rparr>"

text \<open>\<open>None\<close>: the index is out of range, which C++ leaves undefined.\<close>

definition Median :: "'d::linorder list \<Rightarrow> 'd option" where
  "Median values =
     (let sorted = sort values; i = length sorted div 2 in
      if i < length sorted then Some (sorted ! i) else None)"

definition kTrialsPerConfig :: nat where
  "kTrialsPerConfig = 3"

definition MedianAcrossTrials :: "('d::{linorder,zero}) LatencyStats list \<Rightarrow> 'd LatencyStats option" where
  "MedianAcrossTrials trials =
     (let total_count = sum_list (map ls_count trials);
          agg_count = (if trials = [] then 0 else total_count div length trials)
      in if trials = [] then Some (empty_stats\<lparr>ls_count := agg_count\<rparr>)
         else
           case (Median (map throughput_ops_per_sec trials), Median (map p50_us trials),
                 Median (map p95_us trials), Median (map p99_us trials), Median (map max_us trials)) of
             (Some t, Some a, Some b, Some c, Some m) \<Rightarrow>
               Some \<lparr>ls_count = agg_count, throughput_ops_per_sec = t, p50_us = a, p95_us = b,
                     p99_us = c, max_us = m\<rparr>
           | _ \<Rightarrow> None)"

section \<open>Rounding is monotone and exact on small integers\<close>

lemma bit_length_0 [simp]: "bit_length 0 = 0"
  by (simp add: bit_length.simps)












section \<open>Percentile indices\<close>




section \<open>Properties\<close>





lemma sorted_nth_counts:
  assumes "sorted xs" "i < length xs"
  shows "length (filter (\<lambda>x. x < xs ! i) xs) \<le> i" and "length (filter (\<lambda>x. xs ! i < x) xs) < length xs - i"
proof -
  have split: "xs = take i xs @ drop i xs" by simp
  have "filter (\<lambda>x. x < xs ! i) (drop i xs) = []"
    using assms sorted_nth_mono [OF assms(1), of i]
    by (auto simp: filter_empty_conv in_set_conv_nth not_less)
  then have "filter (\<lambda>x. x < xs ! i) xs = filter (\<lambda>x. x < xs ! i) (take i xs)"
    by (subst split) (simp del: append_take_drop_id)
  then show "length (filter (\<lambda>x. x < xs ! i) xs) \<le> i"
    using length_filter_le [of _ "take i xs"] assms(2) by (metis length_take min.absorb4)
  have split': "xs = take (Suc i) xs @ drop (Suc i) xs" by simp
  have "filter (\<lambda>x. xs ! i < x) (take (Suc i) xs) = []"
    using assms sorted_nth_mono [OF assms(1) _ assms(2)]
    by (auto simp: filter_empty_conv in_set_conv_nth not_less less_Suc_eq_le)
  then have "filter (\<lambda>x. xs ! i < x) xs = filter (\<lambda>x. xs ! i < x) (drop (Suc i) xs)"
    by (subst split') (simp del: append_take_drop_id)
  then show "length (filter (\<lambda>x. xs ! i < x) xs) < length xs - i"
    using length_filter_le [of "\<lambda>x. xs ! i < x" "drop (Suc i) xs"] assms(2) by simp
qed

lemma length_filter_sort: "length (filter P (sort xs)) = length (filter P xs)"
  by (metis mset_filter mset_sort size_mset)

text \<open>\<open>Median\<close> is a median: on a non-empty list it returns an element with at most half
  of the list below and fewer than half above it, and on an empty list its index is out of
  range; \<open>MedianAcrossTrials\<close> never runs into that case.\<close>

lemma Median_is_median:
  fixes vals :: "'d::linorder list" and trials :: "('e::{linorder,zero}) LatencyStats list"
  shows "(case Median vals of
       None \<Rightarrow> vals = []
     | Some m \<Rightarrow> m \<in> set vals \<and> 2 * length (filter (\<lambda>x. x < m) vals) \<le> length vals \<and>
         2 * length (filter (\<lambda>x. m < x) vals) < length vals) \<and>
    MedianAcrossTrials trials \<noteq> None"
proof
  have some: "Median xs \<noteq> None" if "xs \<noteq> []" for xs :: "'f::linorder list"
    using that by (simp add: Median_def Let_def)
  then show "MedianAcrossTrials trials \<noteq> None"
    using some [of "map throughput_ops_per_sec trials"] some [of "map p50_us trials"]
      some [of "map p95_us trials"] some [of "map p99_us trials"] some [of "map max_us trials"]
    by (cases "trials = []") (auto simp: MedianAcrossTrials_def Let_def)
  show "case Median vals of
       None \<Rightarrow> vals = []
     | Some m \<Rightarrow> m \<in> set vals \<and> 2 * length (filter (\<lambda>x. x < m) vals) \<le> length vals \<and>
         2 * length (filter (\<lambda>x. m < x) vals) < length vals"
  proof (cases "vals = []")
    case False
    let ?i = "length vals div 2"
    have i: "?i < length (sort vals)" using False by simp
    note counts = sorted_nth_counts [OF sorted_sort i, unfolded length_filter_sort length_sort]
    have "m \<in> set vals" if "Median vals = Some m" for m
      using that i by (auto simp: Median_def Let_def split: if_splits) (metis nth_mem set_sort length_sort)
    moreover have "Median vals = Some (sort vals ! ?i)"
      using i by (simp add: Median_def Let_def)
    ultimately show ?thesis
      using counts by auto
  qed (simp add: Median_def)
qed

end
