(* ===== verification/Bench_Workload.thy ===== *)
theory Bench_Workload
  imports Kv_Store Retry Garbage_Collector Bench_Stats
begin

text \<open>
  The workloads of the benchmark (\<open>bench/bench_mvcc_vs_kv.cpp\<close>): the key space, the loops
  that fill the stores, and the reader and writer bodies, with the clock removed and the
  randomly drawn key index as a parameter. A schedule is the order in which the bodies of all
  threads, and the passes of the background collector, take effect, each body without
  interruption; the interleaving inside the bodies is the subject of \<open>Concurrency\<close>.
\<close>

section \<open>Keys\<close>

definition to_string_int :: "int \<Rightarrow> string" where
  "to_string_int i = (if i < 0 then ''-'' @ to_string (nat (- i)) else to_string (nat i))"

definition KeyName :: "int \<Rightarrow> key" where
  "KeyName i = ''key'' @ to_string_int i"

section \<open>The baseline workload\<close>

datatype bench_op = Reader_op int | Writer_op int | Gc_pass

primrec kv_fill :: "nat \<Rightarrow> KVStore" where
  "kv_fill 0 = KV_init"
| "kv_fill (Suc n) = snd (KV_Put (kv_fill n) (KeyName (int n)) ''init'')"

definition kv_reader_body :: "KVStore \<Rightarrow> int \<Rightarrow> Status \<times> val" where
  "kv_reader_body store i = KV_Get store (KeyName i) ''''"

definition writer_value :: "int \<Rightarrow> val" where
  "writer_value counter = ''v'' @ to_string_int counter"

text \<open>\<open>fetch_add(1)\<close> on an \<open>std::atomic<int>\<close>, which wraps around.\<close>

definition fetch_add_1 :: "int \<Rightarrow> int" where
  "fetch_add_1 c = (c + 1 + 2 ^ 31) mod 2 ^ 32 - 2 ^ 31"

definition kv_writer_body :: "KVStore \<times> int \<Rightarrow> int \<Rightarrow> Status \<times> KVStore \<times> int" where
  "kv_writer_body st i =
     (let (s, store') = KV_Put (fst st) (KeyName i) (writer_value (snd st))
      in (s, store', fetch_add_1 (snd st)))"

fun kv_schedule :: "KVStore \<times> int \<Rightarrow> bench_op list \<Rightarrow> Status list \<times> KVStore \<times> int" where
  "kv_schedule st [] = ([], st)"
| "kv_schedule st (Reader_op i # sched) =
     (let (rs, st') = kv_schedule st sched
      in (fst (kv_reader_body (fst st) i) # rs, st'))"
| "kv_schedule st (Writer_op i # sched) =
     (let (s, st1) = kv_writer_body st i; (rs, st') = kv_schedule st1 sched
      in (s # rs, st'))"
| "kv_schedule st (Gc_pass # sched) = kv_schedule st sched"

text \<open>The counter starts at 0. The statuses are those that the bodies of the code ignore.\<close>

definition RunKVStoreWorkload :: "nat \<Rightarrow> bench_op list \<Rightarrow> Status list \<times> KVStore \<times> int" where
  "RunKVStoreWorkload key_space_size sched = kv_schedule (kv_fill key_space_size, 0) sched"

section \<open>The transactional workload\<close>

text \<open>If the collector is enabled it is started before the fill loop; \<open>passes i\<close> is the number
  of passes its thread makes between the \<open>i\<close>-th and the next insertion.\<close>

definition gc_pass :: "World \<times> GCStats \<Rightarrow> World \<times> GCStats" where
  "gc_pass st = snd (RunOnce (fst st) (snd st))"

definition gc_passes :: "bool \<Rightarrow> nat \<Rightarrow> World \<times> GCStats \<Rightarrow> World \<times> GCStats" where
  "gc_passes enable_gc n st = (if enable_gc then (gc_pass ^^ n) st else st)"

primrec mvcc_fill :: "bool \<Rightarrow> (nat \<Rightarrow> nat) \<Rightarrow> nat \<Rightarrow> World \<times> GCStats" where
  "mvcc_fill enable_gc passes 0 = gc_passes enable_gc (passes 0) (World_init, 0)"
| "mvcc_fill enable_gc passes (Suc n) =
     (let (w, cs) = mvcc_fill enable_gc passes n;
          (_, store', _) = VS_Put (w_store w) (KeyName (int n)) ''init'' None
      in gc_passes enable_gc (passes (Suc n)) (w\<lparr>w_store := store'\<rparr>, cs))"

text \<open>The reader destroys its transaction at the end; the result is the status of the read
  and of the commit.\<close>

definition mvcc_reader_body :: "World \<Rightarrow> int \<Rightarrow> (Status \<times> Status) \<times> World" where
  "mvcc_reader_body w i =
     (let (txn, w1) = Begin w;
          (s, v) = Txn_Get (w_store w1) txn (KeyName i) '''';
          (c, w2, txn', _, _) = Txn_Commit w1 txn None None
      in ((s, c), Txn_destroy w2 txn'))"

text \<open>The lambda that the writer gives to \<open>RunWithRetry\<close>.\<close>

definition writer_txn :: "int \<Rightarrow> int \<Rightarrow> txn_body" where
  "writer_txn i counter w txn =
     (let (_, current) = Txn_Get (w_store w) txn (KeyName i) '''';
          (s, txn') = Txn_Put txn (KeyName i) (writer_value counter)
      in (Some s, w, txn'))"

text \<open>\<open>RunWithRetry\<close> with that lambda: the captured counter advances in every attempt.\<close>

primrec writer_attempts :: "int \<Rightarrow> nat \<Rightarrow> World \<times> int \<Rightarrow> Status \<Rightarrow> Status option \<times> World \<times> int" where
  "writer_attempts i 0 st last_status = (Some last_status, st)"
| "writer_attempts i (Suc n) st last_status =
     (case retry_attempt (writer_txn i (snd st)) (fst st) of
        (Inl s, w') \<Rightarrow> (s, w', fetch_add_1 (snd st))
      | (Inr conflict, w') \<Rightarrow> writer_attempts i n (w', fetch_add_1 (snd st)) conflict)"

definition mvcc_writer_body :: "World \<times> int \<Rightarrow> int \<Rightarrow> Status option \<times> World \<times> int" where
  "mvcc_writer_body st i = writer_attempts i 32 st OK"

text \<open>The state is the world, the counter and the statistics of the collector; without the
  collector there are no passes.\<close>

fun mvcc_schedule :: "bool \<Rightarrow> World \<times> int \<times> GCStats \<Rightarrow> bench_op list \<Rightarrow>
    Status option list \<times> World \<times> int \<times> GCStats" where
  "mvcc_schedule enable_gc st [] = ([], st)"
| "mvcc_schedule enable_gc (w, c, cs) (Reader_op i # sched) =
     (let ((s, d), w') = mvcc_reader_body w i;
          (rs, st') = mvcc_schedule enable_gc (w', c, cs) sched
      in (Some s # Some d # rs, st'))"
| "mvcc_schedule enable_gc (w, c, cs) (Writer_op i # sched) =
     (let (s, w', c') = mvcc_writer_body (w, c) i;
          (rs, st') = mvcc_schedule enable_gc (w', c', cs) sched
      in (s # rs, st'))"
| "mvcc_schedule enable_gc (w, c, cs) (Gc_pass # sched) =
     (if enable_gc
      then let (_, w', cs') = RunOnce w cs in mvcc_schedule enable_gc (w', c, cs') sched
      else mvcc_schedule enable_gc (w, c, cs) sched)"

definition RunMVCCWorkload :: "nat \<Rightarrow> bool \<Rightarrow> (nat \<Rightarrow> nat) \<Rightarrow> bench_op list \<Rightarrow>
    Status option list \<times> World \<times> int \<times> GCStats" where
  "RunMVCCWorkload key_space_size enable_gc passes sched =
     (let (w, cs) = mvcc_fill enable_gc passes key_space_size
      in mvcc_schedule enable_gc (w, 0, cs) sched)"

definition op_in_range :: "nat \<Rightarrow> bench_op \<Rightarrow> bool" where
  "op_in_range n e \<longleftrightarrow>
     (case e of Reader_op i \<Rightarrow> 0 \<le> i \<and> i < int n | Writer_op i \<Rightarrow> 0 \<le> i \<and> i < int n | Gc_pass \<Rightarrow> True)"

lemma op_in_range_iff:
  "op_in_range n (Reader_op i) \<longleftrightarrow> (\<exists>j<n. i = int j)" "op_in_range n (Writer_op i) \<longleftrightarrow> (\<exists>j<n. i = int j)"
  by (auto simp: op_in_range_def intro: exI [of _ "nat i"])

section \<open>The key space\<close>

lemma KeyName_neq_Nil [simp]: "KeyName i \<noteq> []"
  by (simp add: KeyName_def)

lemma KeyName_inject: "0 \<le> i \<Longrightarrow> 0 \<le> j \<Longrightarrow> KeyName i = KeyName j \<longleftrightarrow> i = j"
  by (auto simp: KeyName_def to_string_int_def to_string_inject)

lemma kv_fill_inv: "kv_inv (kv_fill n)"
  by (induction n) (simp_all add: kv_inv_Put)

lemma kv_fill_find:
  "um_find (kv_table (kv_fill n)) (KeyName (int i)) = (if i < n then Some ''init'' else None)"
proof (induction n)
  case 0
  then show ?case by (simp add: KV_init_def um.find_empty)
next
  case (Suc n)
  have "um_wf (kv_table (kv_fill n))"
    using kv_fill_inv [of n] by (simp add: kv_inv_def)
  with Suc show ?case
    by (auto simp: KV_Put_def KeyName_inject)
qed

lemma kv_fill_size: "KV_Size (kv_fill n) = n"
proof (induction n)
  case 0
  then show ?case by (simp add: KV_Size_def KV_init_def um_size_def)
next
  case (Suc n)
  then show ?case
    using kv_fill_find [of n n] by (simp add: KV_Size_Put kv_fill_inv KV_Contains_def)
qed

lemma visible_commit_current:
  assumes "vs_ready (Suc r) s"
  shows "visible (vs_commit s ops) k (VS_CurrentVersion (vs_commit s ops)) =
    (case batch_value ops k of None \<Rightarrow> visible s k (VS_CurrentVersion s) | Some x \<Rightarrow> x)"
proof -
  have inv: "vs_inv s" and less: "VS_CurrentVersion s < VS_CurrentVersion (vs_commit s ops)"
    using assms vs.current_commit [OF assms] by (simp_all add: vs_ready_def del: vs_commit_current)
  have "visible s k (VS_CurrentVersion (vs_commit s ops)) = visible s k (VS_CurrentVersion s)"
    using visible_at_or_after_current [OF inv less_imp_le [OF less]]
      visible_at_or_after_current [OF inv order_refl] by simp
  then show ?thesis
    using vs.view_commit_new [OF assms less, of ops k]
    by (simp split: option.split del: vs_commit_current)
qed

text \<open>The versioned store after \<open>n\<close> insertions: each key of the space holds \<open>init\<close>, \<open>n\<close>
  versions are used, no transaction is registered; there is room for \<open>r\<close> more versions.\<close>

definition fill_inv :: "nat \<Rightarrow> nat \<Rightarrow> World \<Rightarrow> bool" where
  "fill_inv n r w \<longleftrightarrow>
     vs_ready r (w_store w) \<and> tm_wf (w_mgr w) \<and> active_snapshots (w_mgr w) = Map.empty \<and>
     VS_CurrentVersion (w_store w) = of_nat n \<and>
     (\<forall>i. visible (w_store w) (KeyName (int i)) (VS_CurrentVersion (w_store w)) =
        (if i < n then Some ''init'' else None))"

lemma fill_inv_w_inv: "fill_inv n r w \<Longrightarrow> w_inv w"
  by (simp add: fill_inv_def w_inv_iff vs_ready_def)

lemma fill_inv_passes:
  assumes "fill_inv n r (fst st)"
  shows "fill_inv n r (fst (gc_passes enable_gc m st))"
proof -
  have step: "fill_inv n r (fst (gc_pass st))" if "fill_inv n r (fst st)" for st
  proof -
    have "OldestActiveSnapshot (w_store (fst st)) (w_mgr (fst st)) \<le> VS_CurrentVersion (w_store (fst st))"
      using OldestActiveSnapshot_le(1) [OF fill_inv_w_inv [OF that]] .
    with that show ?thesis
      by (auto simp: gc_pass_def fill_inv_def vs_ready_collect vs_collect_view)
  qed
  have "fill_inv n r (fst ((gc_pass ^^ m) st))"
    by (induction m) (simp_all add: assms step)
  with assms show ?thesis
    by (simp add: gc_passes_def)
qed

lemma fill_inv_put:
  assumes "fill_inv n (Suc r) w"
  shows "fill_inv (Suc n) r (w\<lparr>w_store := vs_commit (w_store w) [\<lparr>op_key = KeyName (int n), op_value = Some ''init''\<rparr>]\<rparr>)"
proof -
  have ready: "vs_ready (Suc r) (w_store w)"
    using assms by (simp add: fill_inv_def)
  have "VS_CurrentVersion (w_store w) + 1 = of_nat (Suc n)"
    using assms by (simp add: fill_inv_def)
  with assms visible_commit_current [OF ready, of "[\<lparr>op_key = KeyName (int n), op_value = Some ''init''\<rparr>]"]
  show ?thesis
    by (auto simp: fill_inv_def vs_ready_commit valid_batch_def KeyName_inject)
qed

lemma active_TM_init [simp]: "active_snapshots TM_init = Map.empty"
  by (simp add: fun_eq_iff active_snapshots_def) (simp add: TM_init_def)

lemma mvcc_fill_inv:
  assumes "n + r < 2 ^ 64 - 1"
  shows "fill_inv n r (fst (mvcc_fill enable_gc passes n))"
  using assms
proof (induction n arbitrary: r)
  case 0
  have "fill_inv 0 r World_init"
    using 0 by (simp add: fill_inv_def World_init_def vs_ready_def vs_room_def)
      (simp add: VS_init_def VS_CurrentVersion_def visible_def hist_of_def um.find_empty)
  then show ?case by (simp add: fill_inv_passes)
next
  case (Suc n)
  then have "fill_inv n (Suc r) (fst (mvcc_fill enable_gc passes n))"
    by simp
  from fill_inv_put [OF this] show ?case
    by (simp add: case_prod_beta VS_Put_commit fill_inv_passes)
qed

section \<open>Steps of the transactional workload\<close>

text \<open>Between two bodies: no transaction is registered and every key of the space holds a
  value, with room for \<open>r\<close> more writes.\<close>

definition bench_inv :: "nat \<Rightarrow> nat \<Rightarrow> World \<Rightarrow> bool" where
  "bench_inv n r w \<longleftrightarrow>
     vs_ready r (w_store w) \<and> tm_wf (w_mgr w) \<and> active_snapshots (w_mgr w) = Map.empty \<and>
     (\<forall>i<n. visible (w_store w) (KeyName (int i)) (VS_CurrentVersion (w_store w)) \<noteq> None)"

lemma bench_inv_w_inv: "bench_inv n r w \<Longrightarrow> w_inv w"
  by (simp add: bench_inv_def w_inv_iff vs_ready_def)

lemma reader_step:
  assumes "bench_inv n r w" "i < n"
  shows "fst (mvcc_reader_body w (int i)) = (OK, OK)" "bench_inv n r (snd (mvcc_reader_body w (int i)))"
proof -
  have wf: "tm_wf (w_mgr w)" and inv: "vs_inv (w_store w)"
    and hit: "visible (w_store w) (KeyName (int i)) (VS_CurrentVersion (w_store w)) \<noteq> None"
    using assms by (simp_all add: bench_inv_def vs_ready_def)
  obtain t w1 where b: "Begin w = (t, w1)" by fastforce
  note B = Begin_spec [OF wf, unfolded b fst_conv snd_conv]
  have get: "fst (Txn_Get (w_store w1) t (KeyName (int i)) '''') = OK"
    using Txn_Get_view [OF inv, of t "KeyName (int i)" "''''"] hit
    by (auto simp: B(1,2) txn_view_def split: option.splits)
  have commit: "Txn_Commit w1 t None None = (OK, w_unregister w1 t, t\<lparr>txn_state := kCommitted\<rparr>, None, None)"
    by (subst Txn_Commit_readonly) (simp_all add: B(1))
  have body: "mvcc_reader_body w (int i) = ((OK, OK), w_unregister w1 t)"
    using get by (simp add: mvcc_reader_body_def b commit case_prod_beta Txn_destroy_def)
  then show "fst (mvcc_reader_body w (int i)) = (OK, OK)" by simp
  show "bench_inv n r (snd (mvcc_reader_body w (int i)))"
    using assms(1) B(2,3,5) by (simp add: body bench_inv_def mvcc_inv active_Unregister B(1))
qed

lemma writer_txn_bodies: "local_body (writer_txn i c)" "tidy_body (writer_txn i c)"
  by (simp_all add: local_body_def tidy_body_def writer_txn_def case_prod_beta mvcc_inv)

lemma writer_first_attempt:
  assumes "fst (retry_attempt (writer_txn i (snd st)) (fst st)) = Inl s"
  shows "mvcc_writer_body st i = (s, snd (retry_attempt (writer_txn i (snd st)) (fst st)), fetch_add_1 (snd st))"
proof -
  have "writer_attempts i (Suc n) st OK =
      (s, snd (retry_attempt (writer_txn i (snd st)) (fst st)), fetch_add_1 (snd st))" for n
    using assms by (auto split: prod.split)
  from this [of 31] show ?thesis by (simp add: mvcc_writer_body_def)
qed

lemma writer_step:
  assumes "bench_inv n (Suc r) (fst st)"
  shows "fst (mvcc_writer_body st (int i)) = Some OK" "bench_inv n r (fst (snd (mvcc_writer_body st (int i))))"
proof -
  let ?w = "fst st" and ?fn = "writer_txn (int i) (snd st)"
  let ?t = "snd (Txn_Put (fst (Begin ?w)) (KeyName (int i)) (writer_value (snd st)))"
  let ?ops = "[\<lparr>op_key = KeyName (int i), op_value = Some (writer_value (snd st))\<rparr>]"
  have rdy: "vs_ready (Suc r) (w_store ?w)" and wf: "tm_wf (w_mgr ?w)"
    using assms by (simp_all add: bench_inv_def)
  have fn: "?fn (snd (Begin ?w)) (fst (Begin ?w)) = (Some OK, snd (Begin ?w), ?t)"
    by (simp add: writer_txn_def case_prod_beta Txn_Put_view)
  have ws: "write_set ?t = [(KeyName (int i), Some (writer_value (snd st)))]"
    by (simp add: Begin_spec [OF wf] Txn_Put_def um_assign_def)
  note L = retry_attempt_local [OF writer_txn_bodies(1) bench_inv_w_inv [OF assms] fn]
  note R = retry_attempt_registry [OF writer_txn_bodies(2) wf, of "int i" "snd st"]
  have body: "mvcc_writer_body st (int i) = (Some OK, snd (retry_attempt ?fn ?w), fetch_add_1 (snd st))"
    using writer_first_attempt [OF L(1)] .
  then show "fst (mvcc_writer_body st (int i)) = Some OK" by simp
  have store: "w_store (snd (retry_attempt ?fn ?w)) = vs_commit (w_store ?w) ?ops"
    using L(2) ws by (simp add: ops_of_def)
  show "bench_inv n r (fst (snd (mvcc_writer_body st (int i))))"
    using assms R rdy
    by (auto simp: body store bench_inv_def vs_ready_commit valid_batch_def visible_commit_current
        simp del: vs_commit_current split: option.split)
qed

lemma gc_step_bench:
  assumes "bench_inv n r w"
  shows "bench_inv n r (fst (snd (RunOnce w cs)))"
proof -
  have "OldestActiveSnapshot (w_store w) (w_mgr w) \<le> VS_CurrentVersion (w_store w)"
    using OldestActiveSnapshot_le(1) [OF bench_inv_w_inv [OF assms]] .
  then show ?thesis
    using assms by (auto simp: bench_inv_def vs_ready_collect vs_collect_view)
qed

lemma bench_inv_Suc: "bench_inv n (Suc r) w \<Longrightarrow> bench_inv n r w"
  by (auto simp: bench_inv_def intro: vs_ready_Suc)

lemma mvcc_run:
  assumes "bench_inv n (length sched) (fst st)" "list_all (op_in_range n) sched"
  shows "set (fst (mvcc_schedule g st sched)) \<subseteq> {Some OK} \<and>
    bench_inv n 0 (fst (snd (mvcc_schedule g st sched)))"
  using assms
proof (induction g st sched rule: mvcc_schedule.induct)
  case (2 g w c cs i sched)
  then obtain j where j: "i = int j" "j < n" by (auto simp: op_in_range_iff)
  note S = reader_step [OF bench_inv_Suc j(2), of "length sched" w]
  obtain w' where w': "mvcc_reader_body w i = ((OK, OK), w')"
    using S(1) "2.prems"(1) j(1) by (cases "mvcc_reader_body w i") auto
  with "2.IH" [OF w' [symmetric] refl, of OK OK] S(2) "2.prems" j(1) show ?case
    by (simp add: case_prod_beta)
next
  case (3 g w c cs i sched)
  then obtain j where j: "i = int j" "j < n" by (auto simp: op_in_range_iff)
  note S = writer_step [of n "length sched" "(w, c)" j]
  obtain w' c' where st1: "mvcc_writer_body (w, c) i = (Some OK, w', c')"
    using S(1) "3.prems"(1) j(1) by (cases "mvcc_writer_body (w, c) i") auto
  with "3.IH" [OF st1 [symmetric] refl] S(2) "3.prems" j(1) show ?case
    by (simp add: case_prod_beta)
next
  case (4 g w c cs sched)
  obtain ps w' cs' where r: "RunOnce w cs = (ps, w', cs')" by (metis prod_cases3)
  have "bench_inv n (length sched) w'"
    using gc_step_bench [OF bench_inv_Suc, of n "length sched" w cs] "4.prems"(1) by (simp add: r)
  with 4 r show ?case
    using bench_inv_Suc by (cases g) auto
qed simp

section \<open>Properties\<close>

text \<open>Filling works: the key names are distinct and not empty, so after the fill loop the
  baseline store holds exactly \<open>n\<close> keys, every key of the space reads \<open>init\<close> in both stores,
  whatever passes the collector has made meanwhile, and the versioned store has assigned
  exactly \<open>n\<close> versions.\<close>

lemma fill_complete:
  assumes "i < n" and "n < 2 ^ 64 - 1"
  shows "KV_Size (kv_fill n) = n \<and> KV_Get (kv_fill n) (KeyName (int i)) out = (OK, ''init'') \<and>
    vs_get (w_store (fst (mvcc_fill enable_gc passes n))) (KeyName (int i)) out = (OK, ''init'') \<and>
    VS_CurrentVersion (w_store (fst (mvcc_fill enable_gc passes n))) = of_nat n"
proof -
  let ?s = "w_store (fst (mvcc_fill enable_gc passes n))"
  have inv: "fill_inv n 0 (fst (mvcc_fill enable_gc passes n))"
    using mvcc_fill_inv [of n 0] assms(2) by simp
  then have "vs_ready 0 ?s" "visible ?s (KeyName (int i)) (VS_CurrentVersion ?s) =
      (if i < n then Some ''init'' else None)"
    unfolding fill_inv_def by blast+
  then have "vs_get ?s (KeyName (int i)) out = (OK, ''init'')"
    using assms(1) by (intro vs_latest.get_hit) simp_all
  with inv show ?thesis
    using kv_fill_find [of n i] assms(1)
    by (simp add: kv_fill_size KV_Get_def fill_inv_def)
qed

lemma fetch_add_1_eq: "0 \<le> c \<Longrightarrow> c + 1 < 2 ^ 31 \<Longrightarrow> fetch_add_1 c = c + 1"
  by (simp add: fetch_add_1_def)

lemma kv_run_ok:
  assumes "kv_inv (fst st)" "\<And>i. i < n \<Longrightarrow> KV_Contains (fst st) (KeyName (int i))"
    and "list_all (op_in_range n) sched" "0 \<le> snd st" "snd st + int (length sched) < 2 ^ 31"
  shows "set (fst (kv_schedule st sched)) \<subseteq> {OK} \<and>
    KV_Size (fst (snd (kv_schedule st sched))) = KV_Size (fst st) \<and>
    snd (snd (kv_schedule st sched)) =
      snd st + int (length (filter (\<lambda>e. \<exists>i. e = Writer_op i) sched))"
  using assms
proof (induction st sched rule: kv_schedule.induct)
  case (2 st i sched)
  then obtain j where j: "i = int j" "j < n" by (auto simp: op_in_range_iff)
  have "fst (kv_reader_body (fst st) i) = OK"
    using "2.prems"(2) [OF j(2)] by (auto simp: j(1) kv_reader_body_def KV_Get_def KV_Contains_def)
  with 2 show ?case by (simp add: case_prod_beta)
next
  case (3 st i sched)
  then obtain j where j: "i = int j" "j < n" by (auto simp: op_in_range_iff)
  let ?s = "snd (KV_Put (fst st) (KeyName i) (writer_value (snd st)))"
  have body: "kv_writer_body st i = (OK, ?s, fetch_add_1 (snd st))"
    by (simp add: kv_writer_body_def KV_Put_def)
  have "KV_Size ?s = KV_Size (fst st)"
    using "3.prems"(1,2) j by (simp add: KV_Size_Put)
  moreover have "KV_Contains ?s (KeyName (int k))" if "k < n" for k
    using "3.prems"(1,2) that by (auto simp: KV_Contains_def KV_Put_def kv_inv_def)
  ultimately show ?case
    using "3.IH" [OF body [symmetric]] "3.prems"(1,3-5) kv_inv_Put [OF "3.prems"(1)]
      fetch_add_1_eq [of "snd st"]
    by (simp add: body case_prod_beta)
qed simp_all

text \<open>No operation of the baseline workload fails: on a filled store, in every schedule that
  draws indices from the key space, each \<open>Get\<close> and each \<open>Put\<close> returns OK, the number of keys
  stays \<open>n\<close>, and the counter has advanced once per write (while it does not wrap).\<close>

lemma kv_workload_never_fails:
  assumes "list_all (op_in_range n) sched" and "length sched < 2 ^ 31"
    and "RunKVStoreWorkload n sched = (statuses, store, counter)"
  shows "set statuses \<subseteq> {OK} \<and> KV_Size store = n \<and>
    counter = int (length (filter (\<lambda>e. \<exists>i. e = Writer_op i) sched))"
proof -
  have "KV_Contains (kv_fill n) (KeyName (int i))" if "i < n" for i
    using kv_fill_find [of n i] that by (simp add: KV_Contains_def)
  then show ?thesis
    using kv_run_ok [OF _ _ assms(1), of "(kv_fill n, 0)"] assms(2,3)
    by (simp add: RunKVStoreWorkload_def kv_fill_inv kv_fill_size)
qed

text \<open>No operation of the transactional workload fails when the bodies do not overlap:
  for every number of collector passes during the fill and every schedule of readers, writers
  and collector passes afterwards, every \<open>Get\<close>, every read-only \<open>Commit\<close> and every
  \<open>RunWithRetry\<close> returns OK, and in the end no transaction is registered and every key of the
  space still holds a value.\<close>

lemma mvcc_workload_never_fails:
  assumes "list_all (op_in_range n) sched" and "n + length sched < 2 ^ 64 - 1"
    and "RunMVCCWorkload n enable_gc passes sched = (statuses, w, counter, stats)"
  shows "set statuses \<subseteq> {Some OK} \<and> ActiveTransactionCount (w_mgr w) = 0 \<and> w_inv w \<and>
    (i < n \<longrightarrow> fst (vs_get (w_store w) (KeyName (int i)) []) = OK)"
proof -
  let ?f = "mvcc_fill enable_gc passes n"
  have "bench_inv n (length sched) (fst ?f)"
    using mvcc_fill_inv [of n "length sched" enable_gc passes] assms(2)
    by (auto simp: bench_inv_def fill_inv_def)
  then have run: "set statuses \<subseteq> {Some OK}" "bench_inv n 0 w"
    using mvcc_run [OF _ assms(1), of "(fst ?f, 0, snd ?f)" enable_gc] assms(3)
    by (simp_all add: RunMVCCWorkload_def case_prod_beta)
  then have "ActiveTransactionCount (w_mgr w) = 0"
    using reg.count_active [of "w_mgr w"] by (simp add: bench_inv_def)
  moreover have "fst (vs_get (w_store w) (KeyName (int i)) []) = OK" if "i < n"
    using run(2) that vs_latest.get_hit [of 0 "w_store w" "KeyName (int i)"]
    by (auto simp: bench_inv_def)
  ultimately show ?thesis
    using run bench_inv_w_inv by blast
qed

end
