(* ===== verification/Bench_Threads.thy ===== *)
theory Bench_Threads
  imports Bench_Stats
begin

text \<open>
  The thread management of \<open>RunWorkload\<close> (\<open>bench/bench_mvcc_vs_kv.cpp\<close>) as a machine of the
  main thread and its workers: the workers append one latency per call of their body until
  they see the stop flag, the main thread starts them, sleeps, sets the flag, joins them one
  after the other and summarises. A body is one step that returns some latency; the sleep may
  end at any time; the elapsed wall time is whatever the clock says.
\<close>

section \<open>The machine\<close>

text \<open>A worker is at its loop test, inside its body, or has left its loop.\<close>

datatype worker = W_test | W_body | W_exited

datatype 'd main_pc =
    M_spawn
  | M_sleep
  | M_join nat
  | M_done "'d WorkloadResult"

text \<open>\<open>threads\<close> holds the started workers, readers first; \<open>calls\<close> is a ghost that counts the
  finished bodies of readers and of writers.\<close>

record 'd Bench =
  stop :: bool
  reader_latencies :: "'d list list"
  writer_latencies :: "'d list list"
  threads :: "worker list"
  main :: "'d main_pc"
  calls :: "nat \<times> nat"

definition Bench_start :: "nat \<Rightarrow> nat \<Rightarrow> 'd Bench" where
  "Bench_start num_readers num_writers =
     \<lparr>stop = False, reader_latencies = replicate num_readers [],
      writer_latencies = replicate num_writers [], threads = [], main = M_spawn, calls = (0, 0)\<rparr>"

definition num_threads :: "'d Bench \<Rightarrow> nat" where
  "num_threads b = length (reader_latencies b) + length (writer_latencies b)"

text \<open>Thread \<open>i\<close> appends to its own vector.\<close>

definition push_latency :: "'d Bench \<Rightarrow> nat \<Rightarrow> 'd \<Rightarrow> 'd Bench" where
  "push_latency b i d =
     (let n = length (reader_latencies b) in
      if i < n
      then b\<lparr>reader_latencies := (reader_latencies b)[i := reader_latencies b ! i @ [d]],
             calls := (Suc (fst (calls b)), snd (calls b))\<rparr>
      else b\<lparr>writer_latencies := (writer_latencies b)[i - n := writer_latencies b ! (i - n) @ [d]],
             calls := (fst (calls b), Suc (snd (calls b)))\<rparr>)"

inductive bench_step :: "(nat \<Rightarrow> 'd \<Rightarrow> 'd) \<Rightarrow> ('d::{linorder,zero}) Bench \<Rightarrow> 'd Bench \<Rightarrow> bool"
  for ddiv where
  spawn: "main b = M_spawn \<Longrightarrow> length (threads b) < num_threads b \<Longrightarrow>
    bench_step ddiv b (b\<lparr>threads := threads b @ [W_test]\<rparr>)"
| spawned: "main b = M_spawn \<Longrightarrow> length (threads b) = num_threads b \<Longrightarrow>
    bench_step ddiv b (b\<lparr>main := M_sleep\<rparr>)"
| wake: "main b = M_sleep \<Longrightarrow> bench_step ddiv b (b\<lparr>stop := True, main := M_join 0\<rparr>)"
| join: "main b = M_join n \<Longrightarrow> n < length (threads b) \<Longrightarrow> threads b ! n = W_exited \<Longrightarrow>
    bench_step ddiv b (b\<lparr>main := M_join (Suc n)\<rparr>)"
| gather: "main b = M_join n \<Longrightarrow> n = length (threads b) \<Longrightarrow>
    bench_step ddiv b
      (b\<lparr>main := M_done (RunWorkload ddiv (reader_latencies b) (writer_latencies b) wall_seconds)\<rparr>)"
| work_test: "i < length (threads b) \<Longrightarrow> threads b ! i = W_test \<Longrightarrow>
    bench_step ddiv b (b\<lparr>threads := (threads b)[i := if stop b then W_exited else W_body]\<rparr>)"
| work_body: "i < length (threads b) \<Longrightarrow> threads b ! i = W_body \<Longrightarrow>
    bench_step ddiv b (push_latency (b\<lparr>threads := (threads b)[i := W_test]\<rparr>) i d)"

section \<open>The invariant\<close>

text \<open>The result, once there, is the summary of all latencies ever appended.\<close>

definition bench_ok :: "(nat \<Rightarrow> 'd \<Rightarrow> 'd) \<Rightarrow> ('d::{linorder,zero}) Bench \<Rightarrow> bool" where
  "bench_ok ddiv b \<longleftrightarrow>
     length (concat (reader_latencies b)) = fst (calls b) \<and>
     length (concat (writer_latencies b)) = snd (calls b) \<and>
     length (threads b) \<le> num_threads b \<and>
     (case main b of
        M_spawn \<Rightarrow> \<not> stop b
      | M_sleep \<Rightarrow> \<not> stop b \<and> length (threads b) = num_threads b
      | M_join n \<Rightarrow> stop b \<and> length (threads b) = num_threads b \<and> n \<le> length (threads b) \<and>
          (\<forall>i<n. threads b ! i = W_exited)
      | M_done r \<Rightarrow> stop b \<and> length (threads b) = num_threads b \<and>
          (\<forall>i<length (threads b). threads b ! i = W_exited) \<and>
          (\<exists>wall. r = RunWorkload ddiv (reader_latencies b) (writer_latencies b) wall))"

lemma push_latency_simps [simp]:
  "stop (push_latency b i d) = stop b" "threads (push_latency b i d) = threads b"
  "main (push_latency b i d) = main b" "num_threads (push_latency b i d) = num_threads b"
  by (simp_all add: push_latency_def num_threads_def Let_def)

lemma num_threads_simps [simp]:
  "num_threads (b\<lparr>threads := ts\<rparr>) = num_threads b" "num_threads (b\<lparr>main := p\<rparr>) = num_threads b"
  "num_threads (b\<lparr>stop := s\<rparr>) = num_threads b"
  by (simp_all add: num_threads_def)

lemma length_concat_update:
  "i < length xss \<Longrightarrow> length (concat (xss[i := xss ! i @ [d]])) = Suc (length (concat xss))"
proof (induction xss arbitrary: i)
  case (Cons xs xss)
  then show ?case by (cases i) auto
qed simp

lemma push_latency_counts:
  assumes "i < num_threads b" "length (concat (reader_latencies b)) = fst (calls b)"
    "length (concat (writer_latencies b)) = snd (calls b)"
  shows "length (concat (reader_latencies (push_latency b i d))) = fst (calls (push_latency b i d))"
    "length (concat (writer_latencies (push_latency b i d))) = snd (calls (push_latency b i d))"
  using assms length_concat_update [of i "reader_latencies b" d]
    length_concat_update [of "i - length (reader_latencies b)" "writer_latencies b" d]
  by (auto simp: push_latency_def num_threads_def Let_def)

lemma bench_ok_start: "bench_ok ddiv (Bench_start r w)"
  by (simp add: bench_ok_def Bench_start_def)

lemma bench_ok_step: "bench_step ddiv b b' \<Longrightarrow> bench_ok ddiv b \<Longrightarrow> bench_ok ddiv b'"
proof (induction rule: bench_step.induct)
  case (work_test i b)
  then show ?case
    by (auto simp: bench_ok_def nth_list_update split: main_pc.splits)
next
  case (work_body i b d)
  have "i < num_threads (b\<lparr>threads := (threads b)[i := W_test]\<rparr>)"
    using work_body by (simp add: bench_ok_def)
  note counts = push_latency_counts [OF this, of d]
  have "i < length (threads b) \<Longrightarrow> main b \<noteq> M_done r" for r
    using work_body by (auto simp: bench_ok_def)
  with work_body counts show ?case
    by (auto simp: bench_ok_def nth_list_update split: main_pc.splits)
qed (auto simp: bench_ok_def less_Suc_eq split: main_pc.splits)

section \<open>After the stop flag\<close>

text \<open>How many steps a worker, and the main thread, can still make once the flag is set.\<close>

fun worker_rest :: "worker \<Rightarrow> nat" where
  "worker_rest W_body = 2"
| "worker_rest W_test = 1"
| "worker_rest W_exited = 0"

fun main_rest :: "nat \<Rightarrow> 'd main_pc \<Rightarrow> nat" where
  "main_rest n (M_join i) = Suc (n - i)"
| "main_rest n _ = 0"

definition bench_rest :: "'d Bench \<Rightarrow> nat" where
  "bench_rest b = sum_list (map worker_rest (threads b)) + main_rest (length (threads b)) (main b)"

lemma sum_list_update_less:
  fixes f :: "'a \<Rightarrow> nat"
  shows "i < length xs \<Longrightarrow> f x < f (xs ! i) \<Longrightarrow> sum_list (map f (xs[i := x])) < sum_list (map f xs)"
proof (induction xs arbitrary: i)
  case (Cons y ys)
  then show ?case by (cases i) auto
qed simp

lemma stopped_step:
  assumes "bench_step ddiv b b'" "stop b" "bench_ok ddiv b"
  shows "stop b'" "bench_rest b' < bench_rest b"
proof -
  have "stop b' \<and> bench_rest b' < bench_rest b"
    using assms
  proof (induction rule: bench_step.induct)
    case (work_test i b)
    then show ?case
      using sum_list_update_less [of i "threads b" worker_rest W_exited] by (simp add: bench_rest_def)
  next
    case (work_body i b d)
    then show ?case
      using sum_list_update_less [of i "threads b" worker_rest W_test] by (simp add: bench_rest_def)
  qed (auto simp: bench_rest_def bench_ok_def)
  then show "stop b'" "bench_rest b' < bench_rest b" by simp_all
qed

lemma stopped_run:
  assumes "(bench_step ddiv ^^ n) b b'" "stop b" "bench_ok ddiv b"
  shows "stop b' \<and> bench_ok ddiv b' \<and> n + bench_rest b' \<le> bench_rest b"
  using assms(1)
proof (induction n arbitrary: b')
  case 0
  with assms show ?case by simp
next
  case (Suc n)
  then obtain c where c: "(bench_step ddiv ^^ n) b c" "bench_step ddiv c b'" by auto
  with Suc.IH [OF c(1)] stopped_step [OF c(2)] bench_ok_step [OF c(2)] show ?case
    by fastforce
qed

lemma bench_rest_le:
  assumes "bench_ok ddiv b"
  shows "bench_rest b \<le> 3 * num_threads b + 1"
proof -
  have "sum_list (map worker_rest ts) \<le> 2 * length ts" for ts
  proof (induction ts)
    case (Cons t ts)
    then show ?case by (cases t) auto
  qed simp
  from this [of "threads b"] show ?thesis
    using assms by (cases "main b") (auto simp: bench_rest_def bench_ok_def)
qed

text \<open>The join never blocks for good: as long as the result is not there, somebody can step.\<close>

lemma stopped_progress:
  fixes b :: "('d::{linorder,zero}) Bench"
  assumes "bench_ok ddiv b" "stop b"
  shows "(\<exists>r. main b = M_done r) \<or> (\<exists>b'. bench_step ddiv b b')"
proof (cases "main b")
  case (M_join n)
  show ?thesis
  proof (cases "n < length (threads b)")
    case True
    then show ?thesis
      using M_join bench_step.join [of b n ddiv] bench_step.work_test [of n b ddiv]
        bench_step.work_body [of n b ddiv]
      by (cases "threads b ! n") blast+
  next
    case False
    then have "n = length (threads b)"
      using assms M_join by (simp add: bench_ok_def)
    with bench_step.gather [OF M_join] show ?thesis by blast
  qed
qed (use assms in \<open>auto simp: bench_ok_def\<close>)

lemma num_threads_step: "bench_step ddiv b b' \<Longrightarrow> num_threads b' = num_threads b"
  by (induction rule: bench_step.induct) simp_all

lemma bench_reachable:
  assumes "(bench_step ddiv)\<^sup>*\<^sup>* (Bench_start r w) b"
  shows "bench_ok ddiv b \<and> num_threads b = r + w"
  using assms
proof (induction rule: rtranclp_induct)
  case base
  show ?case by (simp add: bench_ok_start) (simp add: Bench_start_def num_threads_def)
qed (auto intro: bench_ok_step simp: num_threads_step)

lemma ls_count_Summarize [simp]: "ls_count (Summarize ddiv xs wall) = length xs"
  by (simp add: Summarize_def empty_stats_def Let_def)

lemma bench_ok_result:
  assumes "bench_ok ddiv b" "main b = M_done res"
  shows "ls_count (reader_stats res) = fst (calls b)" "ls_count (writer_stats res) = snd (calls b)"
    and "\<And>b'. \<not> bench_step ddiv b b'"
  using assms by (auto simp: bench_ok_def RunWorkload_def elim!: bench_step.cases)

section \<open>Properties\<close>

text \<open>C40: The workload ends and loses no sample. Once the stop flag is set, with \<open>r\<close> readers
  and \<open>w\<close> writers, every run has at most \<open>3 * (r + w) + 1\<close> more steps and can only stop with
  the result, whatever the interleaving; the result counts exactly the bodies that were run,
  readers and writers apart, and no thread runs after it is there.\<close>

theorem workload_completes:
  fixes b b' :: "('d::{linorder,zero}) Bench"
  assumes "(bench_step ddiv)\<^sup>*\<^sup>* (Bench_start r w) b" and "stop b" and "(bench_step ddiv ^^ n) b b'"
  shows "n \<le> 3 * (r + w) + 1 \<and>
    ((\<exists>res. main b' = M_done res) \<or> (\<exists>b''. bench_step ddiv b' b'')) \<and>
    (main b' = M_done res \<longrightarrow>
      ls_count (reader_stats res) = fst (calls b') \<and> ls_count (writer_stats res) = snd (calls b') \<and>
      (\<forall>b''. \<not> bench_step ddiv b' b''))"
proof -
  have ok: "bench_ok ddiv b" and n: "num_threads b = r + w"
    using bench_reachable [OF assms(1)] by simp_all
  from stopped_run [OF assms(3,2) ok] have run: "stop b'" "bench_ok ddiv b'"
    "n + bench_rest b' \<le> bench_rest b" by simp_all
  with bench_rest_le [OF ok] n have "n \<le> 3 * (r + w) + 1" by simp
  with stopped_progress [OF run(2,1)] bench_ok_result [OF run(2)] show ?thesis by blast
qed

text \<open>One reader that calls its body once.\<close>

definition one_call :: "nat Bench" where
  "one_call = \<lparr>stop = False, reader_latencies = [[7]], writer_latencies = [], threads = [W_test],
     main = M_sleep, calls = (1, 0)\<rparr>"

definition one_call_stopped :: "nat Bench" where
  "one_call_stopped = one_call\<lparr>stop := True, main := M_join 0\<rparr>"

definition one_call_done :: "nat Bench" where
  "one_call_done = one_call_stopped
     \<lparr>threads := [W_exited], main := M_done (RunWorkload (\<lambda>n d. n) [[7]] [] 1)\<rparr>"

lemma one_call_run: "(bench_step (\<lambda>n d. n))\<^sup>*\<^sup>* (Bench_start 1 0) one_call_stopped"
proof -
  let ?step = "bench_step (\<lambda>n d. n) :: nat Bench \<Rightarrow> nat Bench \<Rightarrow> bool"
  let ?b0 = "Bench_start 1 0 :: nat Bench"
  let ?b1 = "?b0\<lparr>threads := [W_test]\<rparr>"
  let ?b2 = "?b1\<lparr>main := M_sleep\<rparr>"
  let ?b3 = "?b2\<lparr>threads := [W_body]\<rparr>"
  have "?step ?b0 ?b1" "?step ?b1 ?b2" "?step ?b2 ?b3"
    using bench_step.spawn [of ?b0 "\<lambda>n d. n"] bench_step.spawned [of ?b1 "\<lambda>n d. n"]
      bench_step.work_test [of 0 ?b2 "\<lambda>n d. n"]
    by (simp_all add: Bench_start_def num_threads_def)
  moreover have "?step ?b3 one_call"
    using bench_step.work_body [of 0 ?b3 "\<lambda>n d. n" 7]
    by (simp add: Bench_start_def push_latency_def one_call_def)
  moreover have "?step one_call one_call_stopped"
    using bench_step.wake [of one_call "\<lambda>n d. n"] by (simp add: one_call_def one_call_stopped_def)
  ultimately show ?thesis
    by (meson rtranclp.rtrancl_into_rtrancl rtranclp.rtrancl_refl)
qed

lemma one_call_end: "(bench_step (\<lambda>n d. n) ^^ 3) one_call_stopped one_call_done"
proof -
  let ?b1 = "one_call_stopped\<lparr>threads := [W_exited]\<rparr>"
  let ?b2 = "?b1\<lparr>main := M_join 1\<rparr>"
  have "bench_step (\<lambda>n d. n) one_call_stopped ?b1" "bench_step (\<lambda>n d. n) ?b1 ?b2"
      "bench_step (\<lambda>n d. n) ?b2 one_call_done"
    using bench_step.work_test [of 0 one_call_stopped "\<lambda>n d. n"] bench_step.join [of ?b1 0 "\<lambda>n d. n"]
      bench_step.gather [of ?b2 1 "\<lambda>n d. n" 1]
    by (simp_all add: one_call_stopped_def one_call_def one_call_done_def)
  then show ?thesis
    by (auto simp: numeral_3_eq_3)
qed

theorem workload_completes_witness:
  "ls_count (reader_stats (RunWorkload (\<lambda>n d. n) [[7 :: nat]] [] 1)) = 1 \<and>
   (\<forall>b''. \<not> bench_step (\<lambda>n d. n) one_call_done b'')"
  using workload_completes [OF one_call_run _ one_call_end]
  by (simp add: one_call_stopped_def one_call_def one_call_done_def)

end
