(* ===== verification/Bench_Output.thy ===== *)
theory Bench_Output
  imports Bench_Stats
begin

text \<open>
  What the benchmark prints (\<open>bench/bench_mvcc_vs_kv.cpp\<close>): \<open>PrintRow\<close>,
  \<open>PrintRowWithVariance\<close>, the scenarios and \<open>main\<close>, as functions to the printed text. How the
  C library renders a double with a width and a precision is the parameter \<open>fmt\<close>; the
  measurements of the runs are parameters of \<open>bench_main\<close>.
\<close>

section \<open>Formatting\<close>

definition nl :: string where
  "nl = [CHR 0x0A]"

text \<open>The conversions \<open>%-ns\<close> and \<open>%ns\<close>.\<close>

definition pad_right :: "nat \<Rightarrow> string \<Rightarrow> string" where
  "pad_right n s = s @ replicate (n - length s) (CHR '' '')"

definition pad_left :: "nat \<Rightarrow> string \<Rightarrow> string" where
  "pad_left n s = replicate (n - length s) (CHR '' '') @ s"

section \<open>Rows\<close>

definition PrintRow :: "(nat \<Rightarrow> nat \<Rightarrow> 'd \<Rightarrow> string) \<Rightarrow> string \<Rightarrow> 'd LatencyStats \<Rightarrow> string" where
  "PrintRow fmt label s =
     (if ls_count s = 0
      then ''  '' @ pad_right 14 label @ ''  '' @ pad_left 10 ''(none)'' @ nl
      else ''  '' @ pad_right 14 label @ ''  ops='' @ pad_right 8 (to_string (ls_count s)) @
        ''  throughput='' @ fmt 9 1 (throughput_ops_per_sec s) @ '' ops/s   p50='' @
        fmt 7 2 (p50_us s) @ ''us  p95='' @ fmt 7 2 (p95_us s) @ ''us  p99='' @
        fmt 7 2 (p99_us s) @ ''us  max='' @ fmt 9 2 (max_us s) @ ''us'' @ nl)"

text \<open>The loop over the trials: the separator is empty before the first.\<close>

fun print_trials :: "(nat \<Rightarrow> nat \<Rightarrow> 'd \<Rightarrow> string) \<Rightarrow> nat \<Rightarrow> 'd LatencyStats list \<Rightarrow> bool \<Rightarrow> string \<times> bool" where
  "print_trials fmt i [] any_nonzero = ('''', any_nonzero)"
| "print_trials fmt i (t # ts) any_nonzero =
     (let (rest, any) = print_trials fmt (Suc i) ts (any_nonzero \<or> 0 < ls_count t)
      in ((if i = 0 then '''' else '', '') @ fmt 0 0 (throughput_ops_per_sec t) @ rest, any))"

definition PrintRowWithVariance :: "(nat \<Rightarrow> nat \<Rightarrow> 'd \<Rightarrow> string) \<Rightarrow> string \<Rightarrow>
    ('d::{linorder,zero}) LatencyStats list \<Rightarrow> string option" where
  "PrintRowWithVariance fmt label trials =
     (case MedianAcrossTrials trials of
        None \<Rightarrow> None
      | Some agg \<Rightarrow>
          let (list, any_nonzero) = print_trials fmt 0 trials False
          in Some (PrintRow fmt label agg @ ''    (per-trial throughput ops/s: '' @ list @ '')'' @
               (if any_nonzero then '''' else ''  [all trials empty]'') @ nl))"

section \<open>The program\<close>

record Scenario =
  sc_name :: string
  sc_readers :: int
  sc_writers :: int

definition scenarios :: "Scenario list" where
  "scenarios =
     [\<lparr>sc_name = ''Read-heavy (8R/1W)'', sc_readers = 8, sc_writers = 1\<rparr>,
      \<lparr>sc_name = ''Balanced (4R/4W)'', sc_readers = 4, sc_writers = 4\<rparr>,
      \<lparr>sc_name = ''Write-heavy (1R/8W)'', sc_readers = 1, sc_writers = 8\<rparr>]"

definition key_space_size :: nat where
  "key_space_size = 64"

definition run_for :: nat where
  "run_for = 1"

text \<open>The configurations of one scenario.\<close>

datatype config = KV_baseline | MVCC_no_gc | MVCC_gc

definition config_title :: "config \<Rightarrow> string" where
  "config_title c =
     (case c of
        KV_baseline \<Rightarrow> '' -- KVStore (Phase 1 baseline, single exclusive mutex) --''
      | MVCC_no_gc \<Rightarrow> '' -- MVCC stack (shared_mutex reads, OCC writes, no GC) --''
      | MVCC_gc \<Rightarrow> '' -- MVCC stack (shared_mutex reads, OCC writes, background GC every 5ms) --'') @ nl"

text \<open>\<open>results c sc t\<close> is what the \<open>t\<close>-th run of configuration \<open>c\<close> in scenario \<open>sc\<close> measured.\<close>

definition config_block :: "(nat \<Rightarrow> nat \<Rightarrow> 'd \<Rightarrow> string) \<Rightarrow>
    (config \<Rightarrow> Scenario \<Rightarrow> nat \<Rightarrow> ('d::{linorder,zero}) WorkloadResult) \<Rightarrow> Scenario \<Rightarrow> config \<Rightarrow>
    string option" where
  "config_block fmt results sc c =
     (let trials = map (results c sc) [0..<kTrialsPerConfig];
          total = sum_list (map gc_stats trials)
      in case (PrintRowWithVariance fmt ''readers'' (map reader_stats trials),
               PrintRowWithVariance fmt ''writers'' (map writer_stats trials)) of
           (Some r, Some w) \<Rightarrow> Some (config_title c @ r @ w @
             (if c = MVCC_gc
              then ''  GC across all '' @ to_string kTrialsPerConfig @ '' trials: versions_reclaimed='' @
                to_string (unat (versions_reclaimed total)) @ '' keys_removed='' @
                to_string (unat (keys_removed total)) @ nl @ nl
              else ''''))
         | _ \<Rightarrow> None)"

definition scenario_block :: "(nat \<Rightarrow> nat \<Rightarrow> 'd \<Rightarrow> string) \<Rightarrow>
    (config \<Rightarrow> Scenario \<Rightarrow> nat \<Rightarrow> ('d::{linorder,zero}) WorkloadResult) \<Rightarrow> Scenario \<Rightarrow>
    string option" where
  "scenario_block fmt results sc =
     (case (config_block fmt results sc KV_baseline, config_block fmt results sc MVCC_no_gc,
            config_block fmt results sc MVCC_gc) of
        (Some a, Some b, Some c) \<Rightarrow>
          Some (''=== Scenario: '' @ sc_name sc @ '' | key space = '' @ to_string key_space_size @
            '' | '' @ to_string kTrialsPerConfig @ '' trials x '' @ to_string run_for @
            ''s each ==='' @ nl @ a @ b @ c)
      | _ \<Rightarrow> None)"

text \<open>An em dash in UTF-8.\<close>

definition em_dash :: string where
  "em_dash = [CHR 0xE2, CHR 0x80, CHR 0x94]"

definition banner :: "nat \<Rightarrow> string" where
  "banner hw_concurrency =
     ''MVCC-lite Phase 6 benchmark'' @ nl @
     ''Detected hardware_concurrency() = '' @ to_string hw_concurrency @
     '' logical core(s) on this machine.'' @ nl @
     ''Each configuration below runs '' @ to_string kTrialsPerConfig @ '' times ('' @ to_string run_for @
     ''s each); the summary row shown is the'' @ nl @
     ''MEDIAN across those trials, with every trial's raw throughput printed alongside it '' @ em_dash @ nl @
     ''on real hardware, throughput can vary several-fold between runs of the SAME unchanged'' @ nl @
     ''code purely from system noise (background load, thermal/frequency scaling, scheduler'' @ nl @
     ''variance), so a single run is not reliable evidence for comparing two configurations,'' @ nl @
     ''or for judging the effect of a code change. Interpret medians across several trials,'' @ nl @
     ''not any single number, and treat two results as meaningfully different only when their'' @ nl @
     ''trial ranges don't substantially overlap.'' @ nl @
     ''Interpretation note: on a single-core (or heavily oversubscribed) machine, no locking'' @ nl @
     ''strategy can show true parallel throughput gains, since only one thread ever actually'' @ nl @
     ''runs at a time regardless of what locks are held. The 'readers never block writers'' @ [CHR 0x27] @ nl @
     ''claim this project is built around is fundamentally a multi-core parallelism claim.'' @ nl @
     ''See the project README for this repository's own measured results and their'' @ nl @
     ''interpretation, including a root-caused explanation for why the MVCC stack has so far'' @ nl @
     ''underperformed the naive baseline even on real multi-core hardware.'' @ nl @ nl"

text \<open>\<open>None\<close>: a median was taken of nothing, which C++ leaves undefined.\<close>

definition bench_main :: "(nat \<Rightarrow> nat \<Rightarrow> 'd \<Rightarrow> string) \<Rightarrow> nat \<Rightarrow>
    (config \<Rightarrow> Scenario \<Rightarrow> nat \<Rightarrow> ('d::{linorder,zero}) WorkloadResult) \<Rightarrow> string option" where
  "bench_main fmt hw_concurrency results =
     (let blocks = map (scenario_block fmt results) scenarios
      in if None \<in> set blocks then None
         else Some (banner hw_concurrency @ concat (map the blocks)))"

section \<open>What the rows say\<close>

definition none_row :: "string \<Rightarrow> string" where
  "none_row label = ''  '' @ pad_right 14 label @ ''  '' @ pad_left 10 ''(none)'' @ nl"

lemma PrintRow_none_iff: "PrintRow fmt label s = none_row label \<longleftrightarrow> ls_count s = 0"
  by (simp add: PrintRow_def none_row_def pad_left_def nl_def)

fun comma_separated :: "string list \<Rightarrow> string" where
  "comma_separated [] = ''''"
| "comma_separated [x] = x"
| "comma_separated (x # y # zs) = x @ '', '' @ comma_separated (y # zs)"

lemma print_trials_eq:
  "print_trials fmt i ts any =
     ((if i = 0 \<or> ts = [] then '''' else '', '') @
        comma_separated (map (\<lambda>t. fmt 0 0 (throughput_ops_per_sec t)) ts),
      any \<or> 0 < sum_list (map ls_count ts))"
proof (induction ts arbitrary: i any)
  case (Cons t ts)
  have "print_trials fmt i (t # ts) any =
      ((if i = 0 then '''' else '', '') @ fmt 0 0 (throughput_ops_per_sec t) @
         (if ts = [] then '''' else '', '') @
         comma_separated (map (\<lambda>t. fmt 0 0 (throughput_ops_per_sec t)) ts),
       (any \<or> 0 < ls_count t) \<or> 0 < sum_list (map ls_count ts))"
    unfolding print_trials.simps Cons.IH by simp
  then show ?case
    by (cases ts) auto
qed simp

lemma Median_defined: "xs \<noteq> [] \<Longrightarrow> \<exists>x. Median xs = Some x"
  by (auto simp: Median_def Let_def)

lemma MedianAcrossTrials_defined:
  assumes "trials \<noteq> []"
  shows "\<exists>agg. MedianAcrossTrials trials = Some agg \<and>
    ls_count agg = sum_list (map ls_count trials) div length trials"
proof -
  obtain a b c d e where "Median (map throughput_ops_per_sec trials) = Some a"
      "Median (map p50_us trials) = Some b" "Median (map p95_us trials) = Some c"
      "Median (map p99_us trials) = Some d" "Median (map max_us trials) = Some e"
    using Median_defined [of "map _ trials"] assms by (metis map_is_Nil_conv)
  with assms show ?thesis by (simp add: MedianAcrossTrials_def Let_def)
qed

lemma config_block_defined: "config_block fmt results sc c \<noteq> None"
proof -
  have "PrintRowWithVariance fmt label (map f (map g [0..<kTrialsPerConfig])) \<noteq> None" for label f g
    using MedianAcrossTrials_defined [of "map f (map g [0..<kTrialsPerConfig])"]
    by (auto simp: PrintRowWithVariance_def kTrialsPerConfig_def case_prod_beta)
  then obtain r w where
    "PrintRowWithVariance fmt ''readers'' (map reader_stats (map (results c sc) [0..<kTrialsPerConfig])) = Some r"
    "PrintRowWithVariance fmt ''writers'' (map writer_stats (map (results c sc) [0..<kTrialsPerConfig])) = Some w"
    by blast
  then show ?thesis
    by (simp add: config_block_def Let_def)
qed

lemma bench_main_defined: "bench_main fmt hw results \<noteq> None"
proof -
  have "scenario_block fmt results sc \<noteq> None" for sc
    using config_block_defined [of fmt results sc KV_baseline]
      config_block_defined [of fmt results sc MVCC_no_gc] config_block_defined [of fmt results sc MVCC_gc]
    by (auto simp: scenario_block_def)
  then have "None \<notin> set (map (scenario_block fmt results) scenarios)"
    by (metis (no_types, lifting) imageE list.set_map)
  then show ?thesis
    by (simp add: bench_main_def Let_def)
qed

section \<open>Properties\<close>

text \<open>What the report says of the trials, and where it contradicts itself. \<open>main\<close> always
  completes its report. For at least one trial, \<open>PrintRowWithVariance\<close> prints the summary row
  and all throughputs separated by commas, and adds that all trials were empty exactly if no
  operation was made; but its summary row says that there was nothing whenever there were
  fewer operations than trials, because the count of the row is a truncated average.\<close>

lemma report_of_trials:
  fixes trials :: "('d::{linorder,zero}) LatencyStats list"
  assumes "trials \<noteq> []"
  shows "bench_main fmt hw results \<noteq> None \<and>
    (\<exists>row. PrintRowWithVariance fmt label trials =
        Some (row @ ''    (per-trial throughput ops/s: '' @
          comma_separated (map (\<lambda>t. fmt 0 0 (throughput_ops_per_sec t)) trials) @ '')'' @
          (if sum_list (map ls_count trials) = 0 then ''  [all trials empty]'' else '''') @ nl) \<and>
      (row = none_row label \<longleftrightarrow> sum_list (map ls_count trials) < length trials))"
proof -
  obtain agg where agg: "MedianAcrossTrials trials = Some agg"
      "ls_count agg = sum_list (map ls_count trials) div length trials"
    using MedianAcrossTrials_defined [OF assms] by blast
  have "PrintRow fmt label agg = none_row label \<longleftrightarrow> sum_list (map ls_count trials) < length trials"
    using assms by (simp add: PrintRow_none_iff agg(2) div_eq_0_iff)
  with agg(1) bench_main_defined [of fmt hw results] show ?thesis
    by (intro conjI exI [of _ "PrintRow fmt label agg"])
      (simp_all add: PrintRowWithVariance_def print_trials_eq del: sum_list_eq_0_iff)
qed

end
