(* ===== verification/Spec2Isabelle.thy ===== *)
theory Spec2Isabelle
  imports Transaction_Properties Kv_Clients Contention Progress Alloc_Failure Background_GC Unit_Tests
    Bench_Workload Bench_Threads Bench_Output
begin

text \<open>
  A model of mvcc-lite, an in-memory multi-version key-value store in C++ (\<open>src/include/mvcc\<close>
  and \<open>src/src\<close>), with the theorems that make it correct.

  \<^bold>\<open>The program.\<close> \<open>KVStore\<close> is a baseline hash map behind one mutex. \<open>VersionStore\<close> keeps, per
  key, a history of (version, value or tombstone) entries and one version counter behind a
  \<open>shared_mutex\<close>; a batch of writes is applied at one version, optionally after checking that
  none of its keys has an entry newer than a snapshot (optimistic concurrency control).
  \<open>TransactionManager\<close> hands out transaction ids and keeps the snapshot of every active
  transaction in sixteen shards with a mutex each. A \<open>Transaction\<close> reads at its snapshot,
  buffers its writes and commits them as one validated batch; \<open>RunWithRetry\<close> repeats a body
  until its commit does not conflict. \<open>GarbageCollector\<close> asks the manager for the oldest
  active snapshot and removes from the store what no snapshot from there on can see, on demand
  or from a background thread.

  \<^bold>\<open>Theories.\<close>
  \<^item> \<open>Mvcc_Prelude\<close>: \<open>u64\<close> (64-bit words, arithmetic wraps), nullable out-parameters, the
    interface of \<open>std::unordered_map\<close> (locale \<open>unordered_map\<close>, interpreted as \<open>um\<close> on
    association lists with distinct keys), the bisection of \<open>std::partition_point\<close>,
    \<open>std::to_string\<close>.
  \<^item> \<open>Mvcc_Status\<close>: \<open>Status\<close> and its codes (\<open>status.h\<close>).
  \<^item> \<open>Kv_Interface\<close>: the contract of a key-value map with \<open>Put\<close>, \<open>Get\<close>, \<open>Delete\<close> (locale
    \<open>kv_api\<close>), with the client lemma that every sequence of calls is answered as by a plain
    map. It is interpreted three times: on \<open>KVStore\<close> (\<open>kv\<close>), on the latest version of
    \<open>VersionStore\<close> (\<open>vs_latest\<close>) and on the inside of a transaction (\<open>buf\<close>).
  \<^item> \<open>Kv_Store\<close>: \<open>kv_store.h\<close>, \<open>kv_store.cpp\<close>. \<open>KV_Put\<close> is \<open>KVStore::Put\<close>, and so on.
  \<^item> \<open>Snapshot_Interface\<close>: what transactions and the collector need of a versioned store
    (locales \<open>snapshot_store\<close>, \<open>counting_snapshot_store\<close>): writes do not touch existing
    versions, a collection does not touch versions from its boundary on. Client lemmas about
    arbitrary interleavings of writes and collections.
  \<^item> \<open>Version_Store\<close>: \<open>version_store.h\<close>, \<open>version_store.cpp\<close>, every method (\<open>VS_Put\<close> is
    \<open>VersionStore::Put\<close>, and so on); the invariant \<open>vs_inv\<close>; the abstract view
    \<open>visible s k v\<close>; interpretation \<open>vs\<close> of the snapshot interface.
  \<^item> \<open>Txn_Registry\<close>: the sharded table of active snapshots and its scans (\<open>transaction.h\<close>,
    \<open>transaction.cpp\<close>); the flat map it implements (locale \<open>snapshot_registry\<close>, interpretation
    \<open>reg\<close>).
  \<^item> \<open>Transactions\<close>: \<open>Transaction\<close> and \<open>Begin\<close>, run without interruption on a \<open>World\<close> (the store
    and the manager the C++ references point to).
  \<^item> \<open>Retry\<close>: \<open>RunWithRetry\<close>; the body is a parameter that may do anything to the world and to
    its transaction, and returns a status or throws.
  \<^item> \<open>Garbage_Collector\<close>: \<open>RunOnce\<close> and the statistics (\<open>gc.h\<close>, \<open>gc.cpp\<close>).
  \<^item> \<open>Background_GC\<close>: \<open>StartBackground\<close>, \<open>StopBackground\<close>, \<open>BackgroundLoop\<close> and the destructor
    as a machine of a controller and the background thread, with the condition variable; the
    same with several controllers; and a start whose thread cannot be created.
  \<^item> \<open>Concurrency\<close>: any number of transactions, collections and direct writers interleaved at the
    granularity of the code's critical sections (\<open>agent_step\<close>, \<open>sys_step\<close>, \<open>reach\<close>), with an
    inductive invariant.
  \<^item> \<open>Snapshot_Isolation\<close>: the specification, an abstract machine with a log of committed batches
    and transactions that are positions in it (\<open>si_step\<close>), in which the first committer wins; and
    the interface of forward simulations (locale \<open>forward_simulation\<close>).
  \<^item> \<open>SI_Refinement\<close>: the interleaved system simulates that machine (interpretation \<open>si\<close>).
  \<^item> \<open>Rmw_Client\<close>: agents that read a counter in a transaction and write its successor, on the
    interleaved system: the counter is the number of their commits.
  \<^item> \<open>Kv_Clients\<close>: the same client on the baseline store, where increments can be lost.
  \<^item> \<open>Contention\<close>: runs of the interleaved system observed by a client (\<open>observed\<close>, with its rule
    for invariants): refused commits counted against the versions others wrote, and keys with
    owners.
  \<^item> \<open>Progress\<close>: from every point inside an operation the agent alone, whatever the others have
    done, needs a bounded number of its own steps to complete it, and is never blocked.
  \<^item> \<open>Iteration_Order\<close>: states that differ only in the order of their hash tables
    (\<open>same_world\<close>, \<open>same_txn\<close>) give the same results and stay so.
  \<^item> \<open>Alloc_Failure\<close>: the operations once more, with an argument that says which allocation
    throws \<open>std::bad_alloc\<close> (\<open>VS_Put_alloc\<close> and so on), and what a failure leaves behind.
  \<^item> \<open>Unit_Tests\<close>: the sequential unit tests of the repository, run on the model.
  \<^item> \<open>Bench_Stats\<close>, \<open>Bench_Workload\<close>, \<open>Bench_Threads\<close>, \<open>Bench_Output\<close>: the benchmark
    (\<open>bench/bench_mvcc_vs_kv.cpp\<close>): its order statistics, with the percentile index computed in
    exactly rounded double arithmetic; its workloads without the clock, the random draws being
    parameters; the threads of \<open>RunWorkload\<close> with the stop flag and the join; and the printed
    report, with the rendering of doubles as a parameter.
  \<^item> \<open>Store_Properties\<close>, \<open>Transaction_Properties\<close> and this theory: the properties of the
    stores, of transactions and of the interleaved system; the others are at the ends of the
    theories they are about.

  \<^bold>\<open>Correspondence.\<close> A C++ method is a function from the object's record and the arguments to the
  status, the new record and the final contents of the out-parameters; the out-parameters
  that may be null are options. Every method of the two stores holds its mutex for all of its
  accesses, so it is one atomic step. The methods of transactions, manager and collector
  consist of several critical sections; they are given twice, as functions (run without
  interruption) and as steps of \<open>agent_step\<close>, and C18 relates the two.

  \<^bold>\<open>What is shown.\<close> For the stores: the bisecting reads return the reference view, every operation
  keeps the invariant, failed writes have no effect, the versioned store at its latest version
  is indistinguishable from the baseline, existing versions never change, garbage collection
  with a boundary is invisible from the boundary on, complete, and counted exactly. For
  transactions: a transaction is a private map over its snapshot, commits are atomic and
  refused exactly on the keys somebody else has written since the snapshot, no update is lost,
  finished transactions are inert, \<open>RunWithRetry\<close> ends as documented, leaks no registration even
  if its body throws, and runs out of attempts only if others have committed as often. For
  interleaved executions: every transaction that did not register while a scan for the garbage
  boundary was under way reads, and is validated, as if no garbage had ever been collected, and
  runs in which no transaction does so are runs of the abstract machine of snapshot isolation;
  clients that increment a counter in transactions lose no increment (on the baseline store all
  but one can be lost); transactions on keys with one writer each are never refused, and every
  refusal is paid for by a version somebody else wrote; every operation completes in a bounded
  number of its own steps. Nothing a caller sees depends on the iteration order of a hash table.
  For the background thread: with one controlling thread it is never started over a joinable
  thread, and stopping it neither waits for the interval nor can hang (two threads that call
  \<open>StartBackground\<close> at once can terminate the program, and a start that fails for want of a
  thread leaves a collector that says it is running). For the benchmark: its
  percentiles are in range and ordered, its median is a median, no operation of its workloads
  fails when the bodies do not overlap, its threads end after the stop flag and no sample is
  lost, and its report always comes out but calls a few operations none.

  The restriction to transactions that did not register under a scan is necessary.
  \<open>OldestActiveSnapshot\<close> looks at one shard after the other and reads the current version only
  after the last, so a transaction that begins in a shard already passed, followed by a write,
  gets a snapshot below the boundary: C5 is a run in which it loses the version it reads, C9
  one in which its commit overwrites a deletion it has not seen. The comments in \<open>gc.h\<close> and
  \<open>transaction.h\<close> argue that this cannot happen.

  When memory runs out the guarantees are weaker than the code's comments suggest: a commit that
  throws half way has published a prefix of its writes (C25), a \<open>Put\<close> that throws can leave a
  buffered delete (C26), a \<open>Begin\<close> that throws can leave a registration that holds back garbage
  collection for good (C27). An insertion that fails in the versioned store is harmless (C28),
  in the baseline it stores an empty value (C29).

  \<^bold>\<open>Bounds.\<close> The counters are 64 bits wide and the code does not check them. Theorems about runs
  assume that fewer than \<open>2 ^ 64\<close> versions and ids are used (\<open>vs_ready n s\<close>: the store is well
  formed and has room for \<open>n\<close> more versions; \<open>reach n \<sigma>\<close>: \<open>n\<close> steps were made); C35 shows what
  happens beyond. No definition uses fuel: the loops are structural recursions, the bisection
  has a termination proof, and \<open>RunWithRetry\<close> is bounded by \<open>max_attempts\<close>.

  \<^bold>\<open>Not modelled.\<close> Failures of allocation inside an interleaved run (\<open>Alloc_Failure\<close> has them in
  operations that are not interrupted) and in the benchmark; the memory model below the mutexes
  and sequentially consistent atomics; the duration of waits; the clock and the random source of
  the benchmark (its measurements and draws are parameters); the threads of the stress
  tests (what they look for is proved of all interleavings); the build.
\<close>

section \<open>Interleaved transactions and collections\<close>

text \<open>C3: In every reachable state of the interleaved system, every transaction that did not
  register while a scan was under way reads and is validated as if garbage collection did not
  exist: each \<open>Get\<close> has the code and the value it would have on the store that received the
  same writes and was never collected, and its commit would be refused on the same keys.
  Its registration is intact.\<close>

theorem unraced_reads_as_uncollected:
  assumes "reach n \<sigma>" and "Suc n < 2 ^ 64" and "agents \<sigma> i = In_txn t" and "txn_id t \<notin> raced \<sigma>"
  shows "st_code (fst (Txn_Get (sh_store (shared \<sigma>)) t k out)) =
      st_code (fst (Txn_Get (sh_ideal (shared \<sigma>)) t k out)) \<and>
    snd (Txn_Get (sh_store (shared \<sigma>)) t k out) = snd (Txn_Get (sh_ideal (shared \<sigma>)) t k out) \<and>
    txn_conflicts (sh_store (shared \<sigma>)) t = txn_conflicts (sh_ideal (shared \<sigma>)) t \<and>
    active_snapshots (sh_mgr (shared \<sigma>)) (txn_id t) = Some (snapshot_version t)"
proof -
  note R = reach_in_txn [OF assms(1-3)]
  show ?thesis
    using Txn_Get_agree [OF R(1,2) R(7) [OF assms(4)]] txn_conflicts_agree [OF R(7) [OF assms(4)] R(4)] R(3)
    by simp
qed

theorem unraced_reads_as_uncollected_witness:
  "\<exists>\<sigma>. reach 6 \<sigma> \<and> agents \<sigma> 1 = In_txn (new_Transaction 1 1) \<and>
     snd (Txn_Get (sh_store (shared \<sigma>)) (new_Transaction 1 1) ''k'' '''') =
     snd (Txn_Get (sh_ideal (shared \<sigma>)) (new_Transaction 1 1) ''k'' '''')"
proof -
  obtain \<sigma> where \<sigma>: "reach 6 \<sigma>" "agents \<sigma> 1 = In_txn (new_Transaction 1 1)" "raced \<sigma> = {}"
    using quiet_run by (auto simp: quiet_at_def)
  have "snd (Txn_Get (sh_store (shared \<sigma>)) (new_Transaction 1 1) ''k'' '''') =
     snd (Txn_Get (sh_ideal (shared \<sigma>)) (new_Transaction 1 1) ''k'' '''')"
    using unraced_reads_as_uncollected [OF \<sigma>(1) _ \<sigma>(2)] \<sigma>(3) by simp
  with \<sigma> show ?thesis by blast
qed

text \<open>C4: Reads are repeatable in every interleaving: between any two points of a run at which
  a transaction is active, whatever commits and collections come between, every key shows the
  same value at its snapshot, provided it did not register while a scan was under way.\<close>

theorem unraced_repeatable_reads:
  assumes "reach n \<sigma>" and "(sys_step ^^ m) \<sigma> \<sigma>'" and "Suc (n + m) < 2 ^ 64"
    and "agents \<sigma> i = In_txn t" and "agents \<sigma>' i = In_txn t'"
    and "txn_id t' = txn_id t" and "snapshot_version t' = snapshot_version t"
    and "txn_id t \<notin> raced \<sigma>'"
  shows "visible (sh_store (shared \<sigma>')) k (snapshot_version t) =
    visible (sh_store (shared \<sigma>)) k (snapshot_version t)"
proof -
  have n: "Suc n < 2 ^ 64" using assms(3) by simp
  note R = reach_in_txn [OF assms(1) n assms(4)]
  note H = run_history [OF assms(1-3) R(4), of k]
  have R': "agree_from (shared \<sigma>') (snapshot_version t)"
    using reach_in_txn(7) [OF _ assms(3,5)] H assms(6-8) by simp
  have A: "agree_from (shared \<sigma>) (snapshot_version t)"
    using R(7) H assms(8) by blast
  show ?thesis
    using vs.agree_view [OF R' order_refl, of k] vs.agree_view [OF A order_refl, of k] H by simp
qed

theorem unraced_repeatable_reads_witness:
  "\<exists>\<sigma> \<sigma>'. reach 5 \<sigma> \<and> (sys_step ^^ 1) \<sigma> \<sigma>' \<and> cur (shared \<sigma>) = 1 \<and> cur (shared \<sigma>') = 2 \<and>
     visible (sh_store (shared \<sigma>')) ''k'' 1 = visible (sh_store (shared \<sigma>)) ''k'' 1"
proof -
  let ?t = "new_Transaction 1 1"
  obtain \<sigma> \<sigma>' where q: "quiet_at 5 race2 ((\<lambda>_. Idle)(1 := In_txn ?t)) \<sigma>" "sys_step \<sigma> \<sigma>'"
      "quiet_at 6 race3 ((\<lambda>_. Idle)(1 := In_txn ?t)) \<sigma>'"
    using quiet_run by blast
  then have r: "reach 5 \<sigma>" "(sys_step ^^ 1) \<sigma> \<sigma>'" "agents \<sigma> 1 = In_txn ?t" "agents \<sigma>' 1 = In_txn ?t"
      "txn_id ?t \<notin> raced \<sigma>'" "shared \<sigma> = race2" "shared \<sigma>' = race3"
    by (auto simp: quiet_at_def)
  have "visible (sh_store (shared \<sigma>')) ''k'' 1 = visible (sh_store (shared \<sigma>)) ''k'' 1"
    using unraced_repeatable_reads [OF r(1,2) _ r(3,4) refl refl r(5), of "''k''"] by simp
  moreover have "cur race2 = 1" "cur race3 = 2" by code_simp+
  ultimately show ?thesis using r by metis
qed

text \<open>C1: The interleaved system implements snapshot isolation. Every reachable state in which
  no transaction has registered under a scan is matched by a reachable state of the abstract
  machine, a log of committed batches in which the first committer wins: the current contents
  of the store are the replayed log, every active transaction has an abstract counterpart at
  the position of its snapshot, each of its reads returns what the abstract transaction reads,
  and its commit would be accepted exactly if the abstract one is.\<close>

theorem refines_snapshot_isolation:
  assumes "reach n \<sigma>" and "Suc n < 2 ^ 64" and "raced \<sigma> = {}"
  shows "\<exists>a. si_step\<^sup>*\<^sup>* SI_init a \<and> first_committer_wins (si_log a) \<and>
    length (si_log a) = unat (cur (shared \<sigma>)) \<and>
    (\<forall>k. visible (sh_store (shared \<sigma>)) k (cur (shared \<sigma>)) = si_view (si_log a) k) \<and>
    (\<forall>i t. agents \<sigma> i = In_txn t \<longrightarrow>
      (\<exists>x. si_txns a i = Some x \<and> si_snap x = unat (snapshot_version t) \<and>
        answers_as (shared \<sigma>) t (si_log a) x))"
proof -
  obtain a where a: "si_step\<^sup>*\<^sup>* SI_init a" "si_rel \<sigma> a"
    using si.run_matched [of "(n, \<sigma>)"] assms by (auto simp: run_step_reach run_good_def)
  then show ?thesis
    using si_inv_reachable [OF a(1)] si_rel_current [OF assms(1,2) a(2)] si_rel_answers [OF assms a(2)]
    by (intro exI [of _ a]) (simp add: si_inv_def)
qed

theorem refines_snapshot_isolation_witness:
  "\<exists>\<sigma> a. reach 6 \<sigma> \<and> si_step\<^sup>*\<^sup>* SI_init a \<and> length (si_log a) = 2 \<and>
     (\<exists>x. si_txns a 1 = Some x \<and> si_snap x = 1 \<and> si_read (si_log a) x ''k'' = Some ''a'')"
proof -
  obtain \<sigma> where \<sigma>: "reach 6 \<sigma>" "agents \<sigma> 1 = In_txn (new_Transaction 1 1)" "raced \<sigma> = {}"
      "shared \<sigma> = race3"
    using quiet_run by (auto simp: quiet_at_def)
  have get: "Txn_Get (sh_store race3) (new_Transaction 1 1) ''k'' '''' = (OK, ''a'')"
    by code_simp
  from refines_snapshot_isolation [OF \<sigma>(1) _ \<sigma>(3)] obtain a where a: "si_step\<^sup>*\<^sup>* SI_init a"
      "length (si_log a) = unat (cur (shared \<sigma>))"
      "\<forall>i t. agents \<sigma> i = In_txn t \<longrightarrow>
        (\<exists>x. si_txns a i = Some x \<and> si_snap x = unat (snapshot_version t) \<and>
          answers_as (shared \<sigma>) t (si_log a) x)"
    by auto
  from a(3) \<sigma>(2) obtain x where x: "si_txns a 1 = Some x" "si_snap x = 1"
      "answers_as race3 (new_Transaction 1 1) (si_log a) x"
    by (fastforce simp: \<sigma>(4))
  from x(3) get have "si_read (si_log a) x ''k'' = Some ''a''"
    unfolding answers_as_def by blast
  with \<sigma> a(1,2) x(1,2) race_begin(4) show ?thesis
    by (intro exI [of _ \<sigma>] exI [of _ a]) auto
qed

text \<open>C5: The boundary scan can race with \<open>Begin\<close>. There is a run in which a transaction is
  active and registered with snapshot 1, at which key \<open>k\<close> holds \<open>a\<close>, and a collection
  has removed that version: its \<open>Get\<close> answers that the key did not exist.\<close>

theorem scan_race_loses_snapshot:
  "\<exists>\<sigma> t. reach 26 \<sigma> \<and> agents \<sigma> 1 = In_txn t \<and>
     active_snapshots (sh_mgr (shared \<sigma>)) (txn_id t) = Some (snapshot_version t) \<and>
     Txn_Get (sh_ideal (shared \<sigma>)) t ''k'' '''' = (OK, ''a'') \<and>
     Txn_Get (sh_store (shared \<sigma>)) t ''k'' '''' =
       (NotFound ''key did not exist as of version 1'', '''')"
proof -
  obtain \<sigma> where "reach 26 \<sigma>" "shared \<sigma> = race4" "agents \<sigma> 1 = In_txn (new_Transaction 1 1)"
    using reach_race4 by (auto simp: reach_at_def)
  with race4_read show ?thesis
    by (intro exI [of _ \<sigma>] exI [of _ "new_Transaction 1 1"]) simp
qed

text \<open>C9: The same race can hide a conflict. There is a run in which an active transaction
  has buffered a write of \<open>k\<close>, \<open>k\<close> was deleted after its snapshot, and its commit finds no
  conflict because the collection has erased the tombstone: its commit overwrites a deletion
  it has not seen.\<close>

theorem scan_race_hides_conflict:
  "\<exists>\<sigma> t. reach 27 \<sigma> \<and> agents \<sigma> 1 = In_txn t \<and> map fst (write_set t) = [''k''] \<and>
     txn_conflicts (sh_ideal (shared \<sigma>)) t = [''k''] \<and>
     fst (Txn_Commit (world_of (shared \<sigma>)) t None None) = OK"
proof -
  obtain \<sigma> where \<sigma>: "reach 27 \<sigma>" "shared \<sigma> = race6" "agents \<sigma> 1 = In_txn race_txn"
    using reach_race6 by (auto simp: reach_at_def)
  have "map fst (write_set race_txn) = [''k'']" "fst (Txn_Commit (world_of race6) race_txn None None) = OK"
    by code_simp+
  with \<sigma> race5_facts(3) show ?thesis
    by (intro exI [of _ \<sigma>] exI [of _ race_txn]) simp
qed



section \<open>The background thread\<close>

text \<open>C31: Stopping is prompt and cannot hang. Whenever \<open>StopBackground\<close> waits in \<open>join\<close>, the
  background thread is not blocked in an unnotified wait, so no interval has to pass: it has
  exited or can take a step, no sequence of its steps is longer than two, and after each of
  them the same holds, so it exits after at most two steps.\<close>

theorem stop_is_prompt:
  assumes "gc_reach (g, Stop_joining)" and "(bg_step ^^ n) g g'"
  shows "n \<le> 2 \<and> background_thread g' \<noteq> Bg_wait False \<and>
    (background_thread g' = Bg_exited \<or> (\<exists>g''. bg_step g' g''))"
proof -
  have "running g" "joinable (background_thread g)" "stop_requested g"
    "background_thread g \<noteq> Bg_wait False"
    using gc_reach_inv [OF assms(1)] by simp_all
  with bg_run_stopping [OF assms(2)] have run: "joinable (background_thread g')"
    "background_thread g' \<noteq> Bg_wait False"
    "n + bg_distance (background_thread g') \<le> bg_distance (background_thread g)"
    by blast+
  with bg_step_exists [of g'] bg_distance_le [of "background_thread g"] show ?thesis
    by auto
qed

text \<open>A run that starts the thread, lets it make a pass and wait, and stops it.\<close>

definition stopping :: Collector where
  "stopping = (run_pass (Collector_init World_init))
     \<lparr>background_thread := Bg_wait True, running := True, stop_requested := True\<rparr>"

lemma gc_reach_ctl: "gc_reach (g, c) \<Longrightarrow> ctl_step g c g' c' \<Longrightarrow> gc_reach (g', c')"
  by (blast intro: gc_reach_step gc_ctl)

lemma gc_reach_bg: "gc_reach (g, c) \<Longrightarrow> bg_step g g' \<Longrightarrow> gc_reach (g', c)"
  by (blast intro: gc_reach_step gc_bg)

lemma gc_reach_stopping: "gc_reach (stopping, Stop_joining)"
proof -
  let ?g = "Collector_init World_init"
  let ?g1 = "?g\<lparr>stop_requested := False, running := True, background_thread := Bg_pass\<rparr>"
  let ?g2 = "(run_pass ?g1)\<lparr>background_thread := Bg_lock\<rparr>"
  let ?g3 = "?g2\<lparr>background_thread := Bg_wait False\<rparr>"
  have "gc_reach (?g, Start_checked)"
    using gc_reach_ctl [OF gc_reach_init start_check] by (simp add: Collector_init_def)
  from gc_reach_ctl [OF gc_reach_ctl [OF gc_reach_ctl [OF this start_clear] start_mark] start_thread]
  have "gc_reach (?g1, Ctl_idle)"
    by (simp add: Collector_init_def joinable_def)
  then have "gc_reach (?g2, Ctl_idle)"
    by (rule gc_reach_bg) (rule bg_pass, simp)
  then have g3: "gc_reach (?g3, Ctl_idle)"
    using bg_lock [of ?g2] by (auto intro: gc_reach_bg simp: wait_test_def)
  have "gc_reach (?g3, Stop_checked)"
    by (rule gc_reach_ctl [OF g3 stop_check]) simp
  from gc_reach_ctl [OF gc_reach_ctl [OF this stop_flag] stop_notify]
  have "gc_reach (?g3\<lparr>stop_requested := True, background_thread := Bg_wait True\<rparr>, Stop_notified)"
    by simp
  from gc_reach_ctl [OF this stop_joinable] show ?thesis
    by (simp add: joinable_def stopping_def run_pass_def Collector_init_def case_prod_beta Let_def)
qed

theorem stop_is_prompt_witness:
  "background_thread stopping \<noteq> Bg_wait False \<and> (\<exists>g''. bg_step stopping g'')"
  using stop_is_prompt [OF gc_reach_stopping, of 0 stopping] by (simp add: stopping_def)



end
